(* ===== verification/Prelude.thy ===== *)
theory Prelude imports
  Main
  "HOL-Library.Word"
  "HOL-Library.Monad_Syntax"
begin

text \<open>
  Shared vocabulary of the development: the widths of the C types, alignment
  macros, bounded memory reads and writes, and the theory of ring segments that
  every circular buffer of the program (\<open>rt_ringbuffer\<close>, mailbox pool, data
  queue) rests on.

  A C function that may stop in \<open>rt_assert_handler\<close>, or touch a byte outside the
  object it was given, returns an option: \<open>None\<close> is "does not return normally",
  and every other outcome, error codes included, is \<open>Some\<close>.
\<close>

unbundle bit_operations_syntax

named_theorems ring_simps \<open>rewriting of ring segments\<close>
named_theorems mem_simps \<open>bounded reads and writes\<close>

subsection \<open>C types\<close>

type_synonym u8 = "8 word"
type_synonym u15 = "15 word"
type_synonym u16 = "16 word"
type_synonym u32 = "32 word"

text \<open>\<open>rt_err_t\<close> is a signed machine integer; the codes are small.\<close>

type_synonym rt_err_t = int

definition RT_EOK :: rt_err_t where "RT_EOK = 0"
definition RT_ERROR :: rt_err_t where "RT_ERROR = 1"
definition RT_ETIMEOUT :: rt_err_t where "RT_ETIMEOUT = 2"
definition RT_EFULL :: rt_err_t where "RT_EFULL = 3"
definition RT_EEMPTY :: rt_err_t where "RT_EEMPTY = 4"
definition RT_EINVAL :: rt_err_t where "RT_EINVAL = 10"

lemmas rt_err_defs = RT_EOK_def RT_ERROR_def RT_ETIMEOUT_def RT_EFULL_def
  RT_EEMPTY_def RT_EINVAL_def

text \<open>\<open>RT_ASSERT\<close>: a false condition ends in the assert handler's endless loop.\<close>

definition rt_assert :: "bool \<Rightarrow> unit option" where
  "rt_assert b = (if b then Some () else None)"

lemma rt_assert_simps [simp]:
  "rt_assert True = Some ()" "rt_assert False = None"
  by (simp_all add: rt_assert_def)

lemma rt_assert_eq_Some [simp]: "rt_assert b = Some u \<longleftrightarrow> b"
  by (cases u) (simp add: rt_assert_def)

text \<open>\<open>RT_ALIGN_SIZE\<close> is 4 in the board's \<open>rtconfig.h\<close>.\<close>

definition RT_ALIGN_SIZE :: "'a::len word" where "RT_ALIGN_SIZE = 4"

definition RT_ALIGN :: "'a::len word \<Rightarrow> 'a word \<Rightarrow> 'a word" where
  "RT_ALIGN sz align = (sz + align - 1) AND NOT (align - 1)"

definition RT_ALIGN_DOWN :: "'a::len word \<Rightarrow> 'a word \<Rightarrow> 'a word" where
  "RT_ALIGN_DOWN sz align = sz AND NOT (align - 1)"

lemma unat_and_not_3 [simp]:
  assumes "2 < LENGTH('a::len)"
  shows "unat (x AND - 4 :: 'a word) = 4 * (unat x div 4)"
proof -
  have "x AND NOT (mask 2) = push_bit 2 (drop_bit 2 x)"
  proof (rule bit_word_eqI)
    fix n assume "n < LENGTH('a)"
    then show "bit (x AND NOT (mask 2)) n = bit (push_bit 2 (drop_bit 2 x)) n"
      by (cases "n < 2") (auto simp: bit_simps not_less le_add_diff_inverse simp del: add_2_eq_Suc add_2_eq_Suc')
  qed
  then have "x AND - 4 = push_bit 2 (drop_bit 2 x)"
    by (simp add: mask_eq_exp_minus_1)
  then have "unat (x AND - 4) = take_bit LENGTH('a) (push_bit 2 (drop_bit 2 (unat x)))"
    by (simp add: unsigned_push_bit_eq unsigned_drop_bit_eq take_bit_nat_eq_self)
  also have "push_bit 2 (drop_bit 2 (unat x)) = 4 * (unat x div 4)"
    by (simp add: push_bit_eq_mult drop_bit_eq_div)
  also have "take_bit LENGTH('a) (4 * (unat x div 4)) = 4 * (unat x div 4)"
  proof -
    have "4 * (unat x div 4) \<le> unat x" by simp
    then have "4 * (unat x div 4) < 2 ^ LENGTH('a)"
      using unsigned_less [of x] by (meson le_less_trans)
    then show ?thesis by (simp add: take_bit_nat_eq_self)
  qed
  finally show ?thesis .
qed

lemma unat_RT_ALIGN_DOWN [simp]:
  "2 < LENGTH('a::len) \<Longrightarrow>
   unat (RT_ALIGN_DOWN (x :: 'a word) RT_ALIGN_SIZE) = 4 * (unat x div 4)"
  by (simp add: RT_ALIGN_DOWN_def RT_ALIGN_SIZE_def)

lemma unat_RT_ALIGN:
  assumes "2 < LENGTH('a::len)" "unat (x :: 'a word) + 3 < 2 ^ LENGTH('a)"
  shows "unat (RT_ALIGN x RT_ALIGN_SIZE) = 4 * ((unat x + 3) div 4)"
proof -
  have "RT_ALIGN x RT_ALIGN_SIZE = (x + 3) AND - 4"
    by (simp add: RT_ALIGN_def RT_ALIGN_SIZE_def algebra_simps)
  moreover have "unat (3 :: 'a word) = 3"
    using assms(2) by (simp add: unsigned_numeral take_bit_nat_eq_self)
  then have "unat (x + 3) = unat x + 3"
    using assms(2) by (simp add: unat_word_ariths)
  ultimately show ?thesis
    using assms(1) by simp
qed

text \<open>
  Word values are read as \<open>unat\<close> throughout; \<open>uint\<close> is turned into it, so that one linear
  arithmetic covers C's unsigned values and the promoted \<open>int\<close> expressions.
\<close>

declare of_nat_unat [simp del]
declare uint_nat [simp]

lemma word_of_nat_unat [simp]: "(of_nat (unat x) :: 'a::len word) = ucast x"
  by (rule of_nat_unat)

lemma unat_drop_bit: "unat (drop_bit n (x :: 'a::len word)) = unat x div 2 ^ n"
  by (simp only: unsigned_drop_bit_eq) (simp add: drop_bit_eq_div take_bit_nat_eq_self)

lemma sint_u16_bounds: "sint (x :: u16) < 32768" "- 32768 \<le> sint (x :: u16)"
  using sint_range_size [of x] by (simp_all add: word_size)

lemma sint_u16_small: "unat (x :: u16) < 32768 \<Longrightarrow> sint x = int (unat x)"
  by (simp add: sint_uint signed_take_bit_int_eq_self)

lemma sint_u16_nonneg:
  assumes "0 \<le> sint (x :: u16)"
  shows "unat x < 32768" "sint x = int (unat x)"
proof -
  have "int (unat x) = take_bit 16 (sint x)"
  proof -
    have "uint (word_of_int (sint x) :: u16) = take_bit 16 (sint x)"
      by (simp only: uint_word_of_int_eq) simp
    then show ?thesis by simp
  qed
  also have "\<dots> = sint x"
    using assms sint_u16_bounds [of x] by (simp add: take_bit_int_eq_self)
  finally show "sint x = int (unat x)" by simp
  then show "unat x < 32768" using sint_u16_bounds [of x] by simp
qed

subsection \<open>Bounded memory reads and writes\<close>

text \<open>
  A C object of \<open>n\<close> bytes is a list of length \<open>n\<close>; \<open>rt_memcpy\<close> between objects is a
  \<open>mread\<close> followed by a \<open>mwrite\<close>. Offsets and counts are integers, because C computes
  them in signed arithmetic; a negative or overlong access is outside the object.
\<close>

definition mread :: "'a list \<Rightarrow> int \<Rightarrow> int \<Rightarrow> 'a list option" where
  "mread m off n =
     (if 0 \<le> off \<and> 0 \<le> n \<and> off + n \<le> int (length m)
      then Some (take (nat n) (drop (nat off) m)) else None)"

definition mwrite :: "'a list \<Rightarrow> int \<Rightarrow> 'a list \<Rightarrow> 'a list option" where
  "mwrite m off xs =
     (if 0 \<le> off \<and> off + int (length xs) \<le> int (length m)
      then Some (take (nat off) m @ xs @ drop (nat off + length xs) m) else None)"

definition mget :: "'a list \<Rightarrow> int \<Rightarrow> 'a option" where
  "mget m off = (if 0 \<le> off \<and> off < int (length m) then Some (m ! nat off) else None)"

definition mset1 :: "'a list \<Rightarrow> int \<Rightarrow> 'a \<Rightarrow> 'a list option" where
  "mset1 m off x = (if 0 \<le> off \<and> off < int (length m) then Some (m[nat off := x]) else None)"

lemma mread_of_nat [mem_simps]:
  "off + n \<le> length m \<Longrightarrow> mread m (int off) (int n) = Some (take n (drop off m))"
  by (simp add: mread_def)

lemma mwrite_of_nat [mem_simps]:
  "off + length xs \<le> length m \<Longrightarrow>
   mwrite m (int off) xs = Some (take off m @ xs @ drop (off + length xs) m)"
  by (simp add: mwrite_def)

lemma mget_of_nat [mem_simps]: "i < length m \<Longrightarrow> mget m (int i) = Some (m ! i)"
  by (simp add: mget_def)

lemma mset1_of_nat [mem_simps]: "i < length m \<Longrightarrow> mset1 m (int i) x = Some (m[i := x])"
  by (simp add: mset1_def)

subsection \<open>Ring segments\<close>

text \<open>
  \<open>ring_seg m r k\<close>: the \<open>k\<close> elements of the circular buffer \<open>m\<close> from position \<open>r\<close> on.
  \<open>ring_upd m w xs\<close>: \<open>m\<close> with \<open>xs\<close> stored from position \<open>w\<close> on, wrapping at the end.
\<close>

definition ring_seg :: "'a list \<Rightarrow> nat \<Rightarrow> nat \<Rightarrow> 'a list" where
  "ring_seg m r k = map (\<lambda>i. m ! ((r + i) mod length m)) [0..<k]"

fun ring_upd :: "'a list \<Rightarrow> nat \<Rightarrow> 'a list \<Rightarrow> 'a list" where
  "ring_upd m w [] = m"
| "ring_upd m w (x # xs) = ring_upd (m[w mod length m := x]) (Suc w) xs"

lemma length_ring_seg [simp]: "length (ring_seg m r k) = k"
  by (simp add: ring_seg_def)

lemma ring_seg_0 [simp]: "ring_seg m r 0 = []"
  by (simp add: ring_seg_def)

lemma nth_ring_seg [simp]: "i < k \<Longrightarrow> ring_seg m r k ! i = m ! ((r + i) mod length m)"
  by (simp add: ring_seg_def)

lemma ring_seg_mod [simp]: "ring_seg m (r mod length m) k = ring_seg m r k"
  by (simp add: ring_seg_def mod_add_left_eq)

lemma ring_seg_append: "ring_seg m r (a + b) = ring_seg m r a @ ring_seg m (r + a) b"
  by (rule nth_equalityI) (auto simp: nth_append add.assoc)

lemma ring_seg_Suc: "ring_seg m r (Suc k) = m ! (r mod length m) # ring_seg m (Suc r) k"
  using ring_seg_append [of m r 1 k] by (simp add: ring_seg_def)

lemma take_ring_seg: "a \<le> k \<Longrightarrow> take a (ring_seg m r k) = ring_seg m r a"
  by (rule nth_equalityI) auto

lemma drop_ring_seg: "a \<le> k \<Longrightarrow> drop a (ring_seg m r k) = ring_seg m (r + a) (k - a)"
  by (rule nth_equalityI) (auto simp: add.assoc)

lemma ring_seg_straight:
  "r + k \<le> length m \<Longrightarrow> ring_seg m r k = take k (drop r m)"
  by (rule nth_equalityI) auto

lemma ring_seg_wrap:
  assumes "r < length m" "length m \<le> r + k" "k \<le> length m"
  shows "ring_seg m r k = drop r m @ take (r + k - length m) m"
proof (rule nth_equalityI)
  show "length (ring_seg m r k) = length (drop r m @ take (r + k - length m) m)"
    using assms by auto
  fix i assume "i < length (ring_seg m r k)"
  then have i: "i < k" by simp
  show "ring_seg m r k ! i = (drop r m @ take (r + k - length m) m) ! i"
  proof (cases "r + i < length m")
    case True
    with i show ?thesis by (auto simp: nth_append)
  next
    case False
    with i assms have "(r + i) mod length m = r + i - length m"
      by (simp add: mod_if)
    with False i assms show ?thesis by (auto simp: nth_append add.commute)
  qed
qed

lemma length_ring_upd [simp]: "length (ring_upd m w xs) = length m"
  by (induction xs arbitrary: m w) auto

lemma ring_upd_mod [simp]: "ring_upd m (w mod length m) xs = ring_upd m w xs"
proof (induction xs arbitrary: m w)
  case Nil
  show ?case by simp
next
  case (Cons x xs)
  let ?m = "m[w mod length m := x]"
  have "ring_upd ?m (Suc (w mod length m)) xs = ring_upd ?m (Suc (w mod length m) mod length ?m) xs"
    by (metis Cons.IH)
  also have "\<dots> = ring_upd ?m (Suc w mod length ?m) xs"
    by (simp add: mod_Suc_eq)
  finally show ?case
    by (metis Cons.IH mod_mod_trivial ring_upd.simps(2))
qed

lemma ring_upd_append: "ring_upd m w (xs @ ys) = ring_upd (ring_upd m w xs) (w + length xs) ys"
  by (induction xs arbitrary: m w) auto

lemma ring_upd_straight:
  "w + length xs \<le> length m \<Longrightarrow> ring_upd m w xs = take w m @ xs @ drop (w + length xs) m"
proof (induction xs arbitrary: m w)
  case (Cons x xs)
  then have "ring_upd m w (x # xs) = take (Suc w) (m[w := x]) @ xs @ drop (Suc w + length xs) (m[w := x])"
    by simp
  also have "\<dots> = take w m @ (x # xs) @ drop (w + length (x # xs)) m"
    using Cons.prems by (simp add: take_Suc_conv_app_nth)
  finally show ?case .
qed simp

lemma ring_upd_split:
  assumes "w \<le> length m" "length m - w \<le> length xs"
  shows "ring_upd m w xs =
    ring_upd (ring_upd m w (take (length m - w) xs)) 0 (drop (length m - w) xs)"
proof -
  let ?a = "take (length m - w) xs" and ?b = "drop (length m - w) xs"
  have "ring_upd m w xs = ring_upd (ring_upd m w ?a) (w + length ?a) ?b"
    by (metis append_take_drop_id ring_upd_append)
  also have "w + length ?a = length (ring_upd m w ?a)"
    using assms by simp
  also have "ring_upd (ring_upd m w ?a) (length (ring_upd m w ?a)) ?b
      = ring_upd (ring_upd m w ?a) 0 ?b"
    by (metis mod_self ring_upd_mod)
  finally show ?thesis .
qed

lemma mread_ring [ring_simps]:
  "r + k \<le> length m \<Longrightarrow> mread m (int r) (int k) = Some (ring_seg m r k)"
  by (simp add: mread_of_nat ring_seg_straight)

lemma mwrite_ring [ring_simps]:
  "w + length xs \<le> length m \<Longrightarrow> mwrite m (int w) xs = Some (ring_upd m w xs)"
  by (simp add: mwrite_of_nat ring_upd_straight)

lemma mod_window_neq:
  assumes "i < k" "k < n"
  shows "(r + i) mod n \<noteq> (r + k) mod (n :: nat)"
proof
  assume "(r + i) mod n = (r + k) mod n"
  then have "n dvd (r + k) - (r + i)"
    using assms mod_eq_dvd_iff_nat [of "r + i" "r + k" n] by simp
  with assms show False
    by (auto dest: dvd_imp_le)
qed

lemma ring_seg_upd1:
  assumes "k < length m"
  shows "ring_seg (m[(r + k) mod length m := x]) r (Suc k) = ring_seg m r k @ [x]"
proof (rule nth_equalityI)
  fix i assume "i < length (ring_seg (m[(r + k) mod length m := x]) r (Suc k))"
  then consider "i < k" | "i = k" by fastforce
  then show "ring_seg (m[(r + k) mod length m := x]) r (Suc k) ! i = (ring_seg m r k @ [x]) ! i"
  proof cases
    case 1
    then have "(r + k) mod length m \<noteq> (r + i) mod length m"
      using assms mod_window_neq by metis
    with 1 show ?thesis by (simp add: nth_append)
  next
    case 2
    with assms show ?thesis
      by (simp add: nth_append) (metis assms gr_implies_not0 mod_less_divisor neq0_conv nth_list_update_eq)
  qed
qed simp

text \<open>Storing \<open>xs\<close> behind the \<open>k\<close> live elements appends them to the contents.\<close>

lemma ring_seg_ring_upd:
  "k + length xs \<le> length m \<Longrightarrow>
   ring_seg (ring_upd m (r + k) xs) r (k + length xs) = ring_seg m r k @ xs"
proof (induction xs arbitrary: m k)
  case (Cons x xs)
  let ?m = "m[(r + k) mod length m := x]"
  have "ring_seg (ring_upd m (r + k) (x # xs)) r (k + length (x # xs))
      = ring_seg (ring_upd ?m (r + Suc k) xs) r (Suc k + length xs)"
    by simp
  also have "\<dots> = ring_seg ?m r (Suc k) @ xs"
    using Cons.prems by (intro Cons.IH) simp
  also have "ring_seg ?m r (Suc k) = ring_seg m r k @ [x]"
    using Cons.prems by (intro ring_seg_upd1) simp
  finally show ?case by simp
qed simp

text \<open>Storing past the free space overwrites the oldest elements: the last \<open>length m\<close> survive.\<close>

lemma ring_seg_overwrite:
  assumes "k \<le> length m" "length xs \<le> length m" "length m \<le> k + length xs"
  shows "ring_seg (ring_upd m (r + k) xs) (r + k + length xs) (length m)
    = drop (k + length xs - length m) (ring_seg m r k @ xs)"
proof -
  let ?d = "k + length xs - length m"
  have d: "?d \<le> k" "r + k = r + ?d + (k - ?d)" "k - ?d + length xs = length m"
    using assms by auto
  have "ring_seg (ring_upd m (r + k) xs) (r + ?d) (length m) = ring_seg m (r + ?d) (k - ?d) @ xs"
    using ring_seg_ring_upd [of "k - ?d" xs m "r + ?d"] d(3)
    by (simp only: d(2) [symmetric] d(3) order_refl)
  also have "\<dots> = drop ?d (ring_seg m r k @ xs)"
    using d by (simp add: drop_ring_seg)
  finally have "ring_seg (ring_upd m (r + k) xs) (r + ?d) (length m) = drop ?d (ring_seg m r k @ xs)" .
  moreover have "r + k + length xs = r + ?d + length m"
    using assms by simp
  then have "(r + k + length xs) mod length m = (r + ?d) mod length m"
    by (simp only: mod_add_self2)
  then have "ring_seg (ring_upd m (r + k) xs) (r + k + length xs) (length m)
    = ring_seg (ring_upd m (r + k) xs) (r + ?d) (length m)"
    by (metis length_ring_upd ring_seg_mod)
  ultimately show ?thesis by (simp only:)
qed

text \<open>Reads and writes within the front part of a larger object.\<close>

lemma mread_append:
  "r + k \<le> length p \<Longrightarrow> mread (p @ q) (int r) (int k) = Some (ring_seg p r k)"
  by (simp add: mread_of_nat ring_seg_straight)

lemma mwrite_append:
  "w + length xs \<le> length p \<Longrightarrow> mwrite (p @ q) (int w) xs = Some (ring_upd p w xs @ q)"
  by (simp add: mwrite_of_nat ring_upd_straight)

lemma mset1_append:
  "w < length p \<Longrightarrow> mset1 (p @ q) (int w) x = Some (ring_upd p w [x] @ q)"
  by (simp add: mset1_of_nat list_update_append1)

lemma mget_append: "r < length p \<Longrightarrow> mget (p @ q) (int r) = Some (p ! r)"
  by (simp add: mget_of_nat nth_append)

end
