(* ===== verification/Fifo.thy ===== *)
theory Fifo imports Prelude
begin

text \<open>
  The contract of a bounded first-in first-out queue, as the clients of the ring buffer
  and of the mailbox see it, and what follows from the contract alone: every interleaving
  of pushes and pops answers as the abstract list queue does.
\<close>

subsection \<open>Operation sequences and their abstract run\<close>

datatype 'a qop = Push 'a | Pop

datatype 'a qresp = Accepted | Refused | Got 'a | Empty

fun spec_step :: "nat \<Rightarrow> 'a list \<Rightarrow> 'a qop \<Rightarrow> 'a qresp \<times> 'a list" where
  "spec_step n q (Push x) = (if length q < n then (Accepted, q @ [x]) else (Refused, q))"
| "spec_step n q Pop = (case q of [] \<Rightarrow> (Empty, []) | x # q' \<Rightarrow> (Got x, q'))"

fun spec_run :: "nat \<Rightarrow> 'a list \<Rightarrow> 'a qop list \<Rightarrow> 'a qresp list \<times> 'a list" where
  "spec_run n q [] = ([], q)"
| "spec_run n q (x # xs) =
     (let (r, q') = spec_step n q x; (rs, q'') = spec_run n q' xs in (r # rs, q''))"

text \<open>The same sequence on an implementation: \<open>push\<close> and \<open>pop\<close> return \<open>None\<close> when they refuse.\<close>

fun impl_step ::
  "('s \<Rightarrow> 'a \<Rightarrow> 's option) \<Rightarrow> ('s \<Rightarrow> ('a \<times> 's) option) \<Rightarrow> 's \<Rightarrow> 'a qop \<Rightarrow> 'a qresp \<times> 's" where
  "impl_step push pop s (Push x) = (case push s x of Some s' \<Rightarrow> (Accepted, s') | None \<Rightarrow> (Refused, s))"
| "impl_step push pop s Pop = (case pop s of Some (x, s') \<Rightarrow> (Got x, s') | None \<Rightarrow> (Empty, s))"

fun impl_run ::
  "('s \<Rightarrow> 'a \<Rightarrow> 's option) \<Rightarrow> ('s \<Rightarrow> ('a \<times> 's) option) \<Rightarrow> 's \<Rightarrow> 'a qop list \<Rightarrow> 'a qresp list \<times> 's" where
  "impl_run push pop s [] = ([], s)"
| "impl_run push pop s (x # xs) =
     (let (r, s') = impl_step push pop s x; (rs, s'') = impl_run push pop s' xs in (r # rs, s''))"

subsection \<open>The contract\<close>

locale bounded_fifo =
  fixes inv :: "'s \<Rightarrow> bool"
    and contents :: "'s \<Rightarrow> 'a list"
    and cap :: "'s \<Rightarrow> nat"
    and push :: "'s \<Rightarrow> 'a \<Rightarrow> 's option"
    and pop :: "'s \<Rightarrow> ('a \<times> 's) option"
  assumes bounded: "inv s \<Longrightarrow> length (contents s) \<le> cap s"
    and push_room: "inv s \<Longrightarrow> length (contents s) < cap s \<Longrightarrow>
      \<exists>s'. push s x = Some s' \<and> inv s' \<and> contents s' = contents s @ [x] \<and> cap s' = cap s"
    and push_full: "inv s \<Longrightarrow> length (contents s) = cap s \<Longrightarrow> push s x = None"
    and pop_empty: "inv s \<Longrightarrow> contents s = [] \<Longrightarrow> pop s = None"
    and pop_first: "inv s \<Longrightarrow> contents s = x # q \<Longrightarrow>
      \<exists>s'. pop s = Some (x, s') \<and> inv s' \<and> contents s' = q \<and> cap s' = cap s"
begin

lemma step_refines:
  assumes "inv s"
  shows "case impl_step push pop s p of (r, s') \<Rightarrow>
    inv s' \<and> cap s' = cap s \<and> spec_step (cap s) (contents s) p = (r, contents s')"
proof (cases p)
  case (Push x)
  show ?thesis
  proof (cases "length (contents s) < cap s")
    case True
    then show ?thesis using push_room [OF assms True, of x] Push by auto
  next
    case False
    then have "length (contents s) = cap s" using bounded [OF assms] by simp
    then show ?thesis using push_full [OF assms, of x] Push assms by simp
  qed
next
  case Pop
  show ?thesis
  proof (cases "contents s")
    case Nil
    then show ?thesis using pop_empty [OF assms] Pop assms by simp
  next
    case (Cons x q)
    then show ?thesis using pop_first [OF assms Cons] Pop by auto
  qed
qed

lemma run_refines:
  "inv s \<Longrightarrow> case impl_run push pop s ps of (rs, s') \<Rightarrow>
    inv s' \<and> cap s' = cap s \<and> spec_run (cap s) (contents s) ps = (rs, contents s')"
proof (induction ps arbitrary: s)
  case (Cons p ps)
  obtain r s' where st: "impl_step push pop s p = (r, s')" by fastforce
  with step_refines [OF Cons.prems, of p] have
    s': "inv s'" "cap s' = cap s" "spec_step (cap s) (contents s) p = (r, contents s')" by auto
  from Cons.IH [OF s'(1)] st s' show ?case
    by (auto simp: Let_def split: prod.splits)
qed simp

end

end
