(* ===== verification/RingBuffer.thy ===== *)
theory RingBuffer imports Fifo
begin

text \<open>
  The byte ring buffer of the device drivers
  (\<open>rt-thread/components/drivers/ipc/ringbuffer.c\<close>, \<open>ringbuffer.h\<close>): two 15-bit
  indices, each with a mirror bit, over a pool of \<open>buffer_size\<close> bytes. The
  invariant \<open>rb_inv\<close> and the abstraction \<open>rb_contents\<close> (the bytes between the read and
  the write index) come after the operations; each operation is then shown to act on
  \<open>rb_contents\<close> as the queue operation it promises.
\<close>

subsection \<open>State and operations\<close>

record rt_ringbuffer =
  buffer_ptr :: "u8 list"
  read_mirror :: bool
  read_index :: u15
  write_mirror :: bool
  write_index :: u15
  buffer_size :: u16  \<comment> \<open>signed: read with \<open>sint\<close>\<close>

datatype rt_ringbuffer_state = RT_RINGBUFFER_EMPTY | RT_RINGBUFFER_FULL | RT_RINGBUFFER_HALFFULL

definition rt_ringbuffer_status :: "rt_ringbuffer \<Rightarrow> rt_ringbuffer_state" where
  "rt_ringbuffer_status rb =
     (if read_index rb = write_index rb
      then if read_mirror rb = write_mirror rb then RT_RINGBUFFER_EMPTY else RT_RINGBUFFER_FULL
      else RT_RINGBUFFER_HALFFULL)"

definition rt_ringbuffer_init :: "u8 list \<Rightarrow> u16 \<Rightarrow> rt_ringbuffer option" where
  "rt_ringbuffer_init pool sz = do {
     rt_assert (0 < sint sz);
     Some \<lparr>buffer_ptr = pool, read_mirror = False, read_index = 0,
           write_mirror = False, write_index = 0,
           buffer_size = RT_ALIGN_DOWN sz RT_ALIGN_SIZE\<rparr>
   }"

definition rt_ringbuffer_reset :: "rt_ringbuffer \<Rightarrow> rt_ringbuffer" where
  "rt_ringbuffer_reset rb =
     rb\<lparr>read_mirror := False, read_index := 0, write_mirror := False, write_index := 0\<rparr>"

definition rt_ringbuffer_get_size :: "rt_ringbuffer \<Rightarrow> u16" where
  "rt_ringbuffer_get_size rb = buffer_size rb"

definition rt_ringbuffer_data_len :: "rt_ringbuffer \<Rightarrow> u32" where
  "rt_ringbuffer_data_len rb =
     (case rt_ringbuffer_status rb of
        RT_RINGBUFFER_EMPTY \<Rightarrow> 0
      | RT_RINGBUFFER_FULL \<Rightarrow> scast (buffer_size rb)
      | RT_RINGBUFFER_HALFFULL \<Rightarrow>
          (let wi = ucast (write_index rb); ri = ucast (read_index rb)
           in if wi > ri then wi - ri else scast (buffer_size rb) - (ri - wi)))"

definition rt_ringbuffer_space_len :: "rt_ringbuffer \<Rightarrow> u32" where
  "rt_ringbuffer_space_len rb = scast (buffer_size rb) - rt_ringbuffer_data_len rb"

text \<open>\<open>buffer_size - write_index\<close> and \<open>buffer_size - read_index\<close> are computed as C \<open>int\<close>s.\<close>

definition write_room :: "rt_ringbuffer \<Rightarrow> int" where
  "write_room rb = sint (buffer_size rb) - uint (write_index rb)"

definition read_room :: "rt_ringbuffer \<Rightarrow> int" where
  "read_room rb = sint (buffer_size rb) - uint (read_index rb)"

text \<open>
  The two-part copy into the pool that \<open>rt_ringbuffer_put\<close> and
  \<open>rt_ringbuffer_put_force\<close> share once \<open>length\<close> is fixed.
\<close>

definition rb_store :: "rt_ringbuffer \<Rightarrow> u8 list \<Rightarrow> u16 \<Rightarrow> rt_ringbuffer option" where
  "rb_store rb ptr len =
     (if write_room rb > uint len then do {
        xs \<leftarrow> mread ptr 0 (uint len);
        m \<leftarrow> mwrite (buffer_ptr rb) (uint (write_index rb)) xs;
        Some (rb\<lparr>buffer_ptr := m, write_index := word_of_int (uint (write_index rb) + uint len)\<rparr>)
      } else do {
        xs \<leftarrow> mread ptr 0 (write_room rb);
        m \<leftarrow> mwrite (buffer_ptr rb) (uint (write_index rb)) xs;
        ys \<leftarrow> mread ptr (write_room rb) (uint len - write_room rb);
        m \<leftarrow> mwrite m 0 ys;
        Some (rb\<lparr>buffer_ptr := m, write_mirror := \<not> write_mirror rb,
                 write_index := word_of_int (uint len - write_room rb)\<rparr>)
      })"

definition rt_ringbuffer_put :: "rt_ringbuffer \<Rightarrow> u8 list \<Rightarrow> u16 \<Rightarrow> (u32 \<times> rt_ringbuffer) option" where
  "rt_ringbuffer_put rb ptr len =
     (let sz = ucast (rt_ringbuffer_space_len rb) :: u16 in
      if sz = 0 then Some (0, rb)
      else let len = (if sz < len then sz else len) in
        do { rb' \<leftarrow> rb_store rb ptr len; Some (ucast len, rb') })"

definition rt_ringbuffer_put_force ::
  "rt_ringbuffer \<Rightarrow> u8 list \<Rightarrow> u16 \<Rightarrow> (u32 \<times> rt_ringbuffer) option" where
  "rt_ringbuffer_put_force rb ptr len =
     (let space = ucast (rt_ringbuffer_space_len rb) :: u16;
          over = uint len > sint (buffer_size rb);
          ptr = (if over then drop (nat (uint len - sint (buffer_size rb))) ptr else ptr);
          len = (if over then buffer_size rb else len) in
      do {
        rb' \<leftarrow> rb_store rb ptr len;
        Some (ucast len,
          if len > space
          then if write_room rb > uint len then rb'\<lparr>read_index := write_index rb'\<rparr>
               else rb'\<lparr>read_mirror := (if write_index rb' \<le> read_index rb
                                        then \<not> read_mirror rb else read_mirror rb),
                        read_index := write_index rb'\<rparr>
          else rb')
      })"

definition rt_ringbuffer_get ::
  "rt_ringbuffer \<Rightarrow> u16 \<Rightarrow> (u32 \<times> u8 list \<times> rt_ringbuffer) option" where
  "rt_ringbuffer_get rb len =
     (let sz = rt_ringbuffer_data_len rb in
      if sz = 0 then Some (0, [], rb)
      else let len = (if sz < ucast len then ucast sz else len) :: u16 in
        if read_room rb > uint len then do {
          xs \<leftarrow> mread (buffer_ptr rb) (uint (read_index rb)) (uint len);
          Some (ucast len, xs, rb\<lparr>read_index := word_of_int (uint (read_index rb) + uint len)\<rparr>)
        } else do {
          xs \<leftarrow> mread (buffer_ptr rb) (uint (read_index rb)) (read_room rb);
          ys \<leftarrow> mread (buffer_ptr rb) 0 (uint len - read_room rb);
          Some (ucast len, xs @ ys,
                rb\<lparr>read_mirror := \<not> read_mirror rb,
                   read_index := word_of_int (uint len - read_room rb)\<rparr>)
        })"

text \<open>The pointer \<open>rt_ringbuffer_peak\<close> hands out is an offset into the pool.\<close>

definition rt_ringbuffer_peak :: "rt_ringbuffer \<Rightarrow> u32 \<times> nat option \<times> rt_ringbuffer" where
  "rt_ringbuffer_peak rb =
     (let sz = rt_ringbuffer_data_len rb in
      if sz = 0 then (0, None, rb)
      else if word_of_int (read_room rb) > sz
      then (sz, Some (unat (read_index rb)),
            rb\<lparr>read_index := word_of_int (uint (read_index rb) + uint sz)\<rparr>)
      else (word_of_int (read_room rb), Some (unat (read_index rb)),
            rb\<lparr>read_mirror := \<not> read_mirror rb, read_index := 0\<rparr>))"

definition rt_ringbuffer_putchar :: "rt_ringbuffer \<Rightarrow> u8 \<Rightarrow> (u32 \<times> rt_ringbuffer) option" where
  "rt_ringbuffer_putchar rb ch =
     (if rt_ringbuffer_space_len rb = 0 then Some (0, rb)
      else do {
        m \<leftarrow> mset1 (buffer_ptr rb) (uint (write_index rb)) ch;
        Some (1,
          if uint (write_index rb) = sint (buffer_size rb) - 1
          then rb\<lparr>buffer_ptr := m, write_mirror := \<not> write_mirror rb, write_index := 0\<rparr>
          else rb\<lparr>buffer_ptr := m, write_index := write_index rb + 1\<rparr>)
      })"

definition rt_ringbuffer_putchar_force :: "rt_ringbuffer \<Rightarrow> u8 \<Rightarrow> (u32 \<times> rt_ringbuffer) option" where
  "rt_ringbuffer_putchar_force rb ch =
     (let full = (rt_ringbuffer_status rb = RT_RINGBUFFER_FULL) in
      do {
        m \<leftarrow> mset1 (buffer_ptr rb) (uint (write_index rb)) ch;
        Some (1,
          if uint (write_index rb) = sint (buffer_size rb) - 1
          then let rb' = rb\<lparr>buffer_ptr := m, write_mirror := \<not> write_mirror rb, write_index := 0\<rparr>
               in if full then rb'\<lparr>read_mirror := \<not> read_mirror rb', read_index := write_index rb'\<rparr>
                  else rb'
          else let rb' = rb\<lparr>buffer_ptr := m, write_index := write_index rb + 1\<rparr>
               in if full then rb'\<lparr>read_index := write_index rb'\<rparr> else rb')
      })"

definition rt_ringbuffer_getchar :: "rt_ringbuffer \<Rightarrow> (u32 \<times> u8 option \<times> rt_ringbuffer) option" where
  "rt_ringbuffer_getchar rb =
     (if rt_ringbuffer_data_len rb = 0 then Some (0, None, rb)
      else do {
        ch \<leftarrow> mget (buffer_ptr rb) (uint (read_index rb));
        Some (1, Some ch,
          if uint (read_index rb) = sint (buffer_size rb) - 1
          then rb\<lparr>read_mirror := \<not> read_mirror rb, read_index := 0\<rparr>
          else rb\<lparr>read_index := read_index rb + 1\<rparr>)
      })"

text \<open>
  \<open>rt_ringbuffer_create\<close>: the results of the two \<open>rt_malloc\<close> calls are arguments (the
  header block and the pool block with its uninitialised bytes); the second component
  of the result is what is given back with \<open>rt_free\<close>.
\<close>

definition rt_ringbuffer_create ::
  "u16 \<Rightarrow> 'p option \<Rightarrow> (u16 \<Rightarrow> u8 list option) \<Rightarrow> (('p \<times> rt_ringbuffer) option \<times> 'p list) option" where
  "rt_ringbuffer_create sz hdr pool = do {
     rt_assert (sz > 0);
     let sz = RT_ALIGN_DOWN sz RT_ALIGN_SIZE;
     case hdr of
       None \<Rightarrow> Some (None, [])
     | Some p \<Rightarrow>
        (case pool sz of
           None \<Rightarrow> Some (None, [p])
         | Some m \<Rightarrow> do { rb \<leftarrow> rt_ringbuffer_init m sz; Some (Some (p, rb), []) })
   }"

subsection \<open>Invariant and abstraction\<close>

definition rb_size :: "rt_ringbuffer \<Rightarrow> nat" where
  "rb_size rb = nat (sint (buffer_size rb))"

definition rb_pool :: "rt_ringbuffer \<Rightarrow> u8 list" where
  "rb_pool rb = take (rb_size rb) (buffer_ptr rb)"

definition rb_len :: "rt_ringbuffer \<Rightarrow> nat" where
  "rb_len rb =
     (if read_mirror rb = write_mirror rb then unat (write_index rb) - unat (read_index rb)
      else rb_size rb - (unat (read_index rb) - unat (write_index rb)))"

definition rb_contents :: "rt_ringbuffer \<Rightarrow> u8 list" where
  "rb_contents rb = ring_seg (rb_pool rb) (unat (read_index rb)) (rb_len rb)"

definition rb_inv :: "rt_ringbuffer \<Rightarrow> bool" where
  "rb_inv rb \<longleftrightarrow>
     0 < sint (buffer_size rb) \<and> rb_size rb \<le> length (buffer_ptr rb) \<and>
     unat (read_index rb) < rb_size rb \<and> unat (write_index rb) < rb_size rb \<and>
     (if read_mirror rb = write_mirror rb then read_index rb \<le> write_index rb
      else write_index rb \<le> read_index rb)"

lemma rb_size_bound: "rb_size rb < 32768"
  using sint_u16_bounds [of "buffer_size rb"] by (simp add: rb_size_def)

lemma sint_eq_rb_size: "rb_inv rb \<Longrightarrow> sint (buffer_size rb) = int (rb_size rb)"
  by (simp add: rb_inv_def rb_size_def)

lemma length_rb_pool [simp]: "rb_inv rb \<Longrightarrow> length (rb_pool rb) = rb_size rb"
  by (simp add: rb_pool_def rb_inv_def)

lemma length_rb_contents [simp]: "length (rb_contents rb) = rb_len rb"
  by (simp add: rb_contents_def)

lemma rb_len_le: "rb_inv rb \<Longrightarrow> rb_len rb \<le> rb_size rb"
  by (auto simp: rb_inv_def rb_len_def)

lemma unat_scast_size: "rb_inv rb \<Longrightarrow> unat (scast (buffer_size rb) :: u32) = rb_size rb"
proof -
  assume inv: "rb_inv rb"
  have "(scast (buffer_size rb) :: u32) = word_of_int (int (rb_size rb))"
    by (metis scast_eq sint_eq_rb_size inv)
  then have "(scast (buffer_size rb) :: u32) = of_nat (rb_size rb)" by simp
  then show ?thesis
    using rb_size_bound [of rb] by (simp add: unsigned_of_nat take_bit_nat_eq_self)
qed

lemma unat_ucast_index [simp]: "unat (ucast (i :: u15) :: u32) = unat i"
proof -
  have "unat i < 2 ^ 15" using unsigned_less [where 'a=nat, of i] by simp
  then show ?thesis by (simp add: unsigned_ucast_eq take_bit_nat_eq_self)
qed

lemma unat_data_len:
  assumes inv: "rb_inv rb"
  shows "unat (rt_ringbuffer_data_len rb) = rb_len rb"
proof (cases "read_index rb = write_index rb")
  case True
  then show ?thesis
    using inv unat_scast_size [OF inv]
    by (simp add: rt_ringbuffer_data_len_def rt_ringbuffer_status_def rb_len_def)
next
  case False
  let ?wi = "ucast (write_index rb) :: u32" and ?ri = "ucast (read_index rb) :: u32"
  have le: "?ri < ?wi \<longleftrightarrow> unat (read_index rb) < unat (write_index rb)"
    by (simp add: word_less_nat_alt)
  have ne: "unat (read_index rb) \<noteq> unat (write_index rb)"
    using False unsigned_word_eqI by blast
  have ord: "read_mirror rb = write_mirror rb \<longleftrightarrow> unat (read_index rb) < unat (write_index rb)"
    using inv ne by (auto simp: rb_inv_def word_le_nat_alt split: if_splits)
  have bounds: "unat (read_index rb) < rb_size rb" "unat (write_index rb) < rb_size rb"
    using inv by (auto simp: rb_inv_def)
  show ?thesis
  proof (cases "unat (read_index rb) < unat (write_index rb)")
    case True
    then have "unat (?wi - ?ri) = unat (write_index rb) - unat (read_index rb)"
      by (simp add: unat_sub word_le_nat_alt)
    with True False show ?thesis
      by (simp add: rt_ringbuffer_data_len_def rt_ringbuffer_status_def rb_len_def Let_def le ord)
  next
    case F: False
    then have "?wi \<le> ?ri" by (simp add: word_le_nat_alt)
    then have d: "unat (?ri - ?wi) = unat (read_index rb) - unat (write_index rb)"
      by (simp add: unat_sub)
    then have "?ri - ?wi \<le> scast (buffer_size rb)"
      using bounds by (simp add: word_le_nat_alt unat_scast_size [OF inv])
    then have "unat (scast (buffer_size rb) - (?ri - ?wi)) =
        rb_size rb - (unat (read_index rb) - unat (write_index rb))"
      by (simp add: unat_sub unat_scast_size [OF inv] d)
    with F False show ?thesis
      by (simp add: rt_ringbuffer_data_len_def rt_ringbuffer_status_def rb_len_def Let_def le ord)
  qed
qed

lemma unat_space_len:
  assumes inv: "rb_inv rb"
  shows "unat (rt_ringbuffer_space_len rb) = rb_size rb - rb_len rb"
proof -
  have "rt_ringbuffer_data_len rb \<le> scast (buffer_size rb)"
    using rb_len_le [OF inv] by (simp add: word_le_nat_alt unat_data_len inv unat_scast_size)
  then show ?thesis
    by (simp add: rt_ringbuffer_space_len_def unat_sub unat_data_len inv unat_scast_size)
qed

text \<open>The write index is where the contents end.\<close>

lemma write_index_eq:
  assumes inv: "rb_inv rb"
  shows "unat (write_index rb) = (unat (read_index rb) + rb_len rb) mod rb_size rb"
proof (cases "read_mirror rb = write_mirror rb")
  case True
  with inv show ?thesis by (simp add: rb_inv_def rb_len_def word_le_nat_alt)
next
  case False
  with inv have "unat (read_index rb) + rb_len rb = unat (write_index rb) + rb_size rb"
    by (simp add: rb_inv_def rb_len_def word_le_nat_alt)
  with inv show ?thesis by (simp add: rb_inv_def)
qed

subsection \<open>Storing and fetching\<close>

text \<open>
  Both copying branches of a store are one ring update, and the write side of the state
  moves on by the stored length.
\<close>

definition rb_tail :: "rt_ringbuffer \<Rightarrow> u8 list" where
  "rb_tail rb = drop (rb_size rb) (buffer_ptr rb)"

lemma buffer_split: "buffer_ptr rb = rb_pool rb @ rb_tail rb"
  by (simp add: rb_pool_def rb_tail_def)

definition rb_put_state :: "rt_ringbuffer \<Rightarrow> u8 list \<Rightarrow> rt_ringbuffer" where
  "rb_put_state rb xs =
     (let w = unat (write_index rb) + length xs in
      rb\<lparr>buffer_ptr := ring_upd (rb_pool rb) (unat (write_index rb)) xs @ rb_tail rb,
         write_mirror := (if w < rb_size rb then write_mirror rb else \<not> write_mirror rb),
         write_index := of_nat (w mod rb_size rb)\<rparr>)"

definition rb_get_state :: "rt_ringbuffer \<Rightarrow> nat \<Rightarrow> rt_ringbuffer" where
  "rb_get_state rb k =
     (let r = unat (read_index rb) + k in
      rb\<lparr>read_mirror := (if r < rb_size rb then read_mirror rb else \<not> read_mirror rb),
         read_index := of_nat (r mod rb_size rb)\<rparr>)"

lemma write_room_eq:
  assumes inv: "rb_inv rb"
  shows "write_room rb = int (rb_size rb - unat (write_index rb))"
proof -
  have "unat (write_index rb) \<le> rb_size rb" using inv by (simp add: rb_inv_def)
  then show ?thesis by (simp add: write_room_def sint_eq_rb_size [OF inv] of_nat_diff)
qed

lemma read_room_eq:
  assumes inv: "rb_inv rb"
  shows "read_room rb = int (rb_size rb - unat (read_index rb))"
proof -
  have "unat (read_index rb) \<le> rb_size rb" using inv by (simp add: rb_inv_def)
  then show ?thesis by (simp add: read_room_def sint_eq_rb_size [OF inv] of_nat_diff)
qed

lemma rb_store_eq:
  assumes inv: "rb_inv rb" and len: "unat len \<le> rb_size rb" "unat len \<le> length ptr"
  shows "rb_store rb ptr len = Some (rb_put_state rb (take (unat len) ptr))"
proof -
  let ?L = "unat len" and ?W = "unat (write_index rb)" and ?n = "rb_size rb"
  have W: "?W < ?n" using inv by (simp add: rb_inv_def)
  have "int ?L < write_room rb \<longleftrightarrow> int ?L < int (?n - ?W)"
    by (simp only: write_room_eq [OF inv])
  then have cond: "int ?L < write_room rb \<longleftrightarrow> ?W + ?L < ?n"
    using W by (simp only: of_nat_less_iff) auto
  show ?thesis
  proof (cases "?W + ?L < ?n")
    case True
    have "mread ptr 0 (int ?L) = Some (take ?L ptr)"
      using len mread_of_nat [of 0 ?L ptr] by simp
    moreover have "mwrite (buffer_ptr rb) (int ?W) (take ?L ptr)
        = Some (ring_upd (rb_pool rb) ?W (take ?L ptr) @ rb_tail rb)"
      unfolding buffer_split using True len inv by (intro mwrite_append) simp
    moreover have "word_of_int (int ?W + int ?L) = (of_nat (?W + ?L) :: u15)"
      by (metis of_nat_add of_int_of_nat_eq)
    ultimately show ?thesis
      using True len by (simp add: rb_store_def rb_put_state_def cond)
  next
    case False
    let ?k = "?n - ?W"
    have nc: "\<not> uint len < write_room rb" using False cond by simp
    have k: "?k \<le> ?L" using False by simp
    have "mread ptr 0 (int ?k) = Some (take ?k ptr)"
      using len k mread_of_nat [of 0 ?k ptr] by simp
    moreover have "mwrite (buffer_ptr rb) (int ?W) (take ?k ptr)
        = Some (ring_upd (rb_pool rb) ?W (take ?k ptr) @ rb_tail rb)"
      unfolding buffer_split using W k len inv by (intro mwrite_append) simp
    moreover have "mread ptr (int ?k) (int ?L - int ?k) = Some (drop ?k (take ?L ptr))"
      using k len mread_of_nat [of ?k "?L - ?k" ptr] by (simp add: drop_take of_nat_diff)
    moreover have "mwrite (ring_upd (rb_pool rb) ?W (take ?k ptr) @ rb_tail rb) 0 (drop ?k (take ?L ptr))
        = Some (ring_upd (rb_pool rb) ?W (take ?L ptr) @ rb_tail rb)"
    proof -
      have "ring_upd (rb_pool rb) ?W (take ?L ptr)
          = ring_upd (ring_upd (rb_pool rb) ?W (take ?k ptr)) 0 (drop ?k (take ?L ptr))"
        using ring_upd_split [of ?W "rb_pool rb" "take ?L ptr"] W k len inv
        by (simp add: min_absorb1)
      then show ?thesis
        using mwrite_append [of 0 "drop ?k (take ?L ptr)" "ring_upd (rb_pool rb) ?W (take ?k ptr)" "rb_tail rb"]
          W k len inv by simp
    qed
    moreover have "(?W + ?L) mod ?n = ?L - ?k"
      using False W len by (simp add: mod_if add.commute)
    then have "word_of_int (int ?L - int ?k) = (of_nat ((?W + ?L) mod ?n) :: u15)"
      using k by (metis of_nat_diff of_int_of_nat_eq)
    ultimately show ?thesis
      using False len W unfolding rb_store_def if_not_P [OF nc]
      by (simp add: rb_put_state_def write_room_eq inv)
  qed
qed

lemma unat_of_nat_u15 [simp]: "rb_inv rb \<Longrightarrow> unat (of_nat (k mod rb_size rb) :: u15) = k mod rb_size rb"
proof -
  assume "rb_inv rb"
  then have "0 < rb_size rb" by (auto simp: rb_inv_def)
  then have "k mod rb_size rb < 2 ^ 15"
    using rb_size_bound [of rb] by (rule_tac less_trans [OF mod_less_divisor]) simp_all
  then show ?thesis by (simp add: unsigned_of_nat take_bit_nat_eq_self)
qed

lemma rb_size_put_state [simp]: "rb_size (rb_put_state rb xs) = rb_size rb"
  by (simp add: rb_put_state_def rb_size_def Let_def)

lemma rb_size_get_state [simp]: "rb_size (rb_get_state rb k) = rb_size rb"
  by (simp add: rb_get_state_def rb_size_def Let_def)

lemma rb_pool_put_state [simp]:
  "rb_inv rb \<Longrightarrow> rb_pool (rb_put_state rb xs) = ring_upd (rb_pool rb) (unat (write_index rb)) xs"
  using length_rb_pool [of rb]
  by (simp add: rb_pool_def [of "rb_put_state rb xs"]) (simp add: rb_put_state_def Let_def)

lemma rb_inv_facts:
  assumes "rb_inv rb"
  shows "0 < rb_size rb" "unat (read_index rb) < rb_size rb" "unat (write_index rb) < rb_size rb"
    "sint (buffer_size rb) = int (rb_size rb)" "rb_size rb \<le> length (buffer_ptr rb)"
    "read_mirror rb = write_mirror rb \<Longrightarrow> unat (read_index rb) \<le> unat (write_index rb)"
    "read_mirror rb \<noteq> write_mirror rb \<Longrightarrow> unat (write_index rb) \<le> unat (read_index rb)"
  using assms by (auto simp: rb_inv_def rb_size_def word_le_nat_alt split: if_splits)

lemma rb_invI:
  assumes "0 < rb_size rb" "rb_size rb \<le> length (buffer_ptr rb)"
    "unat (read_index rb) < rb_size rb" "unat (write_index rb) < rb_size rb"
    "read_mirror rb = write_mirror rb \<Longrightarrow> unat (read_index rb) \<le> unat (write_index rb)"
    "read_mirror rb \<noteq> write_mirror rb \<Longrightarrow> unat (write_index rb) \<le> unat (read_index rb)"
  shows "rb_inv rb"
  using assms by (auto simp: rb_inv_def rb_size_def word_le_nat_alt)

lemma rb_len_sum:
  assumes "rb_inv rb"
  shows "rb_len rb + unat (read_index rb) =
    unat (write_index rb) + (if read_mirror rb = write_mirror rb then 0 else rb_size rb)"
  using rb_inv_facts [OF assms] by (auto simp: rb_len_def)

text \<open>What a store that fits, and a fetch, do to the abstract queue.\<close>

lemma rb_put_state_fits:
  assumes inv: "rb_inv rb" and fits: "rb_len rb + length xs \<le> rb_size rb"
  shows "rb_inv (rb_put_state rb xs)" "rb_len (rb_put_state rb xs) = rb_len rb + length xs"
    "rb_contents (rb_put_state rb xs) = rb_contents rb @ xs"
proof -
  note f = rb_inv_facts [OF inv]
  let ?w = "unat (write_index rb) + length xs" and ?s = "rb_put_state rb xs"
  have buf: "length (buffer_ptr ?s) = length (buffer_ptr rb)"
    using f(5) by (simp add: rb_put_state_def Let_def rb_tail_def inv)
  have w: "unat (write_index ?s) = (if ?w < rb_size rb then ?w else ?w - rb_size rb)"
    using fits f(2,3) rb_len_le [OF inv] unat_of_nat_u15 [OF inv, of ?w]
    by (auto simp: rb_put_state_def Let_def mod_if)
  have r: "read_index ?s = read_index rb" "read_mirror ?s = read_mirror rb"
    "write_mirror ?s = (if ?w < rb_size rb then write_mirror rb else \<not> write_mirror rb)"
    by (simp_all add: rb_put_state_def Let_def)
  have cases: "rb_len rb = (if read_mirror rb = write_mirror rb
      then unat (write_index rb) - unat (read_index rb)
      else rb_size rb - (unat (read_index rb) - unat (write_index rb)))"
    by (simp add: rb_len_def)
  show I: "rb_inv ?s"
    using f fits cases buf
    by (intro rb_invI) (auto simp: w r split: if_splits)
  show L: "rb_len ?s = rb_len rb + length xs"
    using f fits cases by (auto simp: rb_len_def w r split: if_splits)
  have "rb_contents ?s = ring_seg (ring_upd (rb_pool rb) (unat (write_index rb)) xs)
      (unat (read_index rb)) (rb_len rb + length xs)"
    by (simp add: rb_contents_def L r(1) inv)
  also have "ring_upd (rb_pool rb) (unat (write_index rb)) xs
      = ring_upd (rb_pool rb) (unat (read_index rb) + rb_len rb) xs"
    by (metis inv length_rb_pool ring_upd_mod write_index_eq)
  also have "ring_seg \<dots> (unat (read_index rb)) (rb_len rb + length xs) = rb_contents rb @ xs"
    using fits inv by (simp add: ring_seg_ring_upd rb_contents_def)
  finally show "rb_contents ?s = rb_contents rb @ xs" .
qed

lemma rb_get_state_fits:
  assumes inv: "rb_inv rb" and le: "k \<le> rb_len rb"
  shows "rb_inv (rb_get_state rb k)" "rb_len (rb_get_state rb k) = rb_len rb - k"
    "rb_contents (rb_get_state rb k) = drop k (rb_contents rb)"
proof -
  note f = rb_inv_facts [OF inv]
  let ?r = "unat (read_index rb) + k" and ?s = "rb_get_state rb k"
  have r': "unat (read_index ?s) = ?r mod rb_size rb"
    using unat_of_nat_u15 [OF inv, of ?r] by (simp add: rb_get_state_def Let_def)
  have r: "unat (read_index ?s) = (if ?r < rb_size rb then ?r else ?r - rb_size rb)"
    using le f(2,3) rb_len_le [OF inv] by (auto simp: r' mod_if)
  have w: "write_index ?s = write_index rb" "write_mirror ?s = write_mirror rb"
    "read_mirror ?s = (if ?r < rb_size rb then read_mirror rb else \<not> read_mirror rb)"
    "buffer_ptr ?s = buffer_ptr rb" "rb_pool ?s = rb_pool rb"
    by (simp_all add: rb_get_state_def Let_def rb_pool_def rb_size_def)
  have cases: "rb_len rb = (if read_mirror rb = write_mirror rb
      then unat (write_index rb) - unat (read_index rb)
      else rb_size rb - (unat (read_index rb) - unat (write_index rb)))"
    by (simp add: rb_len_def)
  show "rb_inv ?s"
    using f le cases by (intro rb_invI) (auto simp: w r split: if_splits)
  show L: "rb_len ?s = rb_len rb - k"
    using f le cases by (auto simp: rb_len_def w r split: if_splits)
  show "rb_contents ?s = drop k (rb_contents rb)"
    using le inv by (simp add: rb_contents_def L r' w drop_ring_seg)
      (metis inv length_rb_pool ring_seg_mod)
qed

subsection \<open>The operations on the abstract queue\<close>

lemma of_nat_eq_word: "unat w = n \<Longrightarrow> of_nat n = w"
  by auto

lemma rb_len_contents_empty: "rb_inv rb \<Longrightarrow> rt_ringbuffer_data_len rb = 0 \<longleftrightarrow> rb_len rb = 0"
  using unat_data_len [of rb] by (metis unsigned_0 unsigned_word_eqI)

lemma rb_init_inv:
  assumes "rt_ringbuffer_init pool sz = Some rb" "4 \<le> sint sz" "sint sz \<le> int (length pool)"
  shows "rb_inv rb" "rb_contents rb = []" "rb_size rb = 4 * (unat sz div 4)"
proof -
  have rb: "rb = \<lparr>buffer_ptr = pool, read_mirror = False, read_index = 0,
      write_mirror = False, write_index = 0, buffer_size = RT_ALIGN_DOWN sz RT_ALIGN_SIZE\<rparr>"
    using assms(1) by (auto simp: rt_ringbuffer_init_def split: if_splits simp: Option.bind_eq_Some_conv)
  have sz: "4 \<le> unat sz" "unat sz \<le> length pool" "unat sz < 32768"
    using sint_u16_nonneg [of sz] assms(2,3) by simp_all
  have al: "unat (RT_ALIGN_DOWN sz RT_ALIGN_SIZE) = 4 * (unat sz div 4)"
    by (rule unat_RT_ALIGN_DOWN) simp
  have "4 * (unat sz div 4) \<le> unat sz" by simp
  then have "sint (RT_ALIGN_DOWN sz RT_ALIGN_SIZE) = int (4 * (unat sz div 4))"
    using sint_u16_small [of "RT_ALIGN_DOWN sz RT_ALIGN_SIZE"] sz by (simp only: al)
  then show n: "rb_size rb = 4 * (unat sz div 4)" by (simp add: rb rb_size_def)
  show "rb_inv rb"
    using sz by (intro rb_invI; (simp only: n)?) (simp_all add: rb)
  show "rb_contents rb = []"
    by (simp add: rb_contents_def rb_len_def rb)
qed

lemma rt_ringbuffer_put_eq:
  assumes inv: "rb_inv rb" and ptr: "unat len \<le> length ptr"
  shows "let k = min (unat len) (rb_size rb - rb_len rb) in
    rt_ringbuffer_put rb ptr len = Some (of_nat k, rb_put_state rb (take k ptr))"
proof -
  let ?s = "ucast (rt_ringbuffer_space_len rb) :: u16"
  let ?l = "if ?s < len then ?s else len"
  have s: "unat ?s = rb_size rb - rb_len rb"
    using rb_size_bound [of rb] unat_space_len [OF inv]
    by (simp add: unsigned_ucast_eq take_bit_nat_eq_self)
  have l: "unat ?l = min (unat len) (rb_size rb - rb_len rb)"
    using s by (auto simp: word_less_nat_alt)
  show ?thesis
  proof (cases "?s = 0")
    case True
    then have "rb_size rb - rb_len rb = 0" using s by simp
    moreover have "rb_put_state rb [] = rb"
    proof -
      have "unat (write_index rb) < rb_size rb" using inv by (simp add: rb_inv_def)
      then show ?thesis
        by (simp add: rb_put_state_def Let_def flip: buffer_split)
    qed
    ultimately show ?thesis using True by (simp add: rt_ringbuffer_put_def Let_def)
  next
    case False
    have "rb_store rb ptr ?l = Some (rb_put_state rb (take (unat ?l) ptr))"
      using ptr l by (intro rb_store_eq inv) auto
    moreover have "(ucast ?l :: u32) = of_nat (unat ?l)" by simp
    ultimately show ?thesis
      using False by (simp only: rt_ringbuffer_put_def Let_def l if_False bind.bind_lunit)
  qed
qed

lemma rb_get_state_0 [simp]: "rb_inv rb \<Longrightarrow> rb_get_state rb 0 = rb"
  by (simp add: rb_get_state_def Let_def rb_inv_facts(2))

lemma buffer_read:
  "rb_inv rb \<Longrightarrow> r + k \<le> rb_size rb \<Longrightarrow>
   mread (buffer_ptr rb) (int r) (int k) = Some (ring_seg (rb_pool rb) r k)"
  unfolding buffer_split by (rule mread_append) simp

lemma rt_ringbuffer_get_eq:
  assumes inv: "rb_inv rb"
  shows "let k = min (unat len) (rb_len rb) in
    rt_ringbuffer_get rb len = Some (of_nat k, take k (rb_contents rb), rb_get_state rb k)"
proof -
  note f = rb_inv_facts [OF inv]
  let ?sz = "rt_ringbuffer_data_len rb" and ?R = "unat (read_index rb)" and ?n = "rb_size rb"
  have sz: "unat ?sz = rb_len rb" by (rule unat_data_len [OF inv])
  show ?thesis
  proof (cases "?sz = 0")
    case True
    then have "rb_len rb = 0" using sz by simp
    with True show ?thesis by (simp add: rt_ringbuffer_get_def Let_def inv rb_contents_def)
  next
    case False
    define l where "l = (if ?sz < ucast len then ucast ?sz else len)"
    have ulen: "take_bit 32 (unat len) = unat len"
      using unsigned_less [where 'a=nat, of len] by (simp add: take_bit_nat_eq_self)
    have l: "unat l = min (unat len) (rb_len rb)"
      using rb_len_le [OF inv] rb_size_bound [of rb] sz
      by (auto simp: l_def word_less_nat_alt ulen unsigned_ucast_eq take_bit_nat_eq_self)
    then have le: "unat l \<le> rb_len rb" "unat l \<le> ?n"
      using rb_len_le [OF inv] by auto
    have "int (unat l) < read_room rb \<longleftrightarrow> int (unat l) < int (?n - ?R)"
      by (simp only: read_room_eq [OF inv])
    then have cond: "int (unat l) < read_room rb \<longleftrightarrow> ?R + unat l < ?n"
      using f(2) by (simp only: of_nat_less_iff) auto
    have body: "rt_ringbuffer_get rb len =
       (if read_room rb > uint l then do {
          xs \<leftarrow> mread (buffer_ptr rb) (uint (read_index rb)) (uint l);
          Some (ucast l, xs, rb\<lparr>read_index := word_of_int (uint (read_index rb) + uint l)\<rparr>)
        } else do {
          xs \<leftarrow> mread (buffer_ptr rb) (uint (read_index rb)) (read_room rb);
          ys \<leftarrow> mread (buffer_ptr rb) 0 (uint l - read_room rb);
          Some (ucast l, xs @ ys,
                rb\<lparr>read_mirror := \<not> read_mirror rb,
                   read_index := word_of_int (uint l - read_room rb)\<rparr>)
        })"
      using False by (simp only: rt_ringbuffer_get_def Let_def if_False l_def)
    have seg: "take (unat l) (rb_contents rb) = ring_seg (rb_pool rb) ?R (unat l)"
      using le by (simp add: rb_contents_def take_ring_seg)
    have "rt_ringbuffer_get rb len =
      Some (ucast l, take (unat l) (rb_contents rb), rb_get_state rb (unat l))"
    proof (cases "?R + unat l < ?n")
      case True
      then have "mread (buffer_ptr rb) (int ?R) (int (unat l)) = Some (ring_seg (rb_pool rb) ?R (unat l))"
        using inv by (intro buffer_read) auto
      with True show ?thesis
        by (simp add: body cond rb_get_state_def seg)
    next
      case nc: False
      let ?k = "?n - ?R"
      have k: "?k \<le> unat l" "unat l - ?k \<le> ?R" using nc le by auto
      have "mread (buffer_ptr rb) (int ?R) (int ?k) = Some (ring_seg (rb_pool rb) ?R ?k)"
        using inv f(2) by (intro buffer_read) auto
      moreover have "mread (buffer_ptr rb) (int 0) (int (unat l - ?k))
          = Some (ring_seg (rb_pool rb) 0 (unat l - ?k))"
        using inv f(2) k by (intro buffer_read) auto
      moreover have "ring_seg (rb_pool rb) ?R (unat l)
          = ring_seg (rb_pool rb) ?R ?k @ ring_seg (rb_pool rb) 0 (unat l - ?k)"
        using ring_seg_append [of "rb_pool rb" ?R ?k "unat l - ?k"] k f(2)
          ring_seg_mod [of "rb_pool rb" ?n "unat l - ?k"] inv by simp
      moreover have "(?R + unat l) mod ?n = unat l - ?k"
        using nc le f(2) by (simp add: mod_if add.commute)
      ultimately show ?thesis
        using nc k by (simp add: body cond read_room_eq inv rb_get_state_def seg of_nat_diff)
    qed
    then show ?thesis by (simp only: l Let_def flip: word_of_nat_unat)
  qed
qed

lemma rt_ringbuffer_putchar_eq:
  assumes inv: "rb_inv rb"
  shows "rt_ringbuffer_putchar rb ch =
    (if rb_len rb < rb_size rb then Some (1, rb_put_state rb [ch]) else Some (0, rb))"
proof -
  note f = rb_inv_facts [OF inv]
  have z: "rt_ringbuffer_space_len rb = 0 \<longleftrightarrow> \<not> rb_len rb < rb_size rb"
    using unat_space_len [OF inv] rb_len_le [OF inv] by (metis diff_is_0_eq leD leI unsigned_0 unsigned_word_eqI)
  have "mset1 (buffer_ptr rb) (int (unat (write_index rb))) ch
      = Some (ring_upd (rb_pool rb) (unat (write_index rb)) [ch] @ rb_tail rb)"
    unfolding buffer_split using f(3) inv by (intro mset1_append) simp
  moreover have "int (unat (write_index rb)) = sint (buffer_size rb) - 1
      \<longleftrightarrow> \<not> Suc (unat (write_index rb)) < rb_size rb"
    using f(3,4) by auto
  moreover have "Suc (unat (write_index rb)) mod rb_size rb
      = (if Suc (unat (write_index rb)) < rb_size rb then Suc (unat (write_index rb)) else 0)"
    using f(3) by (auto simp: mod_Suc)
  ultimately show ?thesis
    using f(3) by (auto simp: rt_ringbuffer_putchar_def z rb_put_state_def Let_def add.commute simp del: ring_upd.simps)
qed

lemma rt_ringbuffer_getchar_eq:
  assumes inv: "rb_inv rb"
  shows "rt_ringbuffer_getchar rb =
    (case rb_contents rb of [] \<Rightarrow> Some (0, None, rb)
     | x # q \<Rightarrow> Some (1, Some x, rb_get_state rb 1))"
proof -
  note f = rb_inv_facts [OF inv]
  have z: "rt_ringbuffer_data_len rb = 0 \<longleftrightarrow> rb_contents rb = []"
    using rb_len_contents_empty [OF inv] length_rb_contents [of rb] by (metis length_0_conv)
  have hd: "x = rb_pool rb ! unat (read_index rb)" if "rb_contents rb = x # q" for x q
  proof -
    have "0 < rb_len rb" using that length_rb_contents [of rb] by simp
    then have "rb_contents rb ! 0 = rb_pool rb ! unat (read_index rb)"
      using f(2) inv by (simp add: rb_contents_def)
    with that show ?thesis by simp
  qed
  have "mget (buffer_ptr rb) (int (unat (read_index rb))) = Some (rb_pool rb ! unat (read_index rb))"
    unfolding buffer_split using f(2) inv by (intro mget_append) simp
  moreover have "int (unat (read_index rb)) = sint (buffer_size rb) - 1
      \<longleftrightarrow> \<not> Suc (unat (read_index rb)) < rb_size rb"
    using f(2,4) by auto
  moreover have "Suc (unat (read_index rb)) mod rb_size rb
      = (if Suc (unat (read_index rb)) < rb_size rb then Suc (unat (read_index rb)) else 0)"
    using f(2) by (auto simp: mod_Suc)
  ultimately show ?thesis
    using hd by (auto simp: rt_ringbuffer_getchar_def z rb_get_state_def Let_def add.commute split: list.splits)
qed

text \<open>The forcing writers: past the free space the oldest bytes go and the buffer is full.\<close>

definition rb_force_state :: "rt_ringbuffer \<Rightarrow> u8 list \<Rightarrow> rt_ringbuffer" where
  "rb_force_state rb xs =
     (let s = rb_put_state rb xs in
      if rb_size rb < rb_len rb + length xs
      then s\<lparr>read_index := write_index s, read_mirror := \<not> write_mirror s\<rparr> else s)"

lemma rb_force_state_correct:
  assumes inv: "rb_inv rb" and len: "length xs \<le> rb_size rb"
  shows "rb_inv (rb_force_state rb xs)" "rb_size (rb_force_state rb xs) = rb_size rb"
    "rb_contents (rb_force_state rb xs) =
      drop (rb_len rb + length xs - rb_size rb) (rb_contents rb @ xs)"
proof -
  note f = rb_inv_facts [OF inv]
  let ?s = "rb_force_state rb xs" and ?n = "rb_size rb"
  have "rb_inv ?s \<and> rb_size ?s = ?n \<and>
     rb_contents ?s = drop (rb_len rb + length xs - ?n) (rb_contents rb @ xs)"
  proof (cases "?n < rb_len rb + length xs")
    case False
    then show ?thesis
      using rb_put_state_fits [OF inv, of xs] by (simp add: rb_force_state_def Let_def)
  next
    case True
    let ?w = "(unat (write_index rb) + length xs) mod ?n"
    have size_s: "rb_size ?s = ?n"
      using True by (simp add: rb_force_state_def rb_put_state_def Let_def rb_size_def)
    have idx: "unat (read_index ?s) = ?w" "unat (write_index ?s) = ?w"
      "read_mirror ?s \<noteq> write_mirror ?s"
      using True unat_of_nat_u15 [OF inv] by (simp_all add: rb_force_state_def rb_put_state_def Let_def)
    have pool: "rb_pool ?s = ring_upd (rb_pool rb) (unat (write_index rb)) xs"
      using True rb_pool_put_state [OF inv, of xs]
      by (simp add: rb_force_state_def Let_def rb_pool_def rb_size_def)
    have "length (buffer_ptr ?s) = length (buffer_ptr rb)"
      using True f(5) by (simp add: rb_force_state_def rb_put_state_def Let_def rb_tail_def inv)
    then have "rb_inv ?s"
      using f idx size_s by (intro rb_invI) simp_all
    moreover have "rb_len ?s = ?n"
      using idx size_s by (simp add: rb_len_def)
    then have "rb_contents ?s = ring_seg (ring_upd (rb_pool rb) (unat (write_index rb)) xs) ?w ?n"
      by (simp add: rb_contents_def idx pool)
    moreover have "\<dots> = ring_seg (ring_upd (rb_pool rb) (unat (read_index rb) + rb_len rb) xs)
        (unat (read_index rb) + rb_len rb + length xs) ?n"
    proof -
      have "?w = (unat (read_index rb) + rb_len rb + length xs) mod ?n"
        by (simp add: write_index_eq [OF inv] mod_add_left_eq)
      moreover have "ring_upd (rb_pool rb) (unat (write_index rb)) xs
          = ring_upd (rb_pool rb) (unat (read_index rb) + rb_len rb) xs"
        by (metis inv length_rb_pool ring_upd_mod write_index_eq)
      ultimately show ?thesis
        by (metis inv length_ring_upd length_rb_pool ring_seg_mod)
    qed
    moreover have "\<dots> = drop (rb_len rb + length xs - ?n) (rb_contents rb @ xs)"
      using ring_seg_overwrite [of "rb_len rb" "rb_pool rb" xs "unat (read_index rb)"]
        True len rb_len_le [OF inv] inv by (simp add: rb_contents_def)
    ultimately show ?thesis using size_s by simp
  qed
  then show "rb_inv ?s" "rb_size ?s = ?n"
    "rb_contents ?s = drop (rb_len rb + length xs - ?n) (rb_contents rb @ xs)" by auto
qed

lemma rt_ringbuffer_put_force_eq:
  assumes inv: "rb_inv rb" and ptr: "unat len \<le> length ptr"
  shows "let xs = drop (unat len - rb_size rb) (take (unat len) ptr) in
    rt_ringbuffer_put_force rb ptr len = Some (of_nat (length xs), rb_force_state rb xs)"
proof -
  note f = rb_inv_facts [OF inv]
  let ?n = "rb_size rb" and ?W = "unat (write_index rb)" and ?R = "unat (read_index rb)"
  define over where "over \<longleftrightarrow> uint len > sint (buffer_size rb)"
  define p where "p = (if over then drop (nat (uint len - sint (buffer_size rb))) ptr else ptr)"
  define l where "l = (if over then buffer_size rb else len)"
  define xs where "xs = drop (unat len - ?n) (take (unat len) ptr)"
  have ov: "over \<longleftrightarrow> ?n < unat len" by (simp add: over_def f(4))
  have usz: "unat (buffer_size rb) = ?n"
    using sint_u16_nonneg [of "buffer_size rb"] f(4) by simp
  have l: "unat l = min (unat len) ?n" by (auto simp: l_def ov usz)
  have pl: "take (unat l) p = xs" "unat l \<le> length p"
    using ptr by (auto simp: l_def p_def xs_def ov usz f(4) take_drop nat_diff_distrib' min_def)
  have lx: "length xs = unat l" using ptr l by (simp add: xs_def min_def)
  define space where "space = (ucast (rt_ringbuffer_space_len rb) :: u16)"
  have s: "unat space = ?n - rb_len rb"
    using rb_size_bound [of rb] unat_space_len [OF inv]
    by (simp add: space_def unsigned_ucast_eq take_bit_nat_eq_self)
  have st: "rb_store rb p l = Some (rb_put_state rb xs)"
    using rb_store_eq [OF inv, of l p] l pl by simp
  have "int (unat l) < write_room rb \<longleftrightarrow> int (unat l) < int (?n - ?W)"
    by (simp only: write_room_eq [OF inv])
  then have cond: "int (unat l) < write_room rb \<longleftrightarrow> ?W + unat l < ?n"
    using f(3) by (simp only: of_nat_less_iff) auto
  have sp: "space < l \<longleftrightarrow> ?n < rb_len rb + length xs"
    using s lx rb_len_le [OF inv] by (auto simp: word_less_nat_alt)
  let ?s = "rb_put_state rb xs"
  have overrun: "(if write_room rb > uint l then ?s\<lparr>read_index := write_index ?s\<rparr>
       else ?s\<lparr>read_mirror := (if write_index ?s \<le> read_index rb then \<not> read_mirror rb else read_mirror rb),
               read_index := write_index ?s\<rparr>)
     = ?s\<lparr>read_index := write_index ?s, read_mirror := \<not> write_mirror ?s\<rparr>"
    if big: "?n < rb_len rb + length xs"
  proof (cases "?W + unat l < ?n")
    case True
    have "read_mirror rb \<noteq> write_mirror rb"
    proof
      assume "read_mirror rb = write_mirror rb"
      then have "rb_len rb + ?R = ?W" using f(6) by (simp add: rb_len_def)
      with True big lx show False by linarith
    qed
    with True show ?thesis
      by (auto simp: cond rb_put_state_def Let_def lx)
  next
    case False
    have "unat l \<le> ?n" by (simp add: l)
    then have "?W + unat l - ?n < ?n" using f(3) by linarith
    then have "(?W + unat l) mod ?n = ?W + unat l - ?n"
      using False by (simp add: le_mod_geq)
    moreover have "unat (write_index ?s) = (?W + unat l) mod ?n"
      using unat_of_nat_u15 [OF inv, of "?W + unat l"] by (simp add: rb_put_state_def Let_def lx)
    ultimately have w: "unat (write_index ?s) = ?W + unat l - ?n" by simp
    have "write_index ?s \<le> read_index rb \<longleftrightarrow> read_mirror rb \<noteq> write_mirror rb"
    proof (cases "read_mirror rb = write_mirror rb")
      case True
      then have "rb_len rb + ?R = ?W" using rb_len_sum [OF inv] by simp
      then have "?R < ?W + unat l - ?n" using big lx False by linarith
      with True show ?thesis unfolding word_le_nat_alt w by simp
    next
      case diff: False
      then have "rb_len rb + ?R = ?W + ?n" using rb_len_sum [OF inv] by simp
      moreover have "unat l \<le> ?n" by (simp add: l)
      ultimately have "?W + unat l - ?n \<le> ?R" using rb_len_le [OF inv] by linarith
      with diff show ?thesis unfolding word_le_nat_alt w by simp
    qed
    moreover have "write_mirror ?s = (\<not> write_mirror rb)"
      using False by (simp add: rb_put_state_def Let_def lx)
    ultimately show ?thesis
      using False by (auto simp: cond)
  qed
  have "rt_ringbuffer_put_force rb ptr len =
     Some (ucast l, if l > space
        then if write_room rb > uint l then ?s\<lparr>read_index := write_index ?s\<rparr>
             else ?s\<lparr>read_mirror := (if write_index ?s \<le> read_index rb then \<not> read_mirror rb else read_mirror rb),
                     read_index := write_index ?s\<rparr>
        else ?s)"
    using st unfolding rt_ringbuffer_put_force_def Let_def over_def [symmetric] p_def [symmetric]
      l_def [symmetric] space_def [symmetric] by simp
  also have "\<dots> = Some (ucast l, rb_force_state rb xs)"
    using overrun by (simp only: sp rb_force_state_def Let_def split: if_splits) auto
  finally show ?thesis by (simp only: Let_def lx word_of_nat_unat flip: xs_def)
qed

lemma rt_ringbuffer_putchar_force_eq:
  assumes inv: "rb_inv rb"
  shows "rt_ringbuffer_putchar_force rb ch = Some (1, rb_force_state rb [ch])"
proof -
  note f = rb_inv_facts [OF inv]
  let ?n = "rb_size rb" and ?W = "unat (write_index rb)"
  have status: "rt_ringbuffer_status rb = RT_RINGBUFFER_FULL \<longleftrightarrow>
      read_index rb = write_index rb \<and> read_mirror rb \<noteq> write_mirror rb"
    by (simp add: rt_ringbuffer_status_def)
  have full: "rt_ringbuffer_status rb = RT_RINGBUFFER_FULL \<longleftrightarrow> ?n < rb_len rb + 1"
  proof (cases "read_mirror rb = write_mirror rb")
    case True
    then have "rb_len rb < ?n" using rb_len_sum [OF inv] f(3) by simp
    with True show ?thesis by (simp add: status)
  next
    case False
    then have "rb_len rb + unat (read_index rb) = ?W + ?n" using rb_len_sum [OF inv] by simp
    then have "?n < rb_len rb + 1 \<longleftrightarrow> unat (read_index rb) = ?W"
      using rb_len_le [OF inv] by linarith
    also have "\<dots> \<longleftrightarrow> read_index rb = write_index rb"
      by (simp only: word_eq_iff_unsigned [where 'a=nat])
    finally show ?thesis using False by (simp add: status)
  qed
  have mirrors: "read_mirror rb \<noteq> write_mirror rb" if "?n < rb_len rb + 1"
  proof
    assume "read_mirror rb = write_mirror rb"
    then have "rb_len rb + unat (read_index rb) = ?W" using rb_len_sum [OF inv] by simp
    with that f(3) show False by linarith
  qed
  have "mset1 (buffer_ptr rb) (int ?W) ch = Some (ring_upd (rb_pool rb) ?W [ch] @ rb_tail rb)"
    unfolding buffer_split using f(3) inv by (intro mset1_append) simp
  moreover have "int ?W = sint (buffer_size rb) - 1 \<longleftrightarrow> \<not> Suc ?W < ?n"
    using f(3,4) by auto
  moreover have "Suc ?W mod ?n = (if Suc ?W < ?n then Suc ?W else 0)"
    using f(3) by (auto simp: mod_Suc)
  ultimately show ?thesis
    using mirrors
    by (auto simp: rt_ringbuffer_putchar_force_def full rb_force_state_def rb_put_state_def Let_def add.commute
        simp del: ring_upd.simps)
qed

lemma rt_ringbuffer_peak_eq:
  assumes inv: "rb_inv rb"
  shows "let k = min (rb_len rb) (rb_size rb - unat (read_index rb)) in
    rt_ringbuffer_peak rb =
      (if rb_len rb = 0 then (0, None, rb)
       else (of_nat k, Some (unat (read_index rb)), rb_get_state rb k))"
proof -
  note f = rb_inv_facts [OF inv]
  let ?n = "rb_size rb" and ?R = "unat (read_index rb)" and ?sz = "rt_ringbuffer_data_len rb"
  have sz: "unat ?sz = rb_len rb" by (rule unat_data_len [OF inv])
  have z: "?sz = 0 \<longleftrightarrow> rb_len rb = 0" by (rule rb_len_contents_empty [OF inv])
  have room: "(word_of_int (read_room rb) :: u32) = of_nat (?n - ?R)"
    by (simp only: read_room_eq [OF inv] of_int_of_nat_eq)
  have uroom: "unat (of_nat (?n - ?R) :: u32) = ?n - ?R"
    using rb_size_bound [of rb] by (simp add: unsigned_of_nat take_bit_nat_eq_self)
  have cond: "?sz < word_of_int (read_room rb) \<longleftrightarrow> rb_len rb < ?n - ?R"
    by (simp only: room word_less_nat_alt uroom sz)
  have l: "(of_nat (rb_len rb) :: u32) = ?sz" by (simp flip: sz)
  show ?thesis
  proof (cases "rb_len rb < ?n - ?R")
    case True
    then have "?R + rb_len rb < ?n" by linarith
    then have "rb_get_state rb (rb_len rb) =
        rb\<lparr>read_index := word_of_int (uint (read_index rb) + uint ?sz)\<rparr>"
      by (simp add: rb_get_state_def Let_def sz)
    moreover have "min (rb_len rb) (?n - ?R) = rb_len rb" using True by simp
    ultimately show ?thesis
      unfolding rt_ringbuffer_peak_def Let_def cond z using True l by simp
  next
    case False
    have "rb_get_state rb (?n - ?R) = rb\<lparr>read_mirror := \<not> read_mirror rb, read_index := 0\<rparr>"
      using f(2) by (simp add: rb_get_state_def Let_def)
    moreover have "min (rb_len rb) (?n - ?R) = ?n - ?R" using False by simp
    ultimately show ?thesis
      unfolding rt_ringbuffer_peak_def Let_def cond z using False room by simp
  qed
qed

subsection \<open>The character operations are a bounded FIFO\<close>

definition rb_push :: "rt_ringbuffer \<Rightarrow> u8 \<Rightarrow> rt_ringbuffer option" where
  "rb_push rb ch =
     (case rt_ringbuffer_putchar rb ch of
        Some (n, rb') \<Rightarrow> if n = 1 then Some rb' else None | None \<Rightarrow> None)"

definition rb_pop :: "rt_ringbuffer \<Rightarrow> (u8 \<times> rt_ringbuffer) option" where
  "rb_pop rb =
     (case rt_ringbuffer_getchar rb of
        Some (n, Some ch, rb') \<Rightarrow> Some (ch, rb') | _ \<Rightarrow> None)"

interpretation rbq: bounded_fifo rb_inv rb_contents rb_size rb_push rb_pop
proof
  fix rb x assume inv: "rb_inv rb" and room: "length (rb_contents rb) < rb_size rb"
  then show "\<exists>rb'. rb_push rb x = Some rb' \<and> rb_inv rb' \<and> rb_contents rb' = rb_contents rb @ [x]
      \<and> rb_size rb' = rb_size rb"
    using rb_put_state_fits [OF inv, of "[x]"] by (simp add: rb_push_def rt_ringbuffer_putchar_eq)
next
  fix rb x q assume inv: "rb_inv rb" and q: "rb_contents rb = (x :: u8) # q"
  then have "1 \<le> rb_len rb" using length_rb_contents [of rb] by simp
  with q show "\<exists>rb'. rb_pop rb = Some (x, rb') \<and> rb_inv rb' \<and> rb_contents rb' = q \<and> rb_size rb' = rb_size rb"
    using rb_get_state_fits [OF inv, of 1] by (simp add: rb_pop_def rt_ringbuffer_getchar_eq inv)
qed (auto simp: rb_push_def rb_pop_def rt_ringbuffer_putchar_eq rt_ringbuffer_getchar_eq rb_len_le)

subsection \<open>Properties\<close>

definition demo_rb :: rt_ringbuffer where
  "demo_rb = \<lparr>buffer_ptr = [10, 20, 30, 40], read_mirror = False, read_index = 2,
     write_mirror = True, write_index = 1, buffer_size = 4\<rparr>"

lemma demo_rb_facts [simp]:
  "rb_inv demo_rb" "rb_size demo_rb = 4" "rb_len demo_rb = 3" "rb_contents demo_rb = [30, 40, 10]"
  by (simp_all add: demo_rb_def rb_inv_def rb_size_def rb_len_def rb_contents_def rb_pool_def
      ring_seg_def upt_rec)

text \<open>C36: \<open>rt_ringbuffer_put\<close> never fails, keeps the invariant, appends to the contents the
  longest prefix of the data that fits the free space, and returns the length of that prefix;
  what was in the buffer stays, whatever the position of the indices.\<close>

theorem rb_put_appends:
  assumes "rb_inv rb" "unat len \<le> length ptr"
  shows "\<exists>rb' k. rt_ringbuffer_put rb ptr len = Some (of_nat k, rb') \<and>
    k = min (unat len) (rb_size rb - length (rb_contents rb)) \<and>
    rb_inv rb' \<and> rb_size rb' = rb_size rb \<and>
    rb_contents rb' = rb_contents rb @ take k ptr"
proof -
  let ?k = "min (unat len) (rb_size rb - rb_len rb)"
  have "rb_len rb + length (take ?k ptr) \<le> rb_size rb"
    using rb_len_le [OF assms(1)] by auto
  from rb_put_state_fits [OF assms(1) this] rt_ringbuffer_put_eq [OF assms]
  show ?thesis by (intro exI [of _ "rb_put_state rb (take ?k ptr)"] exI [of _ ?k]) (simp add: Let_def)
qed

theorem rb_put_appends_witness:
  "\<exists>rb' k. rt_ringbuffer_put demo_rb [1, 2, 3] 3 = Some (of_nat k, rb') \<and> k = 1 \<and>
    rb_contents rb' = [30, 40, 10, 1]"
  using rb_put_appends [of demo_rb 3 "[1, 2, 3]"] by auto

text \<open>C37: \<open>rt_ringbuffer_get\<close> returns the oldest bytes in order, as many as asked for or as
  there are, and removes exactly those.\<close>

theorem rb_get_takes:
  assumes "rb_inv rb"
  shows "\<exists>rb'. rt_ringbuffer_get rb len =
      Some (of_nat (min (unat len) (length (rb_contents rb))), take (unat len) (rb_contents rb), rb') \<and>
    rb_inv rb' \<and> rb_size rb' = rb_size rb \<and>
    rb_contents rb' = drop (unat len) (rb_contents rb)"
proof -
  let ?k = "min (unat len) (rb_len rb)"
  have "take ?k (rb_contents rb) = take (unat len) (rb_contents rb)"
    "drop ?k (rb_contents rb) = drop (unat len) (rb_contents rb)"
    by (simp_all add: min_def)
  with rb_get_state_fits [OF assms, of ?k] rt_ringbuffer_get_eq [OF assms, of len]
  show ?thesis by (intro exI [of _ "rb_get_state rb ?k"]) (simp add: Let_def)
qed

theorem rb_get_takes_witness:
  "\<exists>rb'. rt_ringbuffer_get demo_rb 2 = Some (2, [30, 40], rb') \<and> rb_contents rb' = [10]"
  using rb_get_takes [of demo_rb 2] by auto

text \<open>C34: \<open>rt_ringbuffer_put_force\<close> accepts data of any length: afterwards the buffer holds the
  last \<open>buffer_size\<close> bytes of the old contents followed by the data, so only the oldest bytes
  are lost and the newest always survive.\<close>

theorem rb_put_force_keeps_newest:
  assumes "rb_inv rb" "unat len \<le> length ptr"
  shows "\<exists>rb'. rt_ringbuffer_put_force rb ptr len = Some (of_nat (min (unat len) (rb_size rb)), rb') \<and>
    rb_inv rb' \<and> rb_size rb' = rb_size rb \<and>
    (let q = rb_contents rb @ take (unat len) ptr in
     rb_contents rb' = drop (length q - rb_size rb) q)"
proof -
  define xs where "xs = drop (unat len - rb_size rb) (take (unat len) ptr)"
  have len: "length xs = min (unat len) (rb_size rb)" using assms(2) by (auto simp: xs_def)
  have "drop (rb_len rb + length xs - rb_size rb) (rb_contents rb @ xs) =
      drop (rb_len rb + unat len - rb_size rb) (rb_contents rb @ take (unat len) ptr)"
  proof (cases "unat len \<le> rb_size rb")
    case True
    then show ?thesis using len by (simp add: xs_def)
  next
    case False
    then have "rb_len rb + length xs - rb_size rb = rb_len rb" using len by simp
    moreover have "rb_len rb + unat len - rb_size rb = rb_len rb + (unat len - rb_size rb)"
      using False by simp
    ultimately show ?thesis by (simp add: xs_def)
  qed
  moreover have "rt_ringbuffer_put_force rb ptr len =
      Some (of_nat (min (unat len) (rb_size rb)), rb_force_state rb xs)"
    using rt_ringbuffer_put_force_eq [OF assms] by (simp only: Let_def flip: xs_def len)
  moreover have "length xs \<le> rb_size rb" using len by simp
  moreover have "length (rb_contents rb @ take (unat len) ptr) = rb_len rb + unat len"
    using assms(2) by simp
  ultimately show ?thesis
    using rb_force_state_correct [OF assms(1), of xs] by (auto simp only: Let_def)
qed

theorem rb_put_force_keeps_newest_witness:
  "\<exists>rb'. rt_ringbuffer_put_force demo_rb [1, 2, 3] 3 = Some (3, rb') \<and>
    rb_contents rb' = [10, 1, 2, 3]"
  using rb_put_force_keeps_newest [of demo_rb 3 "[1, 2, 3]"] by (auto simp: Let_def)

text \<open>C35: every interleaving of \<open>rt_ringbuffer_putchar\<close> and \<open>rt_ringbuffer_getchar\<close> answers
  exactly as a bounded FIFO queue of \<open>buffer_size\<close> bytes does: a put is refused only when the
  queue is full, a get only when it is empty, and bytes come out in the order they went in.\<close>

theorem rb_char_ops_fifo:
  assumes "rb_inv rb"
  shows "case impl_run rb_push rb_pop rb ops of (rs, rb') \<Rightarrow>
    rb_inv rb' \<and> spec_run (rb_size rb) (rb_contents rb) ops = (rs, rb_contents rb')"
  using rbq.run_refines [OF assms, of ops] by auto

theorem rb_char_ops_fifo_witness:
  "fst (impl_run rb_push rb_pop demo_rb [Push 7, Push 8, Pop, Push 9, Pop]) =
    [Accepted, Refused, Got 30, Accepted, Got 40]"
  using rb_char_ops_fifo [of demo_rb "[Push 7, Push 8, Pop, Push 9, Pop]"]
  by (auto simp: split: prod.splits)

text \<open>\<open>rt_ringbuffer_putchar_force\<close> always stores its byte, dropping the oldest one exactly
  when the buffer is full.\<close>

lemma rb_putchar_force_overwrites:
  assumes "rb_inv rb"
  shows "\<exists>rb'. rt_ringbuffer_putchar_force rb ch = Some (1, rb') \<and> rb_inv rb' \<and>
    rb_contents rb' =
      (if length (rb_contents rb) = rb_size rb then tl (rb_contents rb) else rb_contents rb) @ [ch]"
proof -
  have "1 \<le> rb_size rb" using rb_inv_facts(1) [OF assms] by simp
  then show ?thesis
    using rb_force_state_correct [OF assms, of "[ch]"] rb_len_le [OF assms] length_rb_contents [of rb]
    by (cases "rb_contents rb") (auto simp: rt_ringbuffer_putchar_force_eq assms)
qed

end
