(* ===== verification/Nvm.thy ===== *)
theory Nvm imports Prelude
begin

text \<open>
  The drive's configuration store, \<open>src/firmware/src/MotorControl/nvm.c\<close>: two flash sectors
  used alternately, each an allocation table of two-bit field states followed by 64-bit
  fields.

  The flash controller and its HAL are outside the model. Their behaviour enters through a
  script of outcomes, one per \<open>HAL_FLASH_Program\<close> or \<open>HAL_FLASHEx_Erase\<close> call: \<open>HalOk\<close>, or
  \<open>HalFail e junk\<close> where \<open>e\<close> is what \<open>HAL_FLASH_GetError\<close> then returns and \<open>junk\<close> says which
  bits the interrupted operation left behind. An exhausted script answers \<open>HalOk\<close>.
  Programming can only clear bits and erasing sets them, as the source's first comment
  says of the device. \<open>None\<close> stands for an access outside the sector.
\<close>

subsection \<open>Data\<close>

datatype hal_result = HalOk | HalFail u32 "nat \<Rightarrow> u8"

type_synonym hal = "hal_result list"

fun hal_pop :: "hal \<Rightarrow> hal_result \<times> hal" where
  "hal_pop [] = (HalOk, [])"
| "hal_pop (r # rs) = (r, rs)"

datatype field_state_t = VALID | INVALID | ERASED

fun fs_code :: "field_state_t \<Rightarrow> u8" where
  "fs_code VALID = 0"
| "fs_code INVALID = 1"
| "fs_code ERASED = 3"

text \<open>\<open>alloc_table\<close> and \<open>data\<close> point at the sector's base: \<open>cells\<close> holds the sector's bytes.\<close>

record sector_t =
  index :: u32
  sector_id :: u32
  n_data :: u32
  n_reserved :: u32
  cells :: "u8 list"

record nvm =
  sectors :: "sector_t list"
  read_sector :: u8
  n_staging_area :: u32
  n_valid :: u32

definition read_ix :: "nvm \<Rightarrow> nat" where
  "read_ix s = unat (read_sector s)"

definition write_ix :: "nvm \<Rightarrow> nat" where
  "write_ix s = nat (1 - uint (read_sector s))"

text \<open>
  Byte offset of a field's data, and the offset of \<open>&data[i] + off\<close> from the sector's base:
  the address is computed in 32 bits.
\<close>

definition data_off :: "u32 \<Rightarrow> nat" where
  "data_off i = 8 * unat i"

definition data_addr :: "u32 \<Rightarrow> nat \<Rightarrow> nat" where
  "data_addr i off = (data_off i + off) mod 2 ^ 32"

lemma data_addr_eq: "data_off i + off < 2 ^ 32 \<Longrightarrow> data_addr i off = data_off i + off"
  by (simp add: data_addr_def)

text \<open>The two sectors as the firmware declares them, over flash contents \<open>m\<close> of \<open>0x20000\<close> bytes.\<close>

definition firmware_sector :: "u32 \<Rightarrow> u8 list \<Rightarrow> sector_t" where
  "firmware_sector k m = \<lparr>index = 0, sector_id = k, n_data = drop_bit 3 0x20000,
     n_reserved = drop_bit 5 (drop_bit 3 0x20000), cells = m\<rparr>"

subsection \<open>Flash operations\<close>

definition hal_effect :: "hal_result \<Rightarrow> u8 list \<Rightarrow> u8 list" where
  "hal_effect r vs = (case r of HalOk \<Rightarrow> vs
     | HalFail e junk \<Rightarrow> map (\<lambda>(i, v). v OR junk i) (List.enumerate 0 vs))"

definition hal_status :: "hal_result \<Rightarrow> int option" where
  "hal_status r = (case r of HalOk \<Rightarrow> None | HalFail e junk \<Rightarrow> Some (sint e))"

definition hal_program ::
  "sector_t \<Rightarrow> nat \<Rightarrow> u8 list \<Rightarrow> hal \<Rightarrow> (int option \<times> sector_t \<times> hal) option" where
  "hal_program sec off vs h = do {
     old \<leftarrow> mread (cells sec) (int off) (int (length vs));
     let (r, h') = hal_pop h;
     m \<leftarrow> mwrite (cells sec) (int off) (map2 (AND) old (hal_effect r vs));
     Some (hal_status r, sec\<lparr>cells := m\<rparr>, h')
   }"

definition erase :: "sector_t \<Rightarrow> hal \<Rightarrow> int \<times> sector_t \<times> hal" where
  "erase sec h =
     (case hal_pop h of
        (HalOk, h') \<Rightarrow>
          (0, sec\<lparr>cells := replicate (length (cells sec)) 0xFF, index := n_reserved sec\<rparr>, h')
      | (HalFail e junk, h') \<Rightarrow>
          (sint e, sec\<lparr>cells := map junk [0..<length (cells sec)]\<rparr>, h'))"

subsection \<open>Allocation table\<close>

definition states4 :: "u8 \<Rightarrow> u8" where
  "states4 st = st OR push_bit 2 st OR push_bit 4 st OR push_bit 6 st"

function alloc_full ::
  "u8 \<Rightarrow> sector_t \<Rightarrow> u32 \<Rightarrow> u32 \<Rightarrow> u8 \<Rightarrow> hal \<Rightarrow>
   (int option \<times> sector_t \<times> u32 \<times> u32 \<times> u8 \<times> hal) option" where
  "alloc_full states sec i count msk h =
     (if 4 \<le> count then do {
        (st, sec, h) \<leftarrow> hal_program sec (unat (drop_bit 2 i)) [states OR msk] h;
        (case st of
           Some e \<Rightarrow> Some (Some e, sec, i, count, msk, h)
         | None \<Rightarrow> alloc_full states sec (i + 4) (count - 4) 0 h)
      } else Some (None, sec, i, count, msk, h))"
  by pat_completeness auto
termination
  by (relation "measure (\<lambda>(states, sec, i, count, msk, h). unat count)")
    (auto simp: unat_sub word_le_nat_alt)

definition set_allocation_state ::
  "sector_t \<Rightarrow> u32 \<Rightarrow> u32 \<Rightarrow> field_state_t \<Rightarrow> hal \<Rightarrow> (int \<times> sector_t \<times> hal) option" where
  "set_allocation_state sec i count state h =
     (if i < n_reserved sec then Some (- 1, sec, h)
      else if i + count \<ge> n_data sec then Some (- 1, sec, h)
      else
        let states = states4 (fs_code state);
            msk = NOT (push_bit (2 * unat (i AND 3)) 0xFF) :: u8;
            count = count + (i AND 3);
            i = i - (i AND 3)
        in do {
          (st, sec, i, count, msk, h) \<leftarrow> alloc_full states sec i count msk h;
          (case st of
             Some e \<Rightarrow> Some (e, sec, h)
           | None \<Rightarrow>
             if count \<noteq> 0 then
               let msk = msk OR NOT (drop_bit (2 * (4 - unat count)) 0xFF) in do {
                 (st, sec, h) \<leftarrow> hal_program sec (unat (drop_bit 2 i)) [states OR msk] h;
                 Some (case st of Some e \<Rightarrow> e | None \<Rightarrow> 0, sec, h)
               }
             else Some (0, sec, h))
        })"

function scan_bytes ::
  "sector_t \<Rightarrow> u8 \<Rightarrow> u32 \<Rightarrow> u32 \<Rightarrow> u8 \<Rightarrow> (u32 \<times> u8) option" where
  "scan_bytes sec refs i ignore states =
     (if n_reserved sec + 4 \<le> i \<and> 4 \<le> i then do {
        b \<leftarrow> mget (cells sec) (uint (drop_bit 2 (i - 1)));
        let ignore_msk = NOT (drop_bit (2 * unat ignore) 0xFF);
        let states = (if ignore \<noteq> 0 then (b AND NOT ignore_msk) OR (refs AND ignore_msk) else b);
        if states \<noteq> refs then Some (i, states)
        else scan_bytes sec refs (i - 4) 0 states
      } else Some (i, states))"
  by pat_completeness auto
termination
  by (relation "measure (\<lambda>(sec, refs, i, ignore, states). unat i)")
    (auto simp: unat_sub word_le_nat_alt)

function scan_field :: "sector_t \<Rightarrow> u8 \<Rightarrow> u32 \<Rightarrow> u8 \<Rightarrow> u32 \<times> u8" where
  "scan_field sec refs i states =
     (if drop_bit 6 states = refs AND 3 \<and> i > n_reserved sec
      then scan_field sec refs (i - 1) (push_bit 2 states)
      else (i, drop_bit 6 states))"
  by pat_completeness auto
termination
  by (relation "measure (\<lambda>(sec, refs, i, states). unat i)")
    (auto simp: word_less_nat_alt intro!: measure_unat)

definition scan_allocation_table ::
  "sector_t \<Rightarrow> u32 \<Rightarrow> field_state_t \<Rightarrow> (u32 \<times> u8) option" where
  "scan_allocation_table sec max_index ref_state =
     (let refs = states4 (fs_code ref_state);
          i = push_bit 2 (drop_bit 2 (max_index + 3));
          ignore = i - max_index
      in do {
        (i, states) \<leftarrow> scan_bytes sec refs i ignore refs;
        Some (scan_field sec refs i states)
      })"

subsection \<open>The driver's operations\<close>

definition NVM_init :: "nvm \<Rightarrow> (int \<times> nvm) option" where
  "NVM_init s = do {
     (i0, st0) \<leftarrow> scan_allocation_table (sectors s ! 0) (n_data (sectors s ! 0)) ERASED;
     let s = s\<lparr>sectors := (sectors s)[0 := (sectors s ! 0)\<lparr>index := i0\<rparr>]\<rparr>;
     (i1, st1) \<leftarrow> scan_allocation_table (sectors s ! 1) (n_data (sectors s ! 1)) ERASED;
     let s = s\<lparr>sectors := (sectors s)[1 := (sectors s ! 1)\<lparr>index := i1\<rparr>]\<rparr>;
     let s = s\<lparr>read_sector := (if st1 = fs_code VALID then 1 else 0)\<rparr>;
     let rs = sectors s ! read_ix s;
     (min_valid, _) \<leftarrow> scan_allocation_table rs (index rs) VALID;
     Some (0, s\<lparr>n_valid := index rs - min_valid, n_staging_area := 0\<rparr>)
   }"

definition NVM_erase :: "nvm \<Rightarrow> hal \<Rightarrow> int \<times> nvm \<times> hal" where
  "NVM_erase s h =
     (let s0 = (sectors s ! 0)\<lparr>index := n_reserved (sectors s ! 0)\<rparr>;
          s1 = (sectors s ! 1)\<lparr>index := n_reserved (sectors s ! 1)\<rparr>;
          (e0, s0, h) = erase s0 h;
          (e1, s1, h) = erase s1 h
      in (e0 OR e1, s\<lparr>read_sector := 0, sectors := [s0, s1]\<rparr>, h))"

definition NVM_get_max_read_length :: "nvm \<Rightarrow> u32" where
  "NVM_get_max_read_length s = push_bit 3 (n_valid s)"

definition NVM_get_max_write_length :: "nvm \<Rightarrow> u32" where
  "NVM_get_max_write_length s =
     (let target = sectors s ! write_ix s in push_bit 3 (n_data target - n_reserved target))"

text \<open>\<open>Inr\<close> the bytes copied to \<open>data\<close> with status 0, \<open>Inl\<close> the error status.\<close>

definition NVM_read :: "nvm \<Rightarrow> u32 \<Rightarrow> u32 \<Rightarrow> (int + u8 list) option" where
  "NVM_read s offset len =
     (if offset + len > push_bit 3 (n_valid s) then Some (Inl (- 1))
      else let rs = sectors s ! read_ix s in do {
        xs \<leftarrow> mread (cells rs) (int (data_addr (index rs - n_valid s) (unat offset))) (uint len);
        Some (Inr xs)
      })"

definition NVM_start_write :: "nvm \<Rightarrow> u32 \<Rightarrow> hal \<Rightarrow> (int \<times> nvm \<times> hal) option" where
  "NVM_start_write s len h =
     (let target = sectors s ! write_ix s;
          len = drop_bit 3 (len + 7)
      in if len > n_data target - n_reserved target then Some (- 1, s, h)
      else
        let (status, target, h) =
          (if len > n_data target - index target then erase target h else (0, target, h));
            s = s\<lparr>sectors := (sectors s)[write_ix s := target]\<rparr>
        in if status \<noteq> 0 then Some (status, s, h)
        else do {
          (status, target, h) \<leftarrow> set_allocation_state target (index target) len INVALID h;
          let s = s\<lparr>sectors := (sectors s)[write_ix s := target]\<rparr>;
          Some (if status \<noteq> 0 then (status, s, h) else (0, s\<lparr>n_staging_area := len\<rparr>, h))
        })"

text \<open>The three loops of \<open>NVM_write\<close>: bytes up to a word boundary, words, remaining bytes.\<close>

fun write_bytes_start ::
  "sector_t \<Rightarrow> nat \<Rightarrow> u8 list \<Rightarrow> hal \<Rightarrow> (int option \<times> sector_t \<times> nat \<times> u8 list \<times> hal) option" where
  "write_bytes_start sec off [] h = Some (None, sec, off, [], h)"
| "write_bytes_start sec off (x # xs) h =
     (if off mod 4 = 0 then Some (None, sec, off, x # xs, h)
      else do {
        (st, sec, h) \<leftarrow> hal_program sec (data_addr (index sec) off) [x] h;
        (case st of Some e \<Rightarrow> Some (Some e, sec, off, x # xs, h)
         | None \<Rightarrow> write_bytes_start sec (off + 1) xs h)
      })"

fun write_words ::
  "sector_t \<Rightarrow> nat \<Rightarrow> u8 list \<Rightarrow> hal \<Rightarrow> (int option \<times> sector_t \<times> nat \<times> u8 list \<times> hal) option" where
  "write_words sec off (a # b # c # d # xs) h = do {
     (st, sec, h) \<leftarrow> hal_program sec (data_addr (index sec) off) [a, b, c, d] h;
     (case st of Some e \<Rightarrow> Some (Some e, sec, off, a # b # c # d # xs, h)
      | None \<Rightarrow> write_words sec (off + 4) xs h)
   }"
| "write_words sec off xs h = Some (None, sec, off, xs, h)"

fun write_bytes_end ::
  "sector_t \<Rightarrow> nat \<Rightarrow> u8 list \<Rightarrow> hal \<Rightarrow> (int \<times> sector_t \<times> hal) option" where
  "write_bytes_end sec off [] h = Some (0, sec, h)"
| "write_bytes_end sec off (x # xs) h = do {
     (st, sec, h) \<leftarrow> hal_program sec (data_addr (index sec) off) [x] h;
     (case st of Some e \<Rightarrow> Some (e, sec, h)
      | None \<Rightarrow> write_bytes_end sec (off + 1) xs h)
   }"

definition NVM_write :: "nvm \<Rightarrow> u32 \<Rightarrow> u8 list \<Rightarrow> u32 \<Rightarrow> hal \<Rightarrow> (int \<times> nvm \<times> hal) option" where
  "NVM_write s offset data len h =
     (if offset + len > push_bit 3 (n_staging_area s) then Some (- 1, s, h)
      else do {
        xs \<leftarrow> mread data 0 (uint len);
        let target = sectors s ! write_ix s;
        (st, target, off, xs, h) \<leftarrow> write_bytes_start target (unat offset) xs h;
        (st, target, h) \<leftarrow>
          (case st of Some e \<Rightarrow> Some (e, target, h)
           | None \<Rightarrow> do {
               (st, target, off, xs, h) \<leftarrow> write_words target off xs h;
               (case st of Some e \<Rightarrow> Some (e, target, h)
                | None \<Rightarrow> write_bytes_end target off xs h)
             });
        Some (st, s\<lparr>sectors := (sectors s)[write_ix s := target]\<rparr>, h)
      })"

definition NVM_commit :: "nvm \<Rightarrow> hal \<Rightarrow> (int \<times> nvm \<times> hal) option" where
  "NVM_commit s h =
     (let r = read_ix s; w = write_ix s; ws = sectors s ! w in do {
        (status, ws, h) \<leftarrow> set_allocation_state ws (index ws) (n_staging_area s) VALID h;
        let s = s\<lparr>sectors := (sectors s)[w := ws]\<rparr>;
        if status \<noteq> 0 then Some (status, s, h)
        else
          let ws = ws\<lparr>index := index ws + n_staging_area s\<rparr>;
              s = s\<lparr>sectors := (sectors s)[w := ws], n_valid := n_staging_area s,
                    n_staging_area := 0, read_sector := 1 - read_sector s\<rparr>;
              rs = sectors s ! r
          in if index rs < n_data rs then do {
               (status, rs, h) \<leftarrow> set_allocation_state rs (index rs) 1 INVALID h;
               let rs = rs\<lparr>index := index rs + 1\<rparr>;
               Some (status, s\<lparr>sectors := (sectors s)[r := rs]\<rparr>, h)
             } else
               let (status, rs, h) = erase rs h
               in Some (status, s\<lparr>sectors := (sectors s)[r := rs]\<rparr>, h)
      })"

subsection \<open>Field states inside a byte\<close>

definition fld :: "u8 \<Rightarrow> nat \<Rightarrow> u8" where
  "fld b j = drop_bit (2 * j) b AND 3"

definition field_at :: "u8 list \<Rightarrow> nat \<Rightarrow> u8" where
  "field_at m j = fld (m ! (j div 4)) (j mod 4)"

lemma nat_less_4: "j < 4 \<longleftrightarrow> j = 0 \<or> j = 1 \<or> j = 2 \<or> j = (3 :: nat)"
  by auto

lemma fld_and [simp]: "fld (a AND b) j = fld a j AND fld b j"
  by (rule bit_eqI) (auto simp: fld_def bit_simps)

lemma fld_or [simp]: "fld (a OR b) j = fld a j OR fld b j"
  by (rule bit_eqI) (auto simp: fld_def bit_simps)

lemma bit_3 [simp]: "bit (3 :: int) n \<longleftrightarrow> n < 2" "bit (3 :: nat) n \<longleftrightarrow> n < 2"
proof -
  have "(3 :: int) = mask 2" "(3 :: nat) = mask 2" by (simp_all add: mask_eq_exp_minus_1)
  then show "bit (3 :: int) n \<longleftrightarrow> n < 2" "bit (3 :: nat) n \<longleftrightarrow> n < 2"
    by (simp_all only: bit_mask_iff) auto
qed

lemma fld_and_3 [simp]: "fld a j AND 3 = fld a j"
  by (simp add: fld_def and.assoc)

lemma fld_and_self: "fld a j AND ((y OR 3) OR x) = fld a j"
  by (rule bit_eqI) (auto simp: fld_def bit_simps)

lemma fld_code [simp]: "j < 4 \<Longrightarrow> fld (states4 (fs_code st)) j = fs_code st"
  by (cases st) (auto simp: fld_def states4_def nat_less_4)

lemma fs_code_and_3 [simp]: "fs_code st AND 3 = fs_code st" "3 AND fs_code st = fs_code st"
  by (cases st; simp)+

lemma fs_code_inj [simp]: "fs_code a = fs_code b \<longleftrightarrow> a = b"
  by (cases a; cases b) auto

lemma byte_eq_fields: "(\<And>j. j < 4 \<Longrightarrow> fld a j = fld b j) \<Longrightarrow> a = b"
proof (rule bit_word_eqI)
  fix n assume eq: "\<And>j. j < 4 \<Longrightarrow> fld a j = fld b j" and n: "n < LENGTH(8)"
  have "bit (fld a (n div 2)) (n mod 2) = bit (fld b (n div 2)) (n mod 2)"
    using eq [of "n div 2"] n by simp
  then show "bit a n = bit b n" by (auto simp: fld_def bit_simps)
qed

definition start_msk :: "nat \<Rightarrow> u8" where
  "start_msk k = NOT (push_bit (2 * k) 0xFF)"

definition end_msk :: "nat \<Rightarrow> u8" where
  "end_msk c = NOT (drop_bit (2 * (4 - c)) 0xFF)"

lemma fld_start_msk [simp]:
  "k < 4 \<Longrightarrow> j < 4 \<Longrightarrow> fld (start_msk k) j = (if j < k then 3 else 0)"
  by (auto simp: nat_less_4 fld_def start_msk_def)

lemma fld_end_msk [simp]:
  "0 < c \<Longrightarrow> c < 4 \<Longrightarrow> j < 4 \<Longrightarrow> fld (end_msk c) j = (if j < c then 0 else 3)"
  by (auto simp: nat_less_4 fld_def end_msk_def)

lemma start_msk_0 [simp]: "start_msk 0 = 0"
  by (simp add: start_msk_def)

text \<open>The whole table determines its bytes.\<close>

lemma cells_eq_fields:
  assumes "\<And>j. 4 * b \<le> j \<Longrightarrow> j < 4 * b + 4 \<Longrightarrow> field_at m j = field_at m' j"
  shows "m ! b = m' ! b"
proof (rule byte_eq_fields)
  fix j :: nat assume "j < 4"
  then show "fld (m ! b) j = fld (m' ! b) j"
    using assms [of "4 * b + j"] by (simp add: field_at_def)
qed

lemma field_at_update:
  "b < length m \<Longrightarrow>
   field_at (m[b := v]) j = (if j div 4 = b then fld v (j mod 4) else field_at m j)"
  by (auto simp: field_at_def)

subsection \<open>One flash operation\<close>

definition hal_honest :: "hal \<Rightarrow> bool" where
  "hal_honest h = list_all (\<lambda>r. hal_status r \<noteq> Some 0) h"

definition hal_ok :: "hal \<Rightarrow> bool" where
  "hal_ok h = list_all (\<lambda>r. hal_status r = None) h"

text \<open>An interrupted byte write left the byte as it was, or as asked for.\<close>

definition hal_atomic :: "hal \<Rightarrow> bool" where
  "hal_atomic h = list_all
     (\<lambda>r. case r of HalOk \<Rightarrow> True | HalFail e junk \<Rightarrow> junk 0 = 0 \<or> junk 0 = 0xFF) h"

lemma hal_ok_honest: "hal_ok h \<Longrightarrow> hal_honest h"
  by (auto simp: hal_ok_def hal_honest_def list_all_iff)

lemma hal_pop_script:
  assumes "hal_pop h = (r, h')"
  shows "hal_ok h \<Longrightarrow> hal_status r = None" "hal_ok h \<Longrightarrow> hal_ok h'"
    "hal_honest h \<Longrightarrow> hal_status r \<noteq> Some 0" "hal_honest h \<Longrightarrow> hal_honest h'"
    "hal_atomic h \<Longrightarrow> hal_atomic h'"
    "hal_atomic h \<Longrightarrow> r = HalFail e junk \<Longrightarrow> junk 0 = 0 \<or> junk 0 = 0xFF"
  using assms by (cases h; auto simp: hal_ok_def hal_honest_def hal_status_def hal_atomic_def)+

lemma length_hal_effect [simp]: "length (hal_effect r vs) = length vs"
  by (simp add: hal_effect_def split: hal_result.split)

lemma hal_status_None [simp]: "hal_status r = None \<longleftrightarrow> r = HalOk"
  by (simp add: hal_status_def split: hal_result.split)

lemma hal_status_HalOk [simp]: "hal_status HalOk = None"
  by simp

lemma hal_effect_nth:
  assumes "i < length vs"
  obtains x where "hal_effect r vs ! i = vs ! i OR x" "r = HalOk \<Longrightarrow> x = 0"
proof (cases r)
  case HalOk
  then show ?thesis using that [of 0] by (simp add: hal_effect_def)
next
  case (HalFail e junk)
  then show ?thesis using assms that [of "junk i"] by (simp add: hal_effect_def nth_enumerate_eq)
qed

lemma hal_program_eq:
  assumes "off + length vs \<le> length (cells sec)" "hal_pop h = (r, h')"
  shows "hal_program sec off vs h = Some (hal_status r,
    sec\<lparr>cells := take off (cells sec) @
      map2 (AND) (take (length vs) (drop off (cells sec))) (hal_effect r vs) @
      drop (off + length vs) (cells sec)\<rparr>, h')"
  using assms by (simp add: hal_program_def mread_of_nat mwrite_of_nat)

lemma hal_program_byte_eq:
  assumes "b < length (cells sec)" "hal_pop h = (r, h')"
  shows "hal_program sec b [v] h = Some (hal_status r,
    sec\<lparr>cells := (cells sec)[b := cells sec ! b AND hal_effect r [v] ! 0]\<rparr>, h')"
proof -
  have "take 1 (drop b (cells sec)) = [cells sec ! b]"
    using assms(1) by (simp add: Cons_nth_drop_Suc [symmetric])
  moreover obtain x where "hal_effect r [v] = [x]"
    by (metis length_hal_effect length_0_conv length_Suc_conv)
  ultimately show ?thesis
    using hal_program_eq [of b "[v]" sec h r h'] assms by (simp add: upd_conv_take_nth_drop)
qed

subsection \<open>Writing the allocation table\<close>

text \<open>
  Fields outside the range keep their state; inside it, bits that the state sets stay set even if
  the write was interrupted.
\<close>

definition alloc_frame :: "field_state_t \<Rightarrow> sector_t \<Rightarrow> sector_t \<Rightarrow> nat \<Rightarrow> nat \<Rightarrow> bool" where
  "alloc_frame st sec sec' lo hi \<longleftrightarrow>
     sec' = sec\<lparr>cells := cells sec'\<rparr> \<and> length (cells sec') = length (cells sec) \<and>
     (\<forall>j. j < lo \<or> hi \<le> j \<longrightarrow> field_at (cells sec') j = field_at (cells sec) j) \<and>
     (\<forall>j. lo \<le> j \<and> j < hi \<longrightarrow> (\<exists>x. field_at (cells sec') j = field_at (cells sec) j AND (fs_code st OR x)))"

definition alloc_set :: "sector_t \<Rightarrow> sector_t \<Rightarrow> nat \<Rightarrow> nat \<Rightarrow> field_state_t \<Rightarrow> bool" where
  "alloc_set sec sec' lo hi st \<longleftrightarrow>
     (\<forall>j. lo \<le> j \<and> j < hi \<longrightarrow> field_at (cells sec') j = field_at (cells sec) j AND fs_code st)"

text \<open>What a flash step may do to the script: use it up from the front.\<close>

definition hal_step :: "hal \<Rightarrow> hal \<Rightarrow> bool" where
  "hal_step h h' \<longleftrightarrow> (hal_ok h \<longrightarrow> hal_ok h') \<and> (hal_honest h \<longrightarrow> hal_honest h') \<and>
     (hal_atomic h \<longrightarrow> hal_atomic h')"

lemma hal_step_refl [simp]: "hal_step h h"
  by (simp add: hal_step_def)

lemma hal_step_trans: "hal_step h h' \<Longrightarrow> hal_step h' h'' \<Longrightarrow> hal_step h h''"
  by (simp add: hal_step_def)

lemma hal_step_pop: "hal_pop h = (r, h') \<Longrightarrow> hal_step h h'"
  using hal_pop_script(2,4,5) [of h r h'] by (simp add: hal_step_def)

lemma field_unchanged: "\<exists>x. field_at m j = field_at m j AND (y OR x)"
  using fld_and_self [of "m ! (j div 4)" "j mod 4" y 0] unfolding field_at_def
  by (intro exI [of _ 3]) simp

lemma alloc_frame_refl [simp]: "alloc_frame st sec sec lo hi"
  by (simp add: alloc_frame_def field_unchanged)

lemma alloc_frame_mono:
  assumes "alloc_frame st sec sec' lo hi" "lo' \<le> lo" "hi \<le> hi'"
  shows "alloc_frame st sec sec' lo' hi'"
  unfolding alloc_frame_def
proof (intro conjI allI impI)
  fix j assume "lo' \<le> j \<and> j < hi'"
  show "\<exists>x. field_at (cells sec') j = field_at (cells sec) j AND (fs_code st OR x)"
  proof (cases "lo \<le> j \<and> j < hi")
    case False
    then have "field_at (cells sec') j = field_at (cells sec) j"
      using assms(1) by (auto simp: alloc_frame_def not_le not_less)
    then show ?thesis using field_unchanged [of "cells sec" j "fs_code st"] by metis
  qed (use assms(1) in \<open>simp add: alloc_frame_def\<close>)
qed (use assms in \<open>auto simp: alloc_frame_def\<close>)

lemma alloc_frame_trans:
  assumes "alloc_frame st sec sec' lo mid" "alloc_frame st sec' sec'' mid hi" "lo \<le> mid" "mid \<le> hi"
  shows "alloc_frame st sec sec'' lo hi"
proof -
  have "sec' = sec\<lparr>cells := cells sec'\<rparr>" "sec'' = sec'\<lparr>cells := cells sec''\<rparr>"
    using assms(1,2) unfolding alloc_frame_def by blast+
  then have "sec'' = sec\<lparr>cells := cells sec''\<rparr>"
    by (cases sec; cases sec'; cases sec'') simp
  moreover have "\<exists>x. field_at (cells sec'') j = field_at (cells sec) j AND (fs_code st OR x)"
    if "lo \<le> j \<and> j < hi" for j
    using that assms(1,2) unfolding alloc_frame_def by (cases "j < mid") (metis not_le)+
  ultimately show ?thesis using assms unfolding alloc_frame_def by simp
qed

lemma alloc_set_trans:
  assumes "alloc_frame st sec sec' lo mid" "alloc_frame st sec' sec'' mid hi" "lo \<le> mid" "mid \<le> hi"
    "alloc_set sec sec' lo mid st" "alloc_set sec' sec'' mid hi st"
  shows "alloc_set sec sec'' lo hi st"
  unfolding alloc_set_def
proof (intro allI impI)
  fix j assume j: "lo \<le> j \<and> j < hi"
  show "field_at (cells sec'') j = field_at (cells sec) j AND fs_code st"
  proof (cases "j < mid")
    case True
    with j assms(2,5) show ?thesis by (simp add: alloc_frame_def alloc_set_def)
  next
    case False
    with j assms(1,6) show ?thesis by (simp add: alloc_frame_def alloc_set_def)
  qed
qed

text \<open>The write got as far as some field \<open>p\<close>: everything before it is set, nothing after it.\<close>

definition alloc_upto :: "field_state_t \<Rightarrow> sector_t \<Rightarrow> sector_t \<Rightarrow> nat \<Rightarrow> nat \<Rightarrow> bool" where
  "alloc_upto st sec sec' lo hi \<longleftrightarrow>
     (\<exists>p. lo \<le> p \<and> p \<le> hi \<and> alloc_frame st sec sec' lo p \<and> alloc_set sec sec' lo p st)"

lemma alloc_upto_refl: "lo \<le> hi \<Longrightarrow> alloc_upto st sec sec lo hi"
  by (auto simp: alloc_upto_def alloc_set_def intro!: exI [of _ lo])

lemma alloc_upto_mono: "alloc_upto st sec sec' lo hi \<Longrightarrow> hi \<le> hi' \<Longrightarrow> alloc_upto st sec sec' lo hi'"
  unfolding alloc_upto_def using le_trans by blast

lemma alloc_upto_trans:
  assumes "alloc_frame st sec sec' lo mid" "alloc_set sec sec' lo mid st" "lo \<le> mid"
    "alloc_upto st sec' sec'' mid hi"
  shows "alloc_upto st sec sec'' lo hi"
proof -
  obtain p where p: "mid \<le> p" "p \<le> hi" "alloc_frame st sec' sec'' mid p" "alloc_set sec' sec'' mid p st"
    using assms(4) by (auto simp: alloc_upto_def)
  then show ?thesis
    using alloc_frame_trans [OF assms(1) p(3) assms(3) p(1)]
      alloc_set_trans [OF assms(1) p(3) assms(3) p(1) assms(2) p(4)] assms(3)
    unfolding alloc_upto_def by (intro exI [of _ p]) simp
qed

lemma program_alloc:
  assumes b: "b < length (cells sec)" and ord: "lo \<le> hi" "hi \<le> 4"
    and m: "\<And>j. j < 4 \<Longrightarrow> fld m j = (if lo \<le> j \<and> j < hi then 0 else 3)"
  obtains r sec' h' where "hal_pop h = (r, h')"
    "hal_program sec b [states4 (fs_code st) OR m] h = Some (hal_status r, sec', h')"
    "alloc_frame st sec sec' (4 * b + lo) (4 * b + hi)"
    "r = HalOk \<Longrightarrow> alloc_set sec sec' (4 * b + lo) (4 * b + hi) st"
    "hal_atomic h \<Longrightarrow> alloc_upto st sec sec' (4 * b + lo) (4 * b + hi)"
proof -
  obtain r h' where pop: "hal_pop h = (r, h')" by fastforce
  let ?v = "states4 (fs_code st) OR m"
  obtain x where x: "hal_effect r [?v] ! 0 = ?v OR x" "r = HalOk \<Longrightarrow> x = 0"
    "r = HalFail e junk \<Longrightarrow> x = junk 0" for e junk
    by (cases r) (auto simp: hal_effect_def)
  let ?sec' = "sec\<lparr>cells := (cells sec)[b := cells sec ! b AND (?v OR x)]\<rparr>"
  have "hal_program sec b [?v] h = Some (hal_status r, ?sec', h')"
    using hal_program_byte_eq [OF b pop, of ?v] x(1) by simp
  moreover have frame: "alloc_frame st sec ?sec' (4 * b + lo) (4 * b + hi)"
    unfolding alloc_frame_def
  proof (intro conjI allI impI)
    fix j assume j: "j < 4 * b + lo \<or> 4 * b + hi \<le> j"
    show "field_at (cells ?sec') j = field_at (cells sec) j"
    proof (cases "j div 4 = b")
      case True
      then have "j = 4 * b + j mod 4" using mult_div_mod_eq [of 4 j] by simp
      then have "\<not> (lo \<le> j mod 4 \<and> j mod 4 < hi)" using j by linarith
      then have "fld m (j mod 4) = 3" using m [of "j mod 4"] by simp
      then have "fld (?v OR x) (j mod 4) = (fs_code st OR 3) OR fld x (j mod 4)" by simp
      then have "fld (cells sec ! b AND (?v OR x)) (j mod 4) = fld (cells sec ! b) (j mod 4)"
        by (simp only: fld_and fld_and_self)
      with True b show ?thesis by (simp add: field_at_update field_at_def del: fld_and fld_or)
    qed (use b in \<open>simp add: field_at_update\<close>)
  next
    fix j assume j: "4 * b + lo \<le> j \<and> j < 4 * b + hi"
    show "\<exists>y. field_at (cells ?sec') j = field_at (cells sec) j AND (fs_code st OR y)"
    proof (cases "j div 4 = b")
      case True
      have "fld (?v OR x) (j mod 4) = fs_code st OR (fld m (j mod 4) OR fld x (j mod 4))"
        by (simp add: or.assoc)
      with True b show ?thesis by (auto simp: field_at_update field_at_def simp del: fld_or)
    qed (use b field_unchanged [of "cells sec" j "fs_code st"] in \<open>simp add: field_at_update\<close>)
  qed simp_all
  moreover have full: "x = 0 \<Longrightarrow> alloc_set sec ?sec' (4 * b + lo) (4 * b + hi) st"
    unfolding alloc_set_def
  proof (intro allI impI)
    fix j assume r: "x = 0" and j: "4 * b + lo \<le> j \<and> j < 4 * b + hi"
    from j ord have "j = 4 * b + (j - 4 * b)" "j - 4 * b < 4" by linarith+
    then have d: "j div 4 = b" "j mod 4 = j - 4 * b"
      by (metis div_mult_self4 div_less add_0_right zero_neq_numeral, metis mod_mult_self4 mod_less)
    with j have "lo \<le> j mod 4 \<and> j mod 4 < hi" by linarith
    with d b r m [of "j mod 4"] show "field_at (cells ?sec') j = field_at (cells sec) j AND fs_code st"
      by (simp add: field_at_update field_at_def)
  qed
  moreover have "alloc_upto st sec ?sec' (4 * b + lo) (4 * b + hi)" if "hal_atomic h"
  proof -
    have "x = 0 \<or> x = 0xFF"
      using x(2,3) hal_pop_script(6) [OF pop that] by (cases r) auto
    then show ?thesis
    proof
      assume "x = 0"
      with full frame ord show ?thesis unfolding alloc_upto_def by (intro exI [of _ "4 * b + hi"]) simp
    next
      assume "x = 0xFF"
      moreover have ff: "(0xFF :: u8) = - 1" by simp
      ultimately have "?sec' = sec" by (simp only: ff) simp
      then show ?thesis using alloc_upto_refl [of "4 * b + lo" "4 * b + hi" st sec] ord by simp
    qed
  qed
  ultimately show ?thesis using that pop x(2) by blast
qed

declare alloc_full.simps [simp del] scan_bytes.simps [simp del] scan_field.simps [simp del]
  write_bytes_start.simps(2) [simp del] write_words.simps(1) [simp del] write_bytes_end.simps(2) [simp del]

definition alloc_full_post ::
  "field_state_t \<Rightarrow> sector_t \<Rightarrow> nat \<Rightarrow> nat \<Rightarrow> nat \<Rightarrow> hal \<Rightarrow> int option \<Rightarrow> sector_t \<Rightarrow>
   nat \<Rightarrow> nat \<Rightarrow> nat \<Rightarrow> hal \<Rightarrow> bool" where
  "alloc_full_post s sec i count k h st sec' i' c' k' h' \<longleftrightarrow>
     (let mid = (if count < 4 then i + k else i + 4 * (count div 4)) in
      hal_step h h' \<and> (hal_ok h \<longrightarrow> st = None) \<and> (hal_honest h \<longrightarrow> st \<noteq> Some 0) \<and>
      alloc_frame s sec sec' (i + k) mid \<and>
      (st = None \<longrightarrow> i' = i + 4 * (count div 4) \<and> c' = count mod 4 \<and> k' < 4 \<and> i' + k' = mid \<and>
         alloc_set sec sec' (i + k) mid s) \<and>
      (hal_atomic h \<longrightarrow> alloc_upto s sec sec' (i + k) mid))"

lemma alloc_full_spec:
  assumes "unat i mod 4 = 0" "k < 4" "unat i + unat count \<le> 4 * length (cells sec)"
    "4 * length (cells sec) < 2 ^ 32"
  shows "\<exists>st sec' i' c' k' h'.
    alloc_full (states4 (fs_code s)) sec i count (start_msk k) h =
      Some (st, sec', i', c', start_msk k', h') \<and>
    alloc_full_post s sec (unat i) (unat count) k h st sec' (unat i') (unat c') k' h'"
  using assms
proof (induction "unat count" arbitrary: i count k sec h rule: less_induct)
  case less
  let ?states = "states4 (fs_code s)" and ?b = "unat i div 4"
  show ?case
  proof (cases "4 \<le> count")
    case False
    then have "unat count < 4" by (simp add: word_le_nat_alt)
    then have "alloc_full_post s sec (unat i) (unat count) k h None sec (unat i) (unat count) k h"
      using less.prems(2) alloc_upto_refl [of "unat i + k" "unat i + k" s sec]
      by (auto simp: alloc_full_post_def alloc_set_def Let_def)
    moreover have "alloc_full ?states sec i count (start_msk k) h =
        Some (None, sec, i, count, start_msk k, h)"
      using False by (subst alloc_full.simps) simp
    ultimately show ?thesis by blast
  next
    case True
    then have c4: "4 \<le> unat count" by (simp add: word_le_nat_alt)
    have i4: "unat i = 4 * ?b" using less.prems(1) by auto
    have b: "?b < length (cells sec)" using c4 i4 less.prems(3) by linarith
    have ub: "unat (drop_bit 2 i) = ?b" by (simp add: unat_drop_bit)
    have i4': "4 * ?b + k = unat i + k" "4 * ?b + 4 = unat i + 4" using i4 by simp_all
    have m: "fld (start_msk k) j = (if k \<le> j \<and> j < 4 then 0 else 3)" if "j < 4" for j
      using that less.prems(2) by simp
    have k4: "k \<le> 4" using less.prems(2) by simp
    obtain r sec1 h1 where P: "hal_pop h = (r, h1)"
      "hal_program sec ?b [?states OR start_msk k] h = Some (hal_status r, sec1, h1)"
      "alloc_frame s sec sec1 (unat i + k) (unat i + 4)"
      "r = HalOk \<Longrightarrow> alloc_set sec sec1 (unat i + k) (unat i + 4) s"
      "hal_atomic h \<Longrightarrow> alloc_upto s sec sec1 (unat i + k) (unat i + 4)"
      using program_alloc [OF b k4 order_refl m, of h s, unfolded i4'] by blast
    have mono: "unat i + 4 \<le> (if unat count < 4 then unat i + k else unat i + 4 * (unat count div 4))"
      using c4 by simp
    show ?thesis
    proof (cases "r = HalOk")
      case False
      then obtain e where e: "hal_status r = Some e" by (metis hal_status_None option.exhaust)
      have "alloc_frame s sec sec1 (unat i + k) (unat i + 4 * (unat count div 4))"
        using alloc_frame_mono [OF P(3) order_refl] mono c4 by simp
      moreover note hal_pop_script(1-4) [OF P(1)] hal_step_pop [OF P(1)]
      moreover have "hal_atomic h \<Longrightarrow> alloc_upto s sec sec1 (unat i + k) (unat i + 4 * (unat count div 4))"
        using alloc_upto_mono [OF P(5)] mono c4 by simp
      ultimately have "alloc_full_post s sec (unat i) (unat count) k h (Some e) sec1 (unat i) (unat count) k h1"
        using e c4 by (auto simp: alloc_full_post_def)
      moreover have "alloc_full ?states sec i count (start_msk k) h =
          Some (Some e, sec1, i, count, start_msk k, h1)"
        using True P(2) e by (subst alloc_full.simps) (simp add: ub)
      ultimately show ?thesis by blast
    next
      case ok: True
      have len: "length (cells sec1) = length (cells sec)" using P(3) by (simp add: alloc_frame_def)
      have u1: "unat (i + 4) = unat i + 4"
        using less.prems(3,4) c4 by (simp add: unat_word_ariths)
      have u2: "unat (count - 4) = unat count - 4"
        using True by (simp add: unat_sub)
      obtain st sec' i' c' k' h' where
        R: "alloc_full ?states sec1 (i + 4) (count - 4) (start_msk 0) h1 =
          Some (st, sec', i', c', start_msk k', h')"
        and Q: "alloc_full_post s sec1 (unat i + 4) (unat count - 4) 0 h1 st sec' (unat i') (unat c') k' h'"
        using less.hyps [of "count - 4" "i + 4" 0 sec1 h1] less.prems c4 len u1 u2 by (auto simp: mod_simps)
      have "alloc_full ?states sec i count (start_msk k) h = Some (st, sec', i', c', start_msk k', h')"
        using True P(2) ok R by (subst alloc_full.simps) (simp add: ub)
      moreover have "alloc_full_post s sec (unat i) (unat count) k h st sec' (unat i') (unat c') k' h'"
      proof -
        define mid where "mid = unat i + 4 * (unat count div 4)"
        have m: "(if unat count - 4 < 4 then unat i + 4 + 0 else mid) = mid"
          "unat i + 4 + 4 * ((unat count - 4) div 4) = mid" "(unat count - 4) mod 4 = unat count mod 4"
          "(if unat count < 4 then unat i + k else unat i + 4 * (unat count div 4)) = mid"
          using c4 by (auto simp: mid_def le_div_geq le_mod_geq)
        note q = Q [unfolded alloc_full_post_def Let_def m]
        have le: "unat i + 4 \<le> mid" using c4 by (simp add: mid_def)
        have "alloc_frame s sec sec' (unat i + k) mid"
          using alloc_frame_trans [OF P(3), of sec' mid] q le less.prems(2) by simp
        moreover have "st = None \<longrightarrow> alloc_set sec sec' (unat i + k) mid s"
          using alloc_set_trans [OF P(3), of sec' mid] P(4) ok q le less.prems(2) by simp
        moreover have "hal_atomic h \<longrightarrow> alloc_upto s sec sec' (unat i + k) mid"
          using alloc_upto_trans [OF P(3), of sec' mid] P(4) ok q le less.prems(2)
            hal_pop_script(5) [OF P(1)] by simp
        ultimately show ?thesis
          using q hal_step_trans [OF hal_step_pop [OF P(1)]] hal_pop_script(1-4) [OF P(1)]
          unfolding alloc_full_post_def Let_def m by (auto simp: mid_def)
      qed
      ultimately show ?thesis by blast
    qed
  qed
qed

text \<open>
  The geometry the driver relies on: the reserved fields hold the allocation table, whole
  bytes of it, and the sector fits the address space.
\<close>

definition geometry :: "sector_t \<Rightarrow> bool" where
  "geometry sec \<longleftrightarrow>
     unat (n_data sec) mod 4 = 0 \<and> unat (n_reserved sec) mod 4 = 0 \<and>
     unat (n_data sec) \<le> 32 * unat (n_reserved sec) \<and>
     unat (n_reserved sec) < unat (n_data sec) \<and>
     length (cells sec) = 8 * unat (n_data sec) \<and> 32 * unat (n_data sec) < 2 ^ 32"

lemma firmware_geometry: "length m = 0x20000 \<Longrightarrow> geometry (firmware_sector k m)"
  by (simp add: geometry_def firmware_sector_def unat_drop_bit)

lemma unat_and_3: "unat (i AND 3 :: u32) = unat i mod 4"
proof -
  have "(3 :: u32) = mask 2" by (simp add: mask_eq_exp_minus_1)
  then have "i AND 3 = take_bit 2 i" by (simp only: take_bit_eq_mask)
  then have "unat (i AND 3) = take_bit 2 (unat i)" by (simp only: unsigned_take_bit_eq)
  then show ?thesis by (simp add: take_bit_eq_mod)
qed

lemma set_allocation_state_spec:
  assumes geo: "geometry sec" and lo: "unat (n_reserved sec) \<le> unat i"
    and hi: "unat i + unat count < unat (n_data sec)"
  shows "\<exists>st sec' h'. set_allocation_state sec i count s h = Some (st, sec', h') \<and>
    hal_step h h' \<and> (hal_ok h \<longrightarrow> st = 0) \<and>
    alloc_frame s sec sec' (unat i) (unat i + unat count) \<and>
    (st = 0 \<and> hal_honest h \<longrightarrow> alloc_set sec sec' (unat i) (unat i + unat count) s) \<and>
    (hal_atomic h \<longrightarrow> alloc_upto s sec sec' (unat i) (unat i + unat count))"
proof -
  let ?k = "unat (i AND 3)" and ?i = "i - (i AND 3)" and ?c = "count + (i AND 3)"
  have k: "?k = unat i mod 4" by (rule unat_and_3)
  have k4: "?k < 4" by (simp add: k)
  have "i AND 3 \<le> i" by (simp add: word_le_nat_alt k)
  then have ui: "unat ?i = unat i - unat i mod 4" by (simp add: unat_sub k)
  have small: "32 * unat (n_data sec) < 4294967296" using geo by (simp add: geometry_def)
  have uc: "unat ?c = unat count + unat i mod 4"
    using small hi k4 k by (simp add: unat_word_ariths)
  have sum: "unat ?i + unat ?c = unat i + unat count" using ui uc by simp
  have imod: "unat ?i mod 4 = 0" by (simp add: ui minus_mod_eq_mult_div)
  have guards: "\<not> i < n_reserved sec" "\<not> n_data sec \<le> i + count"
    using lo hi small by (simp_all add: word_less_nat_alt word_le_nat_alt unat_word_ariths)
  have bound: "unat ?i + unat ?c \<le> 4 * length (cells sec)" "4 * length (cells sec) < 2 ^ 32"
    using geo hi sum small by (simp_all add: geometry_def)
  obtain st sec1 i' c' k' h1 where
    A: "alloc_full (states4 (fs_code s)) sec ?i ?c (start_msk ?k) h = Some (st, sec1, i', c', start_msk k', h1)"
    and P: "alloc_full_post s sec (unat ?i) (unat ?c) ?k h st sec1 (unat i') (unat c') k' h1"
    using alloc_full_spec [OF imod k4 bound, of s h] by blast
  define mid where "mid = (if unat ?c < 4 then unat ?i + ?k else unat ?i + 4 * (unat ?c div 4))"
  note p = P [unfolded alloc_full_post_def Let_def, folded mid_def]
  have start: "unat ?i + ?k = unat i" by (simp add: ui k)
  have mid: "unat i \<le> mid" "mid \<le> unat i + unat count"
  proof -
    have "mid = unat ?i + ?k \<and> unat ?c < 4 \<or> mid = unat ?i + 4 * (unat ?c div 4) \<and> 4 \<le> unat ?c"
      by (auto simp: mid_def)
    moreover have "4 * (unat ?c div 4) \<le> unat ?c" by simp
    moreover have "?k \<le> unat ?c" using k uc by simp
    moreover have "4 \<le> unat ?c \<Longrightarrow> ?k \<le> 4 * (unat ?c div 4)"
      using k4 div_le_mono [of 4 "unat ?c" 4] by simp
    ultimately show "unat i \<le> mid" "mid \<le> unat i + unat count"
      using sum start by linarith+
  qed
  show ?thesis
  proof (cases st)
    case (Some e)
    have "alloc_frame s sec sec1 (unat i) (unat i + unat count)"
      using p mid alloc_frame_mono [of s sec sec1 "unat i" mid "unat i"] start by simp
    moreover have "hal_atomic h \<longrightarrow> alloc_upto s sec sec1 (unat i) (unat i + unat count)"
      using p mid alloc_upto_mono [of s sec sec1 "unat i" mid] start by simp
    moreover have "set_allocation_state sec i count s h = Some (e, sec1, h1)"
      using guards A Some by (simp add: set_allocation_state_def Let_def start_msk_def)
    ultimately show ?thesis using p Some by auto
  next
    case None
    then have n: "unat i' = unat ?i + 4 * (unat ?c div 4)" "unat c' = unat ?c mod 4" "k' < 4"
      "unat i' + k' = mid" "alloc_set sec sec1 (unat i) mid s" "alloc_frame s sec sec1 (unat i) mid"
      using p start by simp_all
    have e: "unat i' + unat c' = unat i + unat count" using n(1,2) sum by simp
    have c0: "c' = 0 \<longleftrightarrow> unat c' = 0" by (simp add: unat_eq_0)
    show ?thesis
    proof (cases "c' = 0")
      case True
      then have "mid = unat i + unat count" using e n(4) mid c0 by linarith
      moreover have "set_allocation_state sec i count s h = Some (0, sec1, h1)"
        using guards A None True by (simp add: set_allocation_state_def Let_def start_msk_def)
      moreover have "hal_atomic h \<longrightarrow> alloc_upto s sec sec1 (unat i) (unat i + unat count)"
        using p start calculation(1) by simp
      ultimately show ?thesis using n p by auto
    next
      case False
      let ?m = "start_msk k' OR end_msk (unat c')" and ?b = "unat i' div 4"
      have c': "0 < unat c'" "unat c' < 4" using False c0 n(2) by auto
      have i'4: "unat i' = 4 * ?b" using n(1) imod by presburger
      have len1: "length (cells sec1) = length (cells sec)" using n(6) by (simp add: alloc_frame_def)
      have b: "?b < length (cells sec1)" using i'4 e c' bound sum len1 by linarith
      have kc: "k' \<le> unat c'" using n(4) e mid by linarith
      have m: "fld ?m j = (if k' \<le> j \<and> j < unat c' then 0 else 3)" if "j < 4" for j
        using that n(3) c' by auto
      have i4': "4 * ?b + k' = mid" "4 * ?b + unat c' = unat i + unat count"
        using i'4 e n(4) by simp_all
      obtain r sec2 h2 where R: "hal_pop h1 = (r, h2)"
        "hal_program sec1 ?b [states4 (fs_code s) OR ?m] h1 = Some (hal_status r, sec2, h2)"
        "alloc_frame s sec1 sec2 mid (unat i + unat count)"
        "r = HalOk \<Longrightarrow> alloc_set sec1 sec2 mid (unat i + unat count) s"
        "hal_atomic h1 \<Longrightarrow> alloc_upto s sec1 sec2 mid (unat i + unat count)"
        using program_alloc [OF b kc less_imp_le [OF c'(2)] m, of h1 s, unfolded i4'] by blast
      let ?st = "case hal_status r of None \<Rightarrow> 0 | Some e \<Rightarrow> e"
      have "set_allocation_state sec i count s h = Some (?st, sec2, h2)"
        using guards A None False R(2)
        by (simp add: set_allocation_state_def Let_def start_msk_def end_msk_def
            unat_drop_bit)
      moreover have "alloc_frame s sec sec2 (unat i) (unat i + unat count)"
        using alloc_frame_trans [OF n(6) R(3)] mid by simp
      moreover have "r = HalOk \<Longrightarrow> alloc_set sec sec2 (unat i) (unat i + unat count) s"
        using alloc_set_trans [OF n(6) R(3)] mid n(5) R(4) by simp
      moreover have "hal_step h h2" using p hal_step_trans [OF _ hal_step_pop [OF R(1)]] by simp
      moreover have "hal_ok h \<longrightarrow> r = HalOk" "hal_honest h \<longrightarrow> hal_status r \<noteq> Some 0"
        using p hal_pop_script(1-4) [OF R(1)] by (auto simp: hal_step_def)
      moreover have "hal_atomic h \<longrightarrow> alloc_upto s sec sec2 (unat i) (unat i + unat count)"
        using alloc_upto_trans [OF n(6,5)] mid R(5) p by (simp add: hal_step_def)
      moreover have "?st = 0 \<Longrightarrow> hal_status r \<noteq> Some 0 \<Longrightarrow> r = HalOk"
        by (auto split: option.splits)
      ultimately show ?thesis by (intro exI [of _ ?st] exI [of _ sec2] exI [of _ h2]) (auto simp: hal_status_def)
    qed
  qed
qed

subsection \<open>Scanning the allocation table\<close>

lemma drop_bit_6: "drop_bit 6 (s :: u8) = fld s 3"
  by (rule bit_word_eqI) (auto simp: fld_def bit_simps dest: bit_imp_le_length)

lemma fld_push: "m < 4 \<Longrightarrow> fld (push_bit (2 * m) s) 3 = fld s (3 - m)"
proof (rule bit_word_eqI)
  fix n assume "m < 4" "n < LENGTH(8)"
  then show "bit (fld (push_bit (2 * m) s) 3) n = bit (fld s (3 - m)) n"
    by (auto simp: nat_less_4 fld_def bit_simps possible_bit_word dest: bit_imp_le_length)
qed

lemmas drop_bit_6_pushes = drop_bit_6
  fld_push [of 1, simplified] fld_push [of 2, simplified] fld_push [of 3, simplified]

lemma states4_and_3 [simp]: "states4 (fs_code st) AND 3 = fs_code st"
  using fld_code [of 0 st] by (simp add: fld_def)

lemma scan_field_spec:
  assumes "states \<noteq> states4 (fs_code r)" "unat (n_reserved sec) + 4 \<le> unat i"
  shows "\<exists>m < 4. scan_field sec (states4 (fs_code r)) i states = (i - of_nat m, fld states (3 - m)) \<and>
    fld states (3 - m) \<noteq> fs_code r \<and> (\<forall>m' < m. fld states (3 - m') = fs_code r)"
proof -
  let ?c = "fs_code r" and ?refs = "states4 (fs_code r)"
  have gt: "n_reserved sec < i" "n_reserved sec < i - 1" "n_reserved sec < i - 2" "n_reserved sec < i - 3"
    using assms(2) by (simp_all add: word_less_nat_alt unat_sub word_le_nat_alt)
  note step = scan_field.simps [of sec ?refs]
  consider (0) "fld states 3 \<noteq> ?c" | (1) "fld states 3 = ?c" "fld states 2 \<noteq> ?c"
    | (2) "fld states 3 = ?c" "fld states 2 = ?c" "fld states 1 \<noteq> ?c"
    | (3) "fld states 3 = ?c" "fld states 2 = ?c" "fld states 1 = ?c" "fld states 0 \<noteq> ?c"
    using assms(1) byte_eq_fields [of states ?refs] by (auto simp: nat_less_4)
  then show ?thesis
  proof cases
    case 0
    then have "scan_field sec ?refs i states = (i - of_nat 0, fld states (3 - 0))"
      by (subst step) (simp add: drop_bit_6_pushes)
    with 0 show ?thesis by (intro exI [of _ 0]) simp
  next
    case 1
    then have "scan_field sec ?refs i states = (i - of_nat 1, fld states (3 - 1))"
      using gt by (subst step, simp add: drop_bit_6_pushes, subst step, simp add: drop_bit_6_pushes)
    with 1 show ?thesis by (intro exI [of _ 1]) simp
  next
    case 2
    then have "scan_field sec ?refs i states = (i - of_nat 2, fld states (3 - 2))"
      using gt by (subst step, simp add: drop_bit_6_pushes, subst step, simp add: drop_bit_6_pushes,
        subst step, simp add: drop_bit_6_pushes)
    with 2 show ?thesis by (intro exI [of _ 2]) (auto simp: less_Suc_eq numeral_2_eq_2)
  next
    case 3
    then have "scan_field sec ?refs i states = (i - of_nat 3, fld states (3 - 3))"
      using gt by (subst step, simp add: drop_bit_6_pushes, subst step, simp add: drop_bit_6_pushes,
        subst step, simp add: drop_bit_6_pushes, subst step, simp add: drop_bit_6_pushes)
    with 3 show ?thesis by (intro exI [of _ 3]) (auto simp: less_Suc_eq numeral_3_eq_3 numeral_2_eq_2)
  qed
qed

text \<open>The byte below \<open>i\<close> with its upper \<open>ignore\<close> fields read as the reference state.\<close>

definition scan_byte :: "sector_t \<Rightarrow> u8 \<Rightarrow> nat \<Rightarrow> nat \<Rightarrow> u8" where
  "scan_byte sec refs i ignore =
     (let b = cells sec ! (i div 4 - 1) in
      if ignore \<noteq> 0 then (b AND NOT (end_msk (4 - ignore))) OR (refs AND end_msk (4 - ignore)) else b)"

lemma fld_not_end_msk [simp]:
  "0 < c \<Longrightarrow> c < 4 \<Longrightarrow> j < 4 \<Longrightarrow> fld (NOT (end_msk c)) j = (if j < c then 3 else 0)"
  by (auto simp: nat_less_4 fld_def end_msk_def)

lemma fld_scan_byte:
  assumes "i mod 4 = 0" "4 \<le> i" "ignore < 4" "j < 4"
  shows "fld (scan_byte sec (states4 (fs_code r)) i ignore) j =
    (if j < 4 - ignore then field_at (cells sec) (i - 4 + j) else fs_code r)"
proof -
  have "(i - 4 + j) div 4 = i div 4 - 1" "(i - 4 + j) mod 4 = j"
  proof -
    obtain k where "i = 4 * k" using assms(1) by (auto elim!: dvdE simp: mod_eq_0_iff_dvd)
    moreover from this assms(2) obtain k' where "k = Suc k'" by (cases k) auto
    ultimately have "i - 4 + j = 4 * k' + j" "i div 4 - 1 = k'" by simp_all
    then show "(i - 4 + j) div 4 = i div 4 - 1" "(i - 4 + j) mod 4 = j" using assms(4) by simp_all
  qed
  then show ?thesis
    using assms by (cases "ignore = 0") (auto simp: scan_byte_def Let_def field_at_def)
qed

lemma scan_bytes_spec:
  assumes geo: "geometry sec"
  shows "unat i mod 4 = 0 \<Longrightarrow> unat (n_reserved sec) \<le> unat i - unat ignore \<Longrightarrow> unat i \<le> unat (n_data sec) \<Longrightarrow>
    unat ignore < 4 \<Longrightarrow> unat ignore \<le> unat i \<Longrightarrow>
    \<exists>i' states. scan_bytes sec (states4 (fs_code r)) i ignore (states4 (fs_code r)) = Some (i', states) \<and>
      unat i' \<le> unat i \<and>
      (\<forall>j. unat i' \<le> j \<and> j < unat i - unat ignore \<longrightarrow> field_at (cells sec) j = fs_code r) \<and>
      (states = states4 (fs_code r) \<and> unat i' = unat (n_reserved sec) \<or>
       states \<noteq> states4 (fs_code r) \<and> unat i' mod 4 = 0 \<and> unat (n_reserved sec) + 4 \<le> unat i' \<and>
       states = scan_byte sec (states4 (fs_code r)) (unat i') (if i' = i then unat ignore else 0))"
proof (induction "unat i" arbitrary: i ignore rule: less_induct)
  case less
  let ?refs = "states4 (fs_code r)" and ?R = "unat (n_reserved sec)"
  have small: "32 * unat (n_data sec) < 4294967296" "?R < unat (n_data sec)" "?R mod 4 = 0"
    and len: "length (cells sec) = 8 * unat (n_data sec)"
    using geo by (simp_all add: geometry_def)
  have guard: "n_reserved sec + 4 \<le> i \<and> 4 \<le> i \<longleftrightarrow> ?R + 4 \<le> unat i"
    using small by (auto simp: word_le_nat_alt unat_word_ariths)
  show ?case
  proof (cases "?R + 4 \<le> unat i")
    case False
    have "unat i = ?R"
    proof -
      obtain a b where "unat i = 4 * a" "?R = 4 * b"
        using less.prems(1) small(3) by (metis mod_eq_0_iff_dvd dvd_def)
      then show ?thesis using False less.prems(2) by auto
    qed
    moreover have "scan_bytes sec ?refs i ignore ?refs = Some (i, ?refs)"
      unfolding scan_bytes.simps [of sec ?refs i ignore ?refs] guard using False by simp
    ultimately show ?thesis by auto
  next
    case True
    have i4: "4 \<le> unat i" using True by simp
    have i1: "unat (i - 1) = unat i - 1" using i4 by (simp add: unat_sub word_le_nat_alt)
    have "unat i = 4 * (unat i div 4)" using less.prems(1) by auto
    then have d: "(unat i - 1) div 4 = unat i div 4 - 1" using i4 by linarith
    have "unat (drop_bit 2 (i - 1)) = unat i div 4 - 1" using d by (simp add: unat_drop_bit i1)
    moreover have "mget (cells sec) (int (unat i div 4 - 1)) = Some (cells sec ! (unat i div 4 - 1))"
      using len less.prems(3) i4 by (intro mget_of_nat) linarith
    ultimately have b: "mget (cells sec) (uint (drop_bit 2 (i - 1))) = Some (cells sec ! (unat i div 4 - 1))"
      by (simp only: uint_nat)
    have ig0: "ignore \<noteq> 0 \<longleftrightarrow> unat ignore \<noteq> 0" by (simp add: unat_eq_0)
    have sub: "4 - (4 - unat ignore) = unat ignore" using less.prems(4) by simp
    let ?s = "scan_byte sec ?refs (unat i) (unat ignore)"
    have unf: "scan_bytes sec ?refs i ignore ?refs =
        (if ?s \<noteq> ?refs then Some (i, ?s) else scan_bytes sec ?refs (i - 4) 0 ?refs)"
      unfolding scan_bytes.simps [of sec ?refs i ignore ?refs] guard
      using True b by (simp add: Let_def scan_byte_def ig0 end_msk_def sub)
    show ?thesis
    proof (cases "?s = ?refs")
      case False
      with unf less.prems True show ?thesis by (intro exI [of _ i] exI [of _ ?s]) auto
    next
      case eq: True
      have top: "field_at (cells sec) j = fs_code r" if "unat i - 4 \<le> j" "j < unat i - unat ignore" for j
      proof -
        define g where "g = unat ignore"
        have k: "j - (unat i - 4) < 4" "j - (unat i - 4) < 4 - g" "unat i - 4 + (j - (unat i - 4)) = j"
          using that i4 less.prems(4,5) unfolding g_def by linarith+
        have "fld ?s (j - (unat i - 4)) = fs_code r" using k(1) by (simp only: eq fld_code)
        then show ?thesis
          using fld_scan_byte [OF less.prems(1) i4 less.prems(4) k(1), of sec r]
          by (simp only: k(3) if_P [OF k(2)] flip: g_def)
      qed
      have u4: "unat (i - 4) = unat i - 4" using i4 by (simp add: unat_sub word_le_nat_alt)
      have m4: "unat (i - 4) mod 4 = 0" using less.prems(1) i4 u4 by (simp add: mod_eq_0_iff_dvd)
      obtain i' states where
        S: "scan_bytes sec ?refs (i - 4) 0 ?refs = Some (i', states)"
        and I: "unat i' \<le> unat i - 4"
        and F: "\<And>j. unat i' \<le> j \<Longrightarrow> j < unat i - 4 \<Longrightarrow> field_at (cells sec) j = fs_code r"
        and C: "states = ?refs \<and> unat i' = ?R \<or>
          states \<noteq> ?refs \<and> unat i' mod 4 = 0 \<and> ?R + 4 \<le> unat i' \<and> states = scan_byte sec ?refs (unat i') 0"
      proof -
        have "unat i - 4 < unat i" "?R \<le> unat i - 4" "unat i - 4 \<le> unat (n_data sec)"
          using i4 True less.prems(3) by linarith+
        with m4 less.hyps [of "i - 4" 0, unfolded unsigned_0 u4 diff_zero if_cancel]
        have "\<exists>i' states. scan_bytes sec ?refs (i - 4) 0 ?refs = Some (i', states) \<and>
          unat i' \<le> unat i - 4 \<and>
          (\<forall>j. unat i' \<le> j \<and> j < unat i - 4 \<longrightarrow> field_at (cells sec) j = fs_code r) \<and>
          (states = ?refs \<and> unat i' = ?R \<or>
           states \<noteq> ?refs \<and> unat i' mod 4 = 0 \<and> ?R + 4 \<le> unat i' \<and> states = scan_byte sec ?refs (unat i') 0)"
          by (simp only: u4)
        then show ?thesis by (elim exE conjE) (rule that; (assumption | blast))
      qed
      have "i' \<noteq> i" using I i4 by auto
      moreover have "field_at (cells sec) j = fs_code r" if "unat i' \<le> j" "j < unat i - unat ignore" for j
        using F [of j] top [of j] that by (cases "j < unat i - 4") auto
      ultimately show ?thesis using unf eq S I C
        by (intro exI [of _ i'] exI [of _ states]) auto
    qed
  qed
qed

lemma scan_allocation_table_spec:
  assumes geo: "geometry sec" and max: "unat (n_reserved sec) \<le> unat mx" "unat mx \<le> unat (n_data sec)"
  shows "\<exists>i st. scan_allocation_table sec mx r = Some (i, st) \<and>
    unat (n_reserved sec) \<le> unat i \<and> unat i \<le> unat mx \<and>
    (\<forall>j. unat i \<le> j \<and> j < unat mx \<longrightarrow> field_at (cells sec) j = fs_code r) \<and>
    (if unat i = unat (n_reserved sec) then st = fs_code r
     else st = field_at (cells sec) (unat i - 1) \<and> st \<noteq> fs_code r)"
proof -
  let ?refs = "states4 (fs_code r)" and ?R = "unat (n_reserved sec)" and ?N = "unat (n_data sec)"
  define i where "i = push_bit 2 (drop_bit 2 (mx + 3))"
  have small: "32 * ?N < 4294967296" "?N mod 4 = 0" "?R mod 4 = 0" "0 < ?R" "?R < ?N"
    using geo by (auto simp: geometry_def)
  have "unat (mx + 3) = unat mx + 3" using small(1) max by (simp add: unat_word_ariths)
  then have "unat (drop_bit 2 (mx + 3)) = (unat mx + 3) div 4" by (simp add: unat_drop_bit)
  moreover have "4 * ((unat mx + 3) div 4) \<le> unat mx + 3" by simp
  ultimately have ui: "unat i = 4 * ((unat mx + 3) div 4)"
    using small(1) max by (simp add: i_def push_bit_eq_mult unat_word_ariths mult.commute)
  have rng: "unat mx \<le> unat i" "unat i < unat mx + 4" "unat i mod 4 = 0"
    unfolding ui by (auto simp: minus_mod_eq_mult_div [symmetric])
  have iN: "unat i \<le> ?N"
  proof -
    obtain a b where "unat i = 4 * a" "?N = 4 * b"
      using rng(3) small(2) by (metis mod_eq_0_iff_dvd dvd_def)
    then show ?thesis using rng(2) max(2) by auto
  qed
  have ig: "unat (i - mx) = unat i - unat mx" using rng(1) by (simp add: unat_sub word_le_nat_alt)
  have ig4: "unat i - unat mx < 4" "unat i - (unat i - unat mx) = unat mx" "unat i - unat mx \<le> unat i"
    using rng by linarith+
  obtain i' states where
    S: "scan_bytes sec ?refs i (i - mx) ?refs = Some (i', states)"
    and I: "unat i' \<le> unat i"
    and F: "\<And>j. unat i' \<le> j \<Longrightarrow> j < unat mx \<Longrightarrow> field_at (cells sec) j = fs_code r"
    and C: "states = ?refs \<and> unat i' = ?R \<or>
      states \<noteq> ?refs \<and> unat i' mod 4 = 0 \<and> ?R + 4 \<le> unat i' \<and>
      states = scan_byte sec ?refs (unat i') (if i' = i then unat i - unat mx else 0)"
    using scan_bytes_spec [OF geo rng(3) _ iN, of "i - mx" r, unfolded ig ig4(2), OF max(1) ig4(1,3)]
    by (elim exE conjE) (rule that; (assumption | blast))
  have T: "scan_allocation_table sec mx r = Some (scan_field sec ?refs i' states)"
    using S by (simp add: scan_allocation_table_def Let_def i_def)
  show ?thesis
  proof (cases "states = ?refs")
    case True
    with C have R: "unat i' = ?R" by auto
    then have "i' = n_reserved sec" by (simp add: word_unat_eq_iff)
    then have "scan_field sec ?refs i' states = (i', fs_code r)"
      using True by (subst scan_field.simps) (simp add: drop_bit_6)
    with T R F max show ?thesis by auto
  next
    case False
    with C have c: "unat i' mod 4 = 0" "?R + 4 \<le> unat i'"
      "states = scan_byte sec ?refs (unat i') (if i' = i then unat i - unat mx else 0)" by auto
    define g where "g = (if i' = i then unat i - unat mx else 0)"
    have g4: "g < 4" using rng by (auto simp: g_def)
    obtain m where m: "m < 4" "scan_field sec ?refs i' states = (i' - of_nat m, fld states (3 - m))"
      "fld states (3 - m) \<noteq> fs_code r" "\<forall>m' < m. fld states (3 - m') = fs_code r"
      using scan_field_spec [OF False c(2)] by blast
    have fs: "fld states j = (if j < 4 - g then field_at (cells sec) (unat i' - 4 + j) else fs_code r)"
      if "j < 4" for j
      using fld_scan_byte [of "unat i'" g j sec r] c g4 that by (simp add: g_def)
    have mg: "g \<le> m" using fs [of "3 - m"] m(1,3) by (auto split: if_splits)
    have um: "unat (i' - of_nat m) = unat i' - m"
      using m(1) c(2) by (simp add: unat_sub word_le_nat_alt unat_of_nat)
    have le: "unat i' - m \<le> unat mx"
    proof (cases "i' = i")
      case True
      then show ?thesis using mg g_def by simp
    next
      case False
      then have "unat i' < unat i" using I by (metis le_neq_implies_less word_unat_eq_iff)
      moreover obtain a b where "unat i' = 4 * a" "unat i = 4 * b"
        using c(1) rng(3) by (metis mod_eq_0_iff_dvd dvd_def)
      ultimately show ?thesis using rng by auto
    qed
    have "field_at (cells sec) j = fs_code r" if j: "unat i' - m \<le> j" "j < unat mx" for j
    proof (cases "unat i' \<le> j")
      case False
      define m' where "m' = unat i' - 1 - j"
      have m': "m' < m" "j = unat i' - 4 + (3 - m')" using False j m(1) c(2) by (auto simp: m'_def)
      moreover have "i' = i \<Longrightarrow> 3 - m' < 4 - g"
        using j m' m(1) rng(1) c(2) unfolding g_def by (simp only: if_P refl) linarith
      moreover have "i' \<noteq> i \<Longrightarrow> g = 0" by (simp add: g_def)
      ultimately show ?thesis using fs [of "3 - m'"] m(4) by (cases "i' = i") auto
    qed (use F j in simp)
    moreover have "fld states (3 - m) = field_at (cells sec) (unat i' - m - 1)"
    proof -
      have "unat i' - 4 + (3 - m) = unat i' - m - 1" using m(1) c(2) by simp
      then show ?thesis using fs [of "3 - m"] m(1,3) by (auto split: if_splits)
    qed
    ultimately show ?thesis
      using T m um le c(2) by (intro exI [of _ "i' - of_nat m"] exI [of _ "fld states (3 - m)"]) auto
  qed
qed

subsection \<open>Writing data\<close>

definition and_at :: "u8 list \<Rightarrow> nat \<Rightarrow> u8 list \<Rightarrow> u8 list" where
  "and_at m off xs =
     take off m @ map2 (AND) (take (length xs) (drop off m)) xs @ drop (off + length xs) m"

lemma length_and_at [simp]: "off + length xs \<le> length m \<Longrightarrow> length (and_at m off xs) = length m"
  by (simp add: and_at_def)

lemma nth_and_at:
  "off + length xs \<le> length m \<Longrightarrow> b < length m \<Longrightarrow>
   and_at m off xs ! b = (if off \<le> b \<and> b < off + length xs then m ! b AND xs ! (b - off) else m ! b)"
  by (auto simp: and_at_def nth_append)

lemma and_at_Nil [simp]: "and_at m off [] = m"
  by (simp add: and_at_def)

lemma and_at_append:
  assumes "off + length xs + length ys \<le> length m"
  shows "and_at (and_at m off xs) (off + length xs) ys = and_at m off (xs @ ys)"
  using assms by (intro nth_equalityI) (auto simp: nth_and_at nth_append)

definition data_frame :: "sector_t \<Rightarrow> sector_t \<Rightarrow> nat \<Rightarrow> nat \<Rightarrow> bool" where
  "data_frame sec sec' lo hi \<longleftrightarrow>
     sec' = sec\<lparr>cells := cells sec'\<rparr> \<and> length (cells sec') = length (cells sec) \<and>
     (\<forall>b < length (cells sec). b < lo \<or> hi \<le> b \<longrightarrow> cells sec' ! b = cells sec ! b)"

lemma data_frame_refl [simp]: "data_frame sec sec lo hi"
  by (simp add: data_frame_def)

lemma data_frame_trans:
  assumes "data_frame sec sec' lo hi" "data_frame sec' sec'' lo' hi'" "lo \<le> lo'" "hi' \<le> hi"
  shows "data_frame sec sec'' lo hi"
proof -
  have "sec' = sec\<lparr>cells := cells sec'\<rparr>" "sec'' = sec'\<lparr>cells := cells sec''\<rparr>"
    using assms(1,2) by (simp_all only: data_frame_def)
  then have "sec'' = sec\<lparr>cells := cells sec''\<rparr>"
    by (cases sec; cases sec'; cases sec'') simp
  then show ?thesis using assms unfolding data_frame_def by auto
qed

lemma data_frame_index: "data_frame sec sec' lo hi \<Longrightarrow> index sec' = index sec"
  unfolding data_frame_def by (cases sec; cases sec') simp

lemma program_data:
  assumes "off + length vs \<le> length (cells sec)"
  obtains r sec' h' where "hal_pop h = (r, h')" "hal_program sec off vs h = Some (hal_status r, sec', h')"
    "data_frame sec sec' off (off + length vs)"
    "r = HalOk \<Longrightarrow> cells sec' = and_at (cells sec) off vs"
proof -
  obtain r h' where pop: "hal_pop h = (r, h')" by fastforce
  let ?s = "sec\<lparr>cells := and_at (cells sec) off (hal_effect r vs)\<rparr>"
  have "hal_program sec off vs h = Some (hal_status r, ?s, h')"
    using hal_program_eq [OF assms pop] by (simp add: and_at_def)
  moreover have "data_frame sec ?s off (off + length vs)"
    using assms by (auto simp: data_frame_def nth_and_at)
  moreover have "r = HalOk \<Longrightarrow> cells ?s = and_at (cells sec) off vs"
    by (simp add: hal_effect_def)
  ultimately show ?thesis using that pop by blast
qed

text \<open>What a (partial) write of \<open>xs\<close> at \<open>off\<close> that left \<open>rest\<close> undone guarantees.\<close>

definition write_post ::
  "sector_t \<Rightarrow> nat \<Rightarrow> u8 list \<Rightarrow> hal \<Rightarrow> int option \<Rightarrow> sector_t \<Rightarrow> nat \<Rightarrow> u8 list \<Rightarrow> hal \<Rightarrow> bool" where
  "write_post sec off xs h st sec' off' rest h' \<longleftrightarrow>
     hal_step h h' \<and> (hal_ok h \<longrightarrow> st = None) \<and> (hal_honest h \<longrightarrow> st \<noteq> Some 0) \<and>
     data_frame sec sec' (data_off (index sec) + off) (data_off (index sec) + off + length xs) \<and>
     (st = None \<longrightarrow> (\<exists>ys. xs = ys @ rest \<and> off' = off + length ys \<and>
        cells sec' = and_at (cells sec) (data_off (index sec) + off) ys))"

lemma write_post_Nil: "write_post sec off xs h None sec off xs h"
  by (simp add: write_post_def)

lemma write_post_step:
  assumes n: "n = length vs" and small: "length (cells sec) < 2 ^ 32"
    and fit: "data_off (index sec) + off + length (vs @ xs) \<le> length (cells sec)"
    and k: "\<And>sec1 h1. length (cells sec1) = length (cells sec) \<Longrightarrow> index sec1 = index sec \<Longrightarrow>
      \<exists>st sec' off' rest h'. f sec1 (off + n) xs h1 = Some (st, sec', off', rest, h') \<and>
        write_post sec1 (off + n) xs h1 st sec' off' rest h'"
  shows "\<exists>st sec' off' rest h'. (do {
       (st, sec, h) \<leftarrow> hal_program sec (data_addr (index sec) off) vs h;
       (case st of Some e \<Rightarrow> Some (Some e, sec, off, vs @ xs, h)
        | None \<Rightarrow> f sec (off + n) xs h) }) = Some (st, sec', off', rest, h') \<and>
     write_post sec off (vs @ xs) h st sec' off' rest h'"
proof -
  let ?b = "data_off (index sec) + off"
  have addr: "data_addr (index sec) off = ?b" using fit small by (intro data_addr_eq) simp
  have "?b + length vs \<le> length (cells sec)" using fit by simp
  from program_data [OF this, of h] obtain r sec1 h1 where P: "hal_pop h = (r, h1)"
    "hal_program sec ?b vs h = Some (hal_status r, sec1, h1)"
    "data_frame sec sec1 ?b (?b + length vs)"
    "r = HalOk \<Longrightarrow> cells sec1 = and_at (cells sec) ?b vs" by metis
  have fr: "data_frame sec sec1 ?b (?b + length (vs @ xs))"
    using P(3) by (auto simp: data_frame_def)
  note scr = hal_pop_script(1-4) [OF P(1)] hal_step_pop [OF P(1)]
  show ?thesis
  proof (cases "hal_status r")
    case (Some e)
    then have "write_post sec off (vs @ xs) h (Some e) sec1 off (vs @ xs) h1"
      using fr scr by (auto simp: write_post_def)
    with Some P(2) show ?thesis by (auto simp: addr simp del: append.simps)
  next
    case None
    have ix: "index sec1 = index sec" by (rule data_frame_index [OF P(3)])
    have len: "length (cells sec1) = length (cells sec)" using P(3) by (simp add: data_frame_def)
    obtain st sec' off' rest h' where
      R: "f sec1 (off + length vs) xs h1 = Some (st, sec', off', rest, h')"
      and Q: "write_post sec1 (off + length vs) xs h1 st sec' off' rest h'"
      using k [OF len ix] unfolding n by blast
    note q = Q [unfolded write_post_def ix]
    have "data_frame sec sec' ?b (?b + length (vs @ xs))"
      using q by (intro data_frame_trans [OF fr, of sec' "data_off (index sec) + (off + length vs)"
          "data_off (index sec) + (off + length vs) + length xs"]) auto
    moreover have "st = None \<longrightarrow> (\<exists>ys. vs @ xs = ys @ rest \<and> off' = off + length ys \<and>
        cells sec' = and_at (cells sec) ?b ys)"
    proof
      assume "st = None"
      with q obtain ys where ys: "xs = ys @ rest" "off' = off + length vs + length ys"
        "cells sec' = and_at (cells sec1) (data_off (index sec) + (off + length vs)) ys" by blast
      have "cells sec' = and_at (cells sec) ?b (vs @ ys)"
        using ys(3) P(4) None and_at_append [of ?b vs ys "cells sec"] fit ys(1)
        by (simp add: add.assoc)
      then show "\<exists>ys. vs @ xs = ys @ rest \<and> off' = off + length ys \<and>
          cells sec' = and_at (cells sec) ?b ys"
        using ys by (intro exI [of _ "vs @ ys"]) simp
    qed
    ultimately have "write_post sec off (vs @ xs) h st sec' off' rest h'"
      using q scr hal_step_trans [of h h1 h'] by (auto simp: write_post_def hal_step_def)
    with None P(2) R show ?thesis by (auto simp: n addr)
  qed
qed

lemma write_bytes_start_post:
  "length (cells sec) < 2 ^ 32 \<Longrightarrow> data_off (index sec) + off + length xs \<le> length (cells sec) \<Longrightarrow>
   \<exists>st sec' off' rest h'. write_bytes_start sec off xs h = Some (st, sec', off', rest, h') \<and>
     write_post sec off xs h st sec' off' rest h'"
proof (induction xs arbitrary: sec off h)
  case Nil
  then show ?case by (simp add: write_post_Nil)
next
  case (Cons x xs)
  show ?case
  proof (cases "off mod 4 = 0")
    case True
    then show ?thesis by (simp add: write_post_Nil write_bytes_start.simps(2))
  next
    case False
    have "\<exists>st sec' off' rest h'. write_bytes_start sec1 (off + 1) xs h1 = Some (st, sec', off', rest, h') \<and>
        write_post sec1 (off + 1) xs h1 st sec' off' rest h'"
      if "length (cells sec1) = length (cells sec)" "index sec1 = index sec" for sec1 h1
      using that Cons.prems by (intro Cons.IH) simp_all
    moreover have "write_bytes_start sec off ([x] @ xs) h = (do {
       (st, sec, h) \<leftarrow> hal_program sec (data_addr (index sec) off) [x] h;
       (case st of Some e \<Rightarrow> Some (Some e, sec, off, [x] @ xs, h)
        | None \<Rightarrow> write_bytes_start sec (off + 1) xs h) })"
      using False by (simp only: append.simps write_bytes_start.simps if_False)
    ultimately show ?thesis
      using write_post_step [of 1 "[x]" sec off xs write_bytes_start h] Cons.prems
      by (simp only: append.simps list.size One_nat_def add_0)
  qed
qed

lemma write_words_post:
  "length (cells sec) < 2 ^ 32 \<Longrightarrow> data_off (index sec) + off + length xs \<le> length (cells sec) \<Longrightarrow>
   \<exists>st sec' off' rest h'. write_words sec off xs h = Some (st, sec', off', rest, h') \<and>
     write_post sec off xs h st sec' off' rest h'"
proof (induction "length xs" arbitrary: xs sec off h rule: less_induct)
  case less
  show ?case
  proof (cases "4 \<le> length xs")
    case True
    then obtain a b c d ys where xs: "xs = [a, b, c, d] @ ys"
      by (auto simp: neq_Nil_conv numeral_eq_Suc Suc_le_length_iff)
    have "\<exists>st sec' off' rest h'. write_words sec1 (off + 4) ys h1 = Some (st, sec', off', rest, h') \<and>
        write_post sec1 (off + 4) ys h1 st sec' off' rest h'"
      if "length (cells sec1) = length (cells sec)" "index sec1 = index sec" for sec1 h1
      using that less.prems xs by (intro less.hyps) simp_all
    moreover have "write_words sec off xs h = (do {
       (st, sec, h) \<leftarrow> hal_program sec (data_addr (index sec) off) [a, b, c, d] h;
       (case st of Some e \<Rightarrow> Some (Some e, sec, off, [a, b, c, d] @ ys, h)
        | None \<Rightarrow> write_words sec (off + 4) ys h) })"
      by (simp only: xs append.simps write_words.simps)
    ultimately show ?thesis
      using write_post_step [of 4 "[a, b, c, d]" sec off ys write_words h] less.prems
      unfolding xs by simp
  next
    case False
    then have "write_words sec off xs h = Some (None, sec, off, xs, h)"
      by (cases "(sec, off, xs, h)" rule: write_words.cases) simp_all
    then show ?thesis by (simp add: write_post_Nil)
  qed
qed

text \<open>The last loop, seen as one that may stop early.\<close>

fun write_tail ::
  "sector_t \<Rightarrow> nat \<Rightarrow> u8 list \<Rightarrow> hal \<Rightarrow> (int option \<times> sector_t \<times> nat \<times> u8 list \<times> hal) option" where
  "write_tail sec off [] h = Some (None, sec, off, [], h)"
| "write_tail sec off (x # xs) h = do {
     (st, sec, h) \<leftarrow> hal_program sec (data_addr (index sec) off) [x] h;
     (case st of Some e \<Rightarrow> Some (Some e, sec, off, x # xs, h)
      | None \<Rightarrow> write_tail sec (off + 1) xs h) }"

declare write_tail.simps(2) [simp del]

lemma write_tail_post:
  "length (cells sec) < 2 ^ 32 \<Longrightarrow> data_off (index sec) + off + length xs \<le> length (cells sec) \<Longrightarrow>
   \<exists>st sec' off' rest h'. write_tail sec off xs h = Some (st, sec', off', rest, h') \<and>
     write_post sec off xs h st sec' off' rest h'"
proof (induction xs arbitrary: sec off h)
  case (Cons x xs)
  have "\<exists>st sec' off' rest h'. write_tail sec1 (off + 1) xs h1 = Some (st, sec', off', rest, h') \<and>
      write_post sec1 (off + 1) xs h1 st sec' off' rest h'"
    if "length (cells sec1) = length (cells sec)" "index sec1 = index sec" for sec1 h1
    using that Cons.prems by (intro Cons.IH) simp_all
  then show ?case
    using write_post_step [of 1 "[x]" sec off xs write_tail h] Cons.prems
    by (simp only: append.simps list.size One_nat_def add_0 write_tail.simps)
qed (simp add: write_post_Nil)

lemma write_bytes_end_tail:
  "write_bytes_end sec off xs h = map_option
     (\<lambda>(st, sec, off, rest, h). (case st of None \<Rightarrow> 0 | Some e \<Rightarrow> e, sec, h)) (write_tail sec off xs h)"
proof (induction xs arbitrary: sec off h)
  case (Cons x xs)
  then show ?case
    by (auto simp: write_bytes_end.simps(2) write_tail.simps(2) split: Option.bind_split option.splits)
qed simp

lemma write_tail_rest: "write_tail sec off xs h = Some (None, sec', off', rest, h') \<Longrightarrow> rest = []"
proof (induction xs arbitrary: sec off h)
  case (Cons x xs)
  then show ?case
    by (auto simp: write_tail.simps(2) split: Option.bind_splits option.splits)
qed simp

text \<open>The whole of \<open>NVM_write\<close>, once the length check is passed.\<close>

definition nvm_write_sector ::
  "sector_t \<Rightarrow> nat \<Rightarrow> u8 list \<Rightarrow> hal \<Rightarrow> (int \<times> sector_t \<times> hal) option" where
  "nvm_write_sector target off xs h = do {
     (st, target, off, xs, h) \<leftarrow> write_bytes_start target off xs h;
     (case st of Some e \<Rightarrow> Some (e, target, h)
      | None \<Rightarrow> do {
          (st, target, off, xs, h) \<leftarrow> write_words target off xs h;
          (case st of Some e \<Rightarrow> Some (e, target, h)
           | None \<Rightarrow> write_bytes_end target off xs h)
        })
   }"

lemma NVM_write_sector:
  "NVM_write s offset data len h =
     (if offset + len > push_bit 3 (n_staging_area s) then Some (- 1, s, h)
      else do {
        xs \<leftarrow> mread data 0 (uint len);
        (st, target, h) \<leftarrow> nvm_write_sector (sectors s ! write_ix s) (unat offset) xs h;
        Some (st, s\<lparr>sectors := (sectors s)[write_ix s := target]\<rparr>, h)
      })"
  by (auto simp: NVM_write_def nvm_write_sector_def Let_def split: Option.bind_split option.splits)

lemma write_post_chain:
  assumes "write_post sec off xs h None sec1 off1 xs1 h1" "write_post sec1 off1 xs1 h1 st sec2 off2 xs2 h2"
    "data_off (index sec) + off + length xs \<le> length (cells sec)"
  shows "write_post sec off xs h st sec2 off2 xs2 h2"
proof -
  note a = assms(1) [unfolded write_post_def]
  then obtain ys where ys: "xs = ys @ xs1" "off1 = off + length ys"
    "cells sec1 = and_at (cells sec) (data_off (index sec) + off) ys" by auto
  have ix: "index sec1 = index sec" using a data_frame_index by blast
  note b = assms(2) [unfolded write_post_def ix]
  have "data_frame sec sec2 (data_off (index sec) + off) (data_off (index sec) + off + length xs)"
    using a b ys by (intro data_frame_trans [of sec sec1 _ _ sec2 "data_off (index sec) + off1"
        "data_off (index sec) + off1 + length xs1"]) auto
  moreover have "st = None \<longrightarrow> (\<exists>zs. xs = zs @ xs2 \<and> off2 = off + length zs \<and>
      cells sec2 = and_at (cells sec) (data_off (index sec) + off) zs)"
  proof
    assume "st = None"
    with b obtain zs where zs: "xs1 = zs @ xs2" "off2 = off1 + length zs"
      "cells sec2 = and_at (cells sec1) (data_off (index sec) + off1) zs" by blast
    then have "cells sec2 = and_at (cells sec) (data_off (index sec) + off) (ys @ zs)"
      using ys assms(3) and_at_append [of "data_off (index sec) + off" ys zs "cells sec"]
      by (simp add: add.assoc)
    with ys zs show "\<exists>zs. xs = zs @ xs2 \<and> off2 = off + length zs \<and>
        cells sec2 = and_at (cells sec) (data_off (index sec) + off) zs"
      by (intro exI [of _ "ys @ zs"]) simp
  qed
  ultimately show ?thesis
    using a b by (auto simp: write_post_def hal_step_def)
qed

lemma nvm_write_sector_spec:
  assumes small: "length (cells sec) < 2 ^ 32"
    and fit: "data_off (index sec) + off + length xs \<le> length (cells sec)"
  shows "\<exists>st sec' h'. nvm_write_sector sec off xs h = Some (st, sec', h') \<and> hal_step h h' \<and>
    (hal_ok h \<longrightarrow> st = 0) \<and>
    data_frame sec sec' (data_off (index sec) + off) (data_off (index sec) + off + length xs) \<and>
    (st = 0 \<and> hal_honest h \<longrightarrow> cells sec' = and_at (cells sec) (data_off (index sec) + off) xs)"
proof -
  obtain st1 sec1 off1 xs1 h1 where
    A: "write_bytes_start sec off xs h = Some (st1, sec1, off1, xs1, h1)"
    and P1: "write_post sec off xs h st1 sec1 off1 xs1 h1"
    using write_bytes_start_post [OF small fit] by blast
  show ?thesis
  proof (cases st1)
    case (Some e)
    with A P1 show ?thesis by (auto simp: nvm_write_sector_def write_post_def)
  next
    case None
    have keep: "length (cells sec') = length (cells sec)" "index sec' = index sec"
      "data_off (index sec') + off' + length rest \<le> length (cells sec')"
      if "write_post sec off xs h None sec' off' rest h'" for sec' off' rest h'
    proof -
      note w = that [unfolded write_post_def]
      then show "length (cells sec') = length (cells sec)" by (simp add: data_frame_def)
      moreover show "index sec' = index sec" using w data_frame_index by blast
      ultimately show "data_off (index sec') + off' + length rest \<le> length (cells sec')"
        using w fit by auto
    qed
    note p1 = P1 [unfolded None]
    obtain st2 sec2 off2 xs2 h2 where
      B: "write_words sec1 off1 xs1 h1 = Some (st2, sec2, off2, xs2, h2)"
      and P2: "write_post sec1 off1 xs1 h1 st2 sec2 off2 xs2 h2"
      using write_words_post [of sec1 off1 xs1 h1] keep [OF p1] small by auto
    note P12 = write_post_chain [OF p1 P2 fit]
    show ?thesis
    proof (cases st2)
      case (Some e)
      with A B None P12 show ?thesis by (auto simp: nvm_write_sector_def write_post_def)
    next
      case st2: None
      note p2 = P12 [unfolded st2]
      obtain st3 sec3 off3 xs3 h3 where
        C: "write_tail sec2 off2 xs2 h2 = Some (st3, sec3, off3, xs3, h3)"
        and P3: "write_post sec2 off2 xs2 h2 st3 sec3 off3 xs3 h3"
        using write_tail_post [of sec2 off2 xs2 h2] keep [OF p2] small by auto
      note P = write_post_chain [OF p2 P3 fit, unfolded write_post_def]
      let ?st = "case st3 of None \<Rightarrow> 0 | Some e \<Rightarrow> e"
      have "nvm_write_sector sec off xs h = Some (?st, sec3, h3)"
        using A B C None st2 by (simp add: nvm_write_sector_def write_bytes_end_tail)
      moreover have "?st = 0 \<Longrightarrow> hal_honest h \<Longrightarrow> st3 = None" using P by (auto split: option.splits)
      moreover have "st3 = None \<Longrightarrow> xs3 = []" using C write_tail_rest by blast
      ultimately show ?thesis using P by (auto split: option.splits)
    qed
  qed
qed

subsection \<open>Sector contents as the boot code sees them\<close>

definition sec_wf :: "sector_t \<Rightarrow> bool" where
  "sec_wf sec \<longleftrightarrow> geometry sec \<and> unat (n_reserved sec) \<le> unat (index sec) \<and>
     unat (index sec) \<le> unat (n_data sec)"

text \<open>All fields from \<open>t\<close> on are erased, and \<open>v\<close> is the state of the field before \<open>t\<close>.\<close>

definition top_state :: "sector_t \<Rightarrow> nat \<Rightarrow> u8 \<Rightarrow> bool" where
  "top_state sec t v \<longleftrightarrow>
     unat (n_reserved sec) \<le> t \<and> t \<le> unat (n_data sec) \<and>
     (\<forall>j. t \<le> j \<and> j < unat (n_data sec) \<longrightarrow> field_at (cells sec) j = fs_code ERASED) \<and>
     (if t = unat (n_reserved sec) then v = fs_code ERASED
      else v = field_at (cells sec) (t - 1) \<and> v \<noteq> fs_code ERASED)"

text \<open>The fields \<open>[m, t)\<close> are a maximal run of valid ones.\<close>

definition valid_run :: "sector_t \<Rightarrow> nat \<Rightarrow> nat \<Rightarrow> bool" where
  "valid_run sec m t \<longleftrightarrow>
     unat (n_reserved sec) \<le> m \<and> m \<le> t \<and> t \<le> unat (n_data sec) \<and>
     (\<forall>j. m \<le> j \<and> j < t \<longrightarrow> field_at (cells sec) j = fs_code VALID) \<and>
     (m = unat (n_reserved sec) \<or> field_at (cells sec) (m - 1) \<noteq> fs_code VALID)"

text \<open>Where a run that reaches up to \<open>n\<close> begins is determined.\<close>

lemma run_start_le:
  assumes "\<forall>j. a \<le> j \<and> j < n \<longrightarrow> f j = c" "b \<le> n" "b = r \<or> f (b - 1) \<noteq> c" "r \<le> a"
  shows "b \<le> (a :: nat)"
proof (rule ccontr)
  assume "\<not> b \<le> a"
  then have "a \<le> b - 1" "b - 1 < n" "b \<noteq> r" using assms(2,4) by linarith+
  with assms(1,3) show False by blast
qed

lemma top_state_val:
  "top_state sec t v \<Longrightarrow> t \<noteq> unat (n_reserved sec) \<Longrightarrow>
   v = field_at (cells sec) (t - 1) \<and> v \<noteq> fs_code ERASED"
  unfolding top_state_def by (metis (full_types))

lemma scan_erased:
  assumes geo: "geometry sec" and top: "top_state sec t v"
  shows "scan_allocation_table sec (n_data sec) ERASED = Some (of_nat t, v)"
proof -
  let ?R = "unat (n_reserved sec)" and ?N = "unat (n_data sec)" and ?F = "field_at (cells sec)"
  obtain i st where S: "scan_allocation_table sec (n_data sec) ERASED = Some (i, st)"
    and b: "?R \<le> unat i" "unat i \<le> ?N"
    and e: "\<forall>j. unat i \<le> j \<and> j < ?N \<longrightarrow> ?F j = fs_code ERASED"
    and s: "if unat i = ?R then st = fs_code ERASED else st = ?F (unat i - 1) \<and> st \<noteq> fs_code ERASED"
    using scan_allocation_table_spec [OF geo, of "n_data sec" ERASED] geo
    by (auto simp: geometry_def simp del: fs_code.simps)
  note t = top [unfolded top_state_def]
  have t': "t = ?R \<or> ?F (t - 1) \<noteq> fs_code ERASED" and s': "unat i = ?R \<or> ?F (unat i - 1) \<noteq> fs_code ERASED"
    using t s by metis+
  have "unat i \<le> t" using run_start_le [of t ?N ?F "fs_code ERASED" "unat i" ?R] t b(2) s' by blast
  moreover have "t \<le> unat i" using run_start_le [of "unat i" ?N ?F "fs_code ERASED" t ?R] t e t' b(1) by blast
  ultimately have "unat i = t" by simp
  moreover from this have "st = v" using s t by metis
  ultimately show ?thesis using S by auto
qed

lemma scan_valid:
  assumes geo: "geometry sec" and run: "valid_run sec m t"
  obtains v where "scan_allocation_table sec (of_nat t) VALID = Some (of_nat m, v)"
proof -
  let ?R = "unat (n_reserved sec)" and ?N = "unat (n_data sec)" and ?F = "field_at (cells sec)"
  note r = run [unfolded valid_run_def]
  have ut: "unat (of_nat t :: u32) = t"
    using r geo by (simp add: geometry_def unsigned_of_nat take_bit_nat_eq_self)
  obtain i st where S: "scan_allocation_table sec (of_nat t) VALID = Some (i, st)"
    and b: "?R \<le> unat i" "unat i \<le> t"
    and e: "\<forall>j. unat i \<le> j \<and> j < t \<longrightarrow> ?F j = fs_code VALID"
    and s: "if unat i = ?R then st = fs_code VALID else st = ?F (unat i - 1) \<and> st \<noteq> fs_code VALID"
    using scan_allocation_table_spec [OF geo, of "of_nat t" VALID] r ut by (auto simp del: fs_code.simps)
  have s': "unat i = ?R \<or> ?F (unat i - 1) \<noteq> fs_code VALID"
    using s by metis
  have "unat i \<le> m" using run_start_le [of m t ?F "fs_code VALID" "unat i" ?R] r b(2) s' by blast
  moreover have "m \<le> unat i" using run_start_le [of "unat i" t ?F "fs_code VALID" m ?R] r e b(1) by blast
  ultimately have "unat i = m" by simp
  then have "i = of_nat m" by auto
  with S that show ?thesis by blast
qed

lemma valid_run_exists:
  assumes "unat (n_reserved sec) \<le> t" "t \<le> unat (n_data sec)"
  shows "\<exists>m. valid_run sec m t"
  using assms
proof (induction "t - unat (n_reserved sec)" arbitrary: t rule: less_induct)
  case less
  show ?case
  proof (cases "t = unat (n_reserved sec) \<or> field_at (cells sec) (t - 1) \<noteq> fs_code VALID")
    case True
    then show ?thesis using less.prems by (intro exI [of _ t]) (auto simp: valid_run_def)
  next
    case False
    then have "t - 1 - unat (n_reserved sec) < t - unat (n_reserved sec)" "unat (n_reserved sec) \<le> t - 1"
      "t - 1 \<le> unat (n_data sec)" using less.prems by linarith+
    from less.hyps [OF this] obtain m where m: "valid_run sec m (t - 1)" by blast
    have "field_at (cells sec) j = fs_code VALID" if "m \<le> j" "j < t" for j
      using m that False by (cases "j = t - 1") (auto simp: valid_run_def)
    then have "valid_run sec m t" using m less.prems unfolding valid_run_def by auto
    then show ?thesis by blast
  qed
qed

lemma valid_run_unique:
  assumes "valid_run sec m t" "valid_run sec m' t"
  shows "m = m'"
proof (rule antisym)
  show "m \<le> m'"
    using assms run_start_le [of m' t "field_at (cells sec)" "fs_code VALID" m "unat (n_reserved sec)"]
    unfolding valid_run_def by blast
  show "m' \<le> m"
    using assms run_start_le [of m t "field_at (cells sec)" "fs_code VALID" m' "unat (n_reserved sec)"]
    unfolding valid_run_def by blast
qed

subsection \<open>The stored block\<close>

definition sec_bytes :: "sector_t \<Rightarrow> nat \<Rightarrow> nat \<Rightarrow> u8 list" where
  "sec_bytes sec m t = take (8 * (t - m)) (drop (8 * m) (cells sec))"

definition nvm_block :: "nvm \<Rightarrow> u8 list" where
  "nvm_block s = (let rs = sectors s ! read_ix s in
     sec_bytes rs (unat (index rs) - unat (n_valid s)) (unat (index rs)))"

definition nvm_staged :: "nvm \<Rightarrow> u8 list" where
  "nvm_staged s = (let ws = sectors s ! write_ix s in
     sec_bytes ws (unat (index ws)) (unat (index ws) + unat (n_staging_area s)))"

text \<open>A reboot with this flash content makes \<open>xs\<close> the readable block.\<close>

definition boots_to :: "nvm \<Rightarrow> u8 list \<Rightarrow> bool" where
  "boots_to s xs \<longleftrightarrow> (case NVM_init s of Some (st, s') \<Rightarrow> st = 0 \<and> nvm_block s' = xs | None \<Rightarrow> False)"

definition two_sectors :: "nvm \<Rightarrow> bool" where
  "two_sectors s \<longleftrightarrow> length (sectors s) = 2 \<and> (read_sector s = 0 \<or> read_sector s = 1) \<and>
     geometry (sectors s ! 0) \<and> geometry (sectors s ! 1)"

definition top_val :: "sector_t \<Rightarrow> u8" where
  "top_val sec = (if index sec = n_reserved sec then fs_code ERASED
     else field_at (cells sec) (unat (index sec) - 1))"

definition blank_above :: "sector_t \<Rightarrow> bool" where
  "blank_above sec \<longleftrightarrow>
     (\<forall>b < length (cells sec). data_off (index sec) \<le> b \<longrightarrow> cells sec ! b = 0xFF)"

text \<open>Between transactions.\<close>

definition nvm_ready :: "nvm \<Rightarrow> bool" where
  "nvm_ready s \<longleftrightarrow> two_sectors s \<and> n_staging_area s = 0 \<and>
     (let rs = sectors s ! read_ix s; ws = sectors s ! write_ix s in
      index rs < n_data rs \<and> n_valid s \<le> index rs \<and>
      top_state rs (unat (index rs)) (top_val rs) \<and>
      valid_run rs (unat (index rs) - unat (n_valid s)) (unat (index rs)) \<and> blank_above rs \<and>
      top_state ws (unat (index ws)) (top_val ws) \<and> top_val ws \<noteq> fs_code VALID \<and> blank_above ws)"

lemma ix_simps [simp]:
  "read_ix (s\<lparr>sectors := x\<rparr>) = read_ix s" "write_ix (s\<lparr>sectors := x\<rparr>) = write_ix s"
  "read_ix (s\<lparr>n_staging_area := n\<rparr>) = read_ix s" "write_ix (s\<lparr>n_staging_area := n\<rparr>) = write_ix s"
  "read_ix (s\<lparr>n_valid := n\<rparr>) = read_ix s" "write_ix (s\<lparr>n_valid := n\<rparr>) = write_ix s"
  by (simp_all add: read_ix_def write_ix_def)

lemma read_write_ix:
  assumes "two_sectors s"
  shows "read_ix s = 0 \<and> write_ix s = 1 \<and> read_sector s = 0 \<or>
         read_ix s = 1 \<and> write_ix s = 0 \<and> read_sector s = 1"
  using assms by (auto simp: two_sectors_def read_ix_def write_ix_def)

lemma geometry_ixs:
  assumes "two_sectors s"
  shows "geometry (sectors s ! read_ix s)" "geometry (sectors s ! write_ix s)"
    "length (sectors s) = 2" "read_ix s < 2" "write_ix s < 2" "read_ix s \<noteq> write_ix s"
  using read_write_ix [OF assms] assms by (auto simp: two_sectors_def)

lemma NVM_init_eq:
  assumes "two_sectors s" "top_state (sectors s ! 0) t0 v0" "top_state (sectors s ! 1) t1 v1"
    "valid_run (sectors s ! (if v1 = fs_code VALID then 1 else 0)) m (if v1 = fs_code VALID then t1 else t0)"
  shows "NVM_init s = Some (0, s\<lparr>
    sectors := [(sectors s ! 0)\<lparr>index := of_nat t0\<rparr>, (sectors s ! 1)\<lparr>index := of_nat t1\<rparr>],
    read_sector := (if v1 = fs_code VALID then 1 else 0),
    n_valid := of_nat (if v1 = fs_code VALID then t1 else t0) - of_nat m, n_staging_area := 0\<rparr>)"
proof -
  obtain s0 s1 where ss: "sectors s = [s0, s1]"
    using assms(1) by (auto simp: two_sectors_def numeral_2_eq_2 length_Suc_conv)
  have geo: "geometry s0" "geometry s1" using assms(1) by (auto simp: two_sectors_def ss)
  have e0: "scan_allocation_table s0 (n_data s0) ERASED = Some (of_nat t0, v0)"
    and e1: "scan_allocation_table s1 (n_data s1) ERASED = Some (of_nat t1, v1)"
    using scan_erased [OF geo(1)] scan_erased [OF geo(2)] assms(2,3) by (simp_all add: ss)
  show ?thesis
  proof (cases "v1 = fs_code VALID")
    case True
    with assms(4) have "valid_run (s1\<lparr>index := of_nat t1\<rparr>) m t1" by (simp add: ss valid_run_def)
    moreover have "geometry (s1\<lparr>index := of_nat t1\<rparr>)" using geo(2) by (simp add: geometry_def)
    ultimately obtain v where
      "scan_allocation_table (s1\<lparr>index := of_nat t1\<rparr>) (of_nat t1) VALID = Some (of_nat m, v)"
      using scan_valid by blast
    with True e0 e1 show ?thesis
      by (simp add: NVM_init_def ss Let_def read_ix_def del: fs_code.simps)
  next
    case False
    with assms(4) have "valid_run (s0\<lparr>index := of_nat t0\<rparr>) m t0" by (simp add: ss valid_run_def)
    moreover have "geometry (s0\<lparr>index := of_nat t0\<rparr>)" using geo(1) by (simp add: geometry_def)
    ultimately obtain v where
      "scan_allocation_table (s0\<lparr>index := of_nat t0\<rparr>) (of_nat t0) VALID = Some (of_nat m, v)"
      using scan_valid by blast
    with False e0 e1 show ?thesis
      by (simp add: NVM_init_def ss Let_def read_ix_def del: fs_code.simps)
  qed
qed

lemma boots_to_block:
  assumes "two_sectors s" "top_state (sectors s ! 0) t0 v0" "top_state (sectors s ! 1) t1 v1"
    and "valid_run (sectors s ! (if v1 = fs_code VALID then 1 else 0)) m (if v1 = fs_code VALID then t1 else t0)"
  shows "boots_to s (sec_bytes (sectors s ! (if v1 = fs_code VALID then 1 else 0)) m
    (if v1 = fs_code VALID then t1 else t0))"
proof -
  let ?t = "if v1 = fs_code VALID then t1 else t0"
  let ?sec = "sectors s ! (if v1 = fs_code VALID then 1 else 0)"
  have geo: "geometry ?sec" using assms(1) by (auto simp: two_sectors_def)
  have mt: "m \<le> ?t" "?t \<le> unat (n_data ?sec)" using assms(4) by (auto simp: valid_run_def simp del: fs_code.simps)
  have small: "?t < 2 ^ 32" using mt geo by (simp add: geometry_def)
  have u: "unat (of_nat ?t :: u32) = ?t" "unat (of_nat m :: u32) = m"
    using small mt(1) by (simp_all only: unsigned_of_nat) (simp_all add: take_bit_nat_eq_self del: fs_code.simps)
  then have "unat (of_nat ?t - of_nat m :: u32) = ?t - m"
    using mt(1) by (subst unat_sub) (simp_all only: word_le_nat_alt u)
  with u NVM_init_eq [OF assms] mt(1) show ?thesis
    by (auto simp: boots_to_def nvm_block_def sec_bytes_def read_ix_def Let_def simp del: fs_code.simps)
qed

lemma top_state_exists:
  assumes "geometry sec"
  shows "\<exists>t v. top_state sec t v"
proof -
  let ?R = "unat (n_reserved sec)" and ?N = "unat (n_data sec)" and ?F = "field_at (cells sec)"
  have "?R \<le> ?N" using assms by (simp add: geometry_def)
  obtain i st where *: "scan_allocation_table sec (n_data sec) ERASED = Some (i, st) \<and> ?R \<le> unat i \<and>
      unat i \<le> ?N \<and> (\<forall>j. unat i \<le> j \<and> j < ?N \<longrightarrow> ?F j = fs_code ERASED) \<and>
      (if unat i = ?R then st = fs_code ERASED else st = ?F (unat i - 1) \<and> st \<noteq> fs_code ERASED)"
    using scan_allocation_table_spec [OF assms \<open>?R \<le> ?N\<close> order_refl, of ERASED] by (elim exE)
  have "top_state sec (unat i) st" using * unfolding top_state_def by (elim conjE) (intro conjI; assumption)
  then show ?thesis by blast
qed

lemma boots_read:
  assumes two: "two_sectors s"
    and r: "top_state (sectors s ! read_ix s) tr vr" "valid_run (sectors s ! read_ix s) m tr"
    and w: "top_state (sectors s ! write_ix s) tw vw" "vw \<noteq> fs_code VALID"
  shows "boots_to s (sec_bytes (sectors s ! read_ix s) m tr)"
  using read_write_ix [OF two]
proof (elim disjE conjE)
  assume ix: "read_ix s = 0" "write_ix s = 1"
  from boots_to_block [OF two, of tr vr tw vw m] ix r w show ?thesis by simp
next
  assume ix: "read_ix s = 1" "write_ix s = 0"
  show ?thesis
  proof (cases "vr = fs_code VALID")
    case True
    from boots_to_block [OF two, of tw vw tr vr m] ix r w True show ?thesis by simp
  next
    case False
    have m: "m = tr"
    proof (rule ccontr)
      assume "m \<noteq> tr"
      with r(2) have "m \<le> tr - 1" "tr - 1 < tr" "tr \<noteq> unat (n_reserved (sectors s ! read_ix s))"
        by (auto simp: valid_run_def)
      with r(2) have "field_at (cells (sectors s ! read_ix s)) (tr - 1) = fs_code VALID"
        unfolding valid_run_def by blast
      with r(1) \<open>tr \<noteq> _\<close> False show False unfolding top_state_def by metis
    qed
    have bw: "unat (n_reserved (sectors s ! 0)) \<le> tw" "tw \<le> unat (n_data (sectors s ! 0))"
      using w(1) ix by (simp_all add: top_state_def)
    have "valid_run (sectors s ! 0) tw tw"
      using w bw ix unfolding valid_run_def top_state_def by (metis le_refl not_le)
    from boots_to_block [OF two, of tw vw tr vr tw] this ix r w False
    have "boots_to s (sec_bytes (sectors s ! 0) tw tw)" by simp
    then show ?thesis by (simp add: sec_bytes_def m)
  qed
qed

lemma boots_either:
  assumes two: "two_sectors s"
    and r: "top_state (sectors s ! read_ix s) tr vr" "valid_run (sectors s ! read_ix s) m tr"
    and w: "top_state (sectors s ! write_ix s) tw vw" "valid_run (sectors s ! write_ix s) mw tw"
  shows "boots_to s (sec_bytes (sectors s ! read_ix s) m tr) \<or>
    boots_to s (sec_bytes (sectors s ! write_ix s) mw tw)"
  using read_write_ix [OF two]
proof (elim disjE conjE)
  assume ix: "read_ix s = 0" "write_ix s = 1"
  show ?thesis
    using boots_to_block [OF two, of tr vr tw vw m] boots_to_block [OF two, of tr vr tw vw mw] ix r w
    by (cases "vw = fs_code VALID") simp_all
next
  assume ix: "read_ix s = 1" "write_ix s = 0"
  show ?thesis
    using boots_to_block [OF two, of tw vw tr vr m] boots_to_block [OF two, of tw vw tr vr mw] ix r w
    by (cases "vr = fs_code VALID") simp_all
qed

text \<open>
  While a transaction is open only the write sector's cells and the staging length differ
  from the state \<open>s0\<close> it started in, and no field above the write index is valid.
\<close>

definition during :: "nvm \<Rightarrow> nvm \<Rightarrow> bool" where
  "during s0 s \<longleftrightarrow> (\<exists>m n. s = s0\<lparr>sectors := (sectors s0)[write_ix s0 := (sectors s0 ! write_ix s0)\<lparr>cells := m\<rparr>],
      n_staging_area := n\<rparr> \<and>
    (let ws = sectors s0 ! write_ix s0 in
     length m = length (cells ws) \<and> unat (index ws) + unat n \<le> unat (n_data ws) \<and>
     (\<forall>j < unat (index ws). field_at m j = field_at (cells ws) j) \<and>
     (\<forall>j. unat (index ws) \<le> j \<and> j < unat (n_data ws) \<longrightarrow> field_at m j \<noteq> fs_code VALID)))"

lemma during_ixs:
  assumes "during s0 s"
  shows "read_ix s = read_ix s0" "write_ix s = write_ix s0" "n_valid s = n_valid s0"
    "read_sector s = read_sector s0"
  using assms by (auto simp: during_def read_ix_def write_ix_def)

lemma during_boots:
  assumes rdy: "nvm_ready s0" and du: "during s0 s"
  shows "boots_to s (nvm_block s0)" "nvm_block s = nvm_block s0" "two_sectors s"
proof -
  have two0: "two_sectors s0" using rdy by (simp add: nvm_ready_def)
  note g = geometry_ixs [OF two0]
  let ?rs = "sectors s0 ! read_ix s0" and ?ws = "sectors s0 ! write_ix s0"
  obtain m n where s: "s = s0\<lparr>sectors := (sectors s0)[write_ix s0 := ?ws\<lparr>cells := m\<rparr>], n_staging_area := n\<rparr>"
    and len: "length m = length (cells ?ws)"
    and below: "\<forall>j < unat (index ?ws). field_at m j = field_at (cells ?ws) j"
    and above: "\<forall>j. unat (index ?ws) \<le> j \<and> j < unat (n_data ?ws) \<longrightarrow> field_at m j \<noteq> fs_code VALID"
    using du by (auto simp: during_def Let_def simp del: fs_code.simps)
  let ?w = "?ws\<lparr>cells := m\<rparr>"
  have geo: "geometry ?w" using g(2) len by (simp add: geometry_def)
  have at: "sectors s ! read_ix s = ?rs" "sectors s ! write_ix s = ?w"
    using g du during_ixs [OF du] by (simp_all add: s)
  show two: "two_sectors s"
    using read_write_ix [OF two0] two0 geo unfolding s two_sectors_def by auto
  show "nvm_block s = nvm_block s0"
    using at(1) by (simp add: nvm_block_def during_ixs [OF du])
  obtain t v where tv: "top_state ?w t v" using top_state_exists [OF geo] by blast
  let ?i = "unat (index ?ws)" and ?R = "unat (n_reserved ?ws)" and ?N = "unat (n_data ?ws)"
  have W: "top_state ?ws ?i (top_val ?ws)" "top_val ?ws \<noteq> fs_code VALID"
    and R: "top_state ?rs (unat (index ?rs)) (top_val ?rs)"
      "valid_run ?rs (unat (index ?rs) - unat (n_valid s0)) (unat (index ?rs))"
    using rdy by (simp_all add: nvm_ready_def Let_def)
  have "v \<noteq> fs_code VALID"
  proof (cases "t = ?R")
    case True
    with tv show ?thesis by (simp add: top_state_def)
  next
    case False
    with tv have v: "v = field_at m (t - 1)" "?R < t" "t \<le> ?N"
      by (simp_all add: top_state_def del: fs_code.simps)
    show ?thesis
    proof (cases "?i < t")
      case True
      then have k: "?i \<le> t - 1" "t - 1 < ?N" using v by linarith+
      show ?thesis using above [rule_format, OF conjI [OF k]] v(1) by (simp only: not_False_eq_True)
    next
      case F: False
      have "t = ?i"
      proof (rule ccontr)
        assume "t \<noteq> ?i"
        with F v have i: "?i \<noteq> ?R" "t \<le> ?i - 1" "?i - 1 < ?i" by linarith+
        moreover have "?i \<le> ?N" using W(1) by (simp add: top_state_def)
        ultimately have "field_at m (?i - 1) = fs_code ERASED"
          using tv unfolding top_state_def by simp
        moreover have "field_at m (?i - 1) = field_at (cells ?ws) (?i - 1)" using below i by blast
        ultimately show False using W(1) i(1) unfolding top_state_def by metis
      qed
      then have "?i \<noteq> ?R" "?i - 1 < ?i" "v = field_at m (?i - 1)" using v by simp_all
      moreover from this have "field_at m (?i - 1) = field_at (cells ?ws) (?i - 1)" using below by blast
      ultimately show ?thesis using top_state_val [OF W(1)] W(2) by simp
    qed
  qed
  from boots_read [OF two, unfolded at, OF R tv this] show "boots_to s (nvm_block s0)"
    by (simp add: nvm_block_def Let_def)
qed

subsection \<open>The steps of a transaction\<close>

lemma alloc_frame_cells:
  assumes "geometry sec" "alloc_frame st sec sec' lo hi" "hi \<le> unat (n_data sec)"
    "8 * unat (n_reserved sec) \<le> b"
  shows "cells sec' ! b = cells sec ! b"
proof (rule cells_eq_fields)
  fix j assume "4 * b \<le> j"
  then have "hi \<le> j" using assms(1,3,4) by (simp add: geometry_def)
  then show "field_at (cells sec') j = field_at (cells sec) j"
    using assms(2) by (simp add: alloc_frame_def)
qed

lemma data_frame_fields:
  assumes "geometry sec" "data_frame sec sec' lo hi" "8 * unat (n_reserved sec) \<le> lo"
    "j < unat (n_data sec)"
  shows "field_at (cells sec') j = field_at (cells sec) j"
proof -
  have "j div 4 < 8 * unat (n_reserved sec)" "j div 4 < length (cells sec)"
    using assms(1,4) by (auto simp: geometry_def)
  then show ?thesis using assms(2,3) by (simp add: field_at_def data_frame_def)
qed

definition staged :: "nvm \<Rightarrow> bool" where
  "staged s \<longleftrightarrow> (let ws = sectors s ! write_ix s; i = unat (index ws); n = unat (n_staging_area s) in
     i + n < unat (n_data ws) \<and>
     (\<forall>j. i \<le> j \<and> j < i + n \<longrightarrow> field_at (cells ws) j = fs_code INVALID) \<and>
     (\<forall>j. i + n \<le> j \<and> j < unat (n_data ws) \<longrightarrow> field_at (cells ws) j = fs_code ERASED))"

text \<open>A field that was erased and then (partly) marked invalid is not valid.\<close>

lemma marked_not_valid: "fs_code ERASED AND (fs_code INVALID OR x) \<noteq> fs_code VALID"
proof
  assume "fs_code ERASED AND (fs_code INVALID OR x) = fs_code VALID"
  then have "bit (3 AND (1 OR x) :: u8) 0 = bit (0 :: u8) 0" by simp
  then show False by (simp add: bit_and_iff bit_or_iff)
qed

lemma ready_W:
  assumes "nvm_ready s"
  defines "ws \<equiv> sectors s ! write_ix s"
  shows "geometry ws" "unat (n_reserved ws) \<le> unat (index ws)" "unat (index ws) \<le> unat (n_data ws)"
    "\<And>j. unat (index ws) \<le> j \<Longrightarrow> j < unat (n_data ws) \<Longrightarrow> field_at (cells ws) j = fs_code ERASED"
    "blank_above ws" "32 * unat (n_data ws) < 2 ^ 32" "top_state ws (unat (index ws)) (top_val ws)"
    "top_val ws \<noteq> fs_code VALID"
proof -
  have two: "two_sectors s" using assms by (simp add: nvm_ready_def)
  show "geometry ws" using geometry_ixs [OF two] by (simp add: ws_def)
  then show "32 * unat (n_data ws) < 2 ^ 32" by (simp add: geometry_def)
  show top: "top_state ws (unat (index ws)) (top_val ws)" and "top_val ws \<noteq> fs_code VALID" "blank_above ws"
    using assms by (simp_all add: nvm_ready_def Let_def)
  from top show "unat (n_reserved ws) \<le> unat (index ws)" "unat (index ws) \<le> unat (n_data ws)"
    "\<And>j. unat (index ws) \<le> j \<Longrightarrow> j < unat (n_data ws) \<Longrightarrow> field_at (cells ws) j = fs_code ERASED"
    unfolding top_state_def by blast+
qed

lemma during_refl:
  assumes "nvm_ready s"
  shows "during s s"
proof -
  note W = ready_W [OF assms]
  have "n_staging_area s = 0" using assms by (simp add: nvm_ready_def)
  then have "s = s\<lparr>sectors := (sectors s)[write_ix s :=
      (sectors s ! write_ix s)\<lparr>cells := cells (sectors s ! write_ix s)\<rparr>], n_staging_area := 0\<rparr>"
    by (cases s) simp
  moreover have "\<forall>j. unat (index (sectors s ! write_ix s)) \<le> j \<and> j < unat (n_data (sectors s ! write_ix s)) \<longrightarrow>
      field_at (cells (sectors s ! write_ix s)) j \<noteq> fs_code VALID"
    using W(4) by simp
  ultimately show ?thesis
    unfolding during_def Let_def using W(3)
    by (intro exI [of _ "cells (sectors s ! write_ix s)"] exI [of _ 0] conjI) simp_all
qed

definition stage_len :: "u32 \<Rightarrow> u32" where
  "stage_len len = drop_bit 3 (len + 7)"

lemma start_write_no_erase:
  assumes ws: "ws = sectors s ! write_ix s"
    and guards: "\<not> stage_len len > n_data ws - n_reserved ws" "\<not> stage_len len > n_data ws - index ws"
  shows "NVM_start_write s len h = do {
      (st, target, h) \<leftarrow> set_allocation_state ws (index ws) (stage_len len) INVALID h;
      let s = s\<lparr>sectors := (sectors s)[write_ix s := target]\<rparr>;
      Some (if st \<noteq> 0 then (st, s, h) else (0, s\<lparr>n_staging_area := stage_len len\<rparr>, h)) }"
  using guards by (simp add: NVM_start_write_def Let_def ws flip: stage_len_def)

lemma start_write_room:
  assumes rdy: "nvm_ready s" and room: "unat (index ws) + unat (stage_len len) \<le> unat (n_data ws)"
    and ws: "ws = sectors s ! write_ix s"
  shows "\<exists>st s' h'. NVM_start_write s len h = Some (st, s', h') \<and> hal_step h h' \<and> during s s' \<and>
    (st = 0 \<and> hal_honest h \<longrightarrow> staged s' \<and> n_staging_area s' = stage_len len \<and>
       blank_above (sectors s' ! write_ix s')) \<and>
    (hal_ok h \<longrightarrow> (st = 0 \<longleftrightarrow> unat (index ws) + unat (stage_len len) < unat (n_data ws)))"
proof -
  let ?L = "stage_len len"
  note W = ready_W [OF rdy, folded ws]
  have two: "two_sectors s" using rdy by (simp add: nvm_ready_def)
  note g = geometry_ixs [OF two]
  have NR: "n_reserved ws \<le> n_data ws" "index ws \<le> n_data ws" using W(1,2,3) by (simp_all add: word_le_nat_alt)
  have guards: "\<not> ?L > n_data ws - n_reserved ws" "\<not> ?L > n_data ws - index ws"
    using room W(2,3) NR by (simp_all add: word_less_nat_alt unat_sub)
  note unf = start_write_no_erase [OF ws guards, of h]
  show ?thesis
  proof (cases "unat (index ws) + unat ?L < unat (n_data ws)")
    case False
    then have "n_data ws \<le> index ws + ?L" "\<not> index ws < n_reserved ws"
      using room W(2,6) by (simp_all add: word_le_nat_alt word_less_nat_alt unat_word_ariths)
    then have "NVM_start_write s len h = Some (- 1, s, h)"
      using g by (simp add: unf set_allocation_state_def Let_def ws)
    with False during_refl [OF rdy] show ?thesis by auto
  next
    case True
    obtain st ws' h' where S: "set_allocation_state ws (index ws) ?L INVALID h = Some (st, ws', h')"
      and H: "hal_step h h'" "hal_ok h \<longrightarrow> st = 0"
      and F: "alloc_frame INVALID ws ws' (unat (index ws)) (unat (index ws) + unat ?L)"
      and C: "st = 0 \<and> hal_honest h \<longrightarrow> alloc_set ws ws' (unat (index ws)) (unat (index ws) + unat ?L) INVALID"
      using set_allocation_state_spec [OF W(1,2) True, of INVALID h] by blast
    have ws': "ws' = ws\<lparr>cells := cells ws'\<rparr>" "length (cells ws') = length (cells ws)"
      using F by (simp_all only: alloc_frame_def)
    let ?s = "s\<lparr>sectors := (sectors s)[write_ix s := ws']\<rparr>"
    let ?s' = "if st \<noteq> 0 then ?s else ?s\<lparr>n_staging_area := ?L\<rparr>"
    have R: "NVM_start_write s len h = Some (st, ?s', h')" by (simp add: unf S)
    have nv: "field_at (cells ws') j \<noteq> fs_code VALID"
      if "unat (index ws) \<le> j" "j < unat (n_data ws)" for j
    proof (cases "j < unat (index ws) + unat ?L")
      case True
      with that F obtain x where "field_at (cells ws') j = field_at (cells ws) j AND (fs_code INVALID OR x)"
        unfolding alloc_frame_def by blast
      then show ?thesis using W(4) [OF that] marked_not_valid by (simp del: fs_code.simps)
    next
      case False
      with F have "field_at (cells ws') j = field_at (cells ws) j" by (simp add: alloc_frame_def)
      then show ?thesis using W(4) [OF that] by simp
    qed
    have below: "\<forall>j < unat (index ws). field_at (cells ws') j = field_at (cells ws) j"
      using F by (simp add: alloc_frame_def)
    have n0: "s\<lparr>n_staging_area := 0\<rparr> = s" using rdy by (cases s) (simp add: nvm_ready_def)
    have "?s' = s\<lparr>sectors := (sectors s)[write_ix s := ws\<lparr>cells := cells ws'\<rparr>],
        n_staging_area := if st \<noteq> 0 then 0 else ?L\<rparr>"
      unfolding ws'(1) [symmetric] using n0 by (cases s) simp
    then have "during s ?s'"
      unfolding during_def Let_def ws [symmetric]
      using ws'(2) below nv room W(3)
      by (intro exI [of _ "cells ws'"] exI [of _ "if st \<noteq> 0 then 0 else ?L"] conjI)
        (simp_all del: fs_code.simps)
    moreover have "staged ?s' \<and> n_staging_area ?s' = ?L \<and> blank_above (sectors ?s' ! write_ix ?s')"
      if "st = 0" "hal_honest h"
    proof -
      have at: "sectors ?s' ! write_ix ?s' = ws'" using g that by (simp add: write_ix_def)
      have ix: "index ws' = index ws" "n_data ws' = n_data ws" by (subst ws'(1), simp)+
      have "staged ?s'"
        unfolding staged_def Let_def at ix
      proof (intro conjI allI impI)
        show "unat (index ws) + unat (n_staging_area ?s') < unat (n_data ws)" using True that by simp
        fix j assume j: "unat (index ws) \<le> j \<and> j < unat (index ws) + unat (n_staging_area ?s')"
        then have "j < unat (n_data ws)" "unat (index ws) \<le> j" using True that by simp_all
        then have "field_at (cells ws) j = fs_code ERASED" by (rule W(4) [rotated])
        moreover have "field_at (cells ws') j = field_at (cells ws) j AND fs_code INVALID"
          using C j that unfolding alloc_set_def by simp
        ultimately show "field_at (cells ws') j = fs_code INVALID" by simp
      next
        fix j assume j: "unat (index ws) + unat (n_staging_area ?s') \<le> j \<and> j < unat (n_data ws)"
        then have "field_at (cells ws') j = field_at (cells ws) j"
          using F that unfolding alloc_frame_def by simp
        with j W(4) [of j] show "field_at (cells ws') j = fs_code ERASED" by simp
      qed
      moreover have "blank_above ws'"
        unfolding blank_above_def ix
      proof (intro allI impI)
        fix b assume b: "b < length (cells ws')" "data_off (index ws) \<le> b"
        then have "8 * unat (n_reserved ws) \<le> b" using W(2) by (simp add: data_off_def)
        with alloc_frame_cells [OF W(1) F] True have "cells ws' ! b = cells ws ! b" by simp
        then show "cells ws' ! b = 0xFF" using W(5) b ws'(2) by (simp add: blank_above_def)
      qed
      ultimately show ?thesis using at that by simp
    qed
    ultimately show ?thesis using R H True by blast
  qed
qed

definition erased_w :: "nvm \<Rightarrow> nvm" where
  "erased_w s = s\<lparr>sectors := (sectors s)[write_ix s := (sectors s ! write_ix s)
     \<lparr>cells := replicate (length (cells (sectors s ! write_ix s))) 0xFF,
      index := n_reserved (sectors s ! write_ix s)\<rparr>]\<rparr>"

lemma field_at_blank: "j < 4 * n \<Longrightarrow> field_at (replicate n 0xFF) j = fs_code ERASED"
proof -
  assume "j < 4 * n"
  then have "field_at (replicate n 0xFF) j = fld 0xFF (j mod 4)" by (simp add: field_at_def)
  moreover have "fld 0xFF k = 3" if "k < 4" for k using that by (auto simp: nat_less_4 fld_def)
  ultimately show ?thesis by simp
qed

lemma erased_w_ready:
  assumes "nvm_ready s"
  shows "nvm_ready (erased_w s)" "nvm_block (erased_w s) = nvm_block s"
    "sectors (erased_w s) ! read_ix s = sectors s ! read_ix s"
proof -
  have two: "two_sectors s" using assms by (simp add: nvm_ready_def)
  note g = geometry_ixs [OF two]
  let ?rs = "sectors s ! read_ix s" and ?ws = "sectors s ! write_ix s"
  let ?w = "?ws\<lparr>cells := replicate (length (cells ?ws)) 0xFF, index := n_reserved ?ws\<rparr>"
  have geo: "geometry ?w" using g(2) by (simp add: geometry_def)
  have ix: "read_ix (erased_w s) = read_ix s" "write_ix (erased_w s) = write_ix s" by (simp_all add: erased_w_def)
  have at: "sectors (erased_w s) ! read_ix s = ?rs" "sectors (erased_w s) ! write_ix s = ?w"
    using g by (simp_all add: erased_w_def)
  then show "sectors (erased_w s) ! read_ix s = ?rs" by simp
  have two': "two_sectors (erased_w s)"
    using read_write_ix [OF two] two geo unfolding erased_w_def two_sectors_def by auto
  have fields: "field_at (cells ?w) j = fs_code ERASED" if "j < unat (n_data ?ws)" for j
    using field_at_blank [of j "length (cells ?ws)"] that g(2) by (simp add: geometry_def)
  have "unat (n_reserved ?ws) \<le> unat (n_data ?ws)" using g(2) by (simp add: geometry_def)
  then have "top_state ?w (unat (index ?w)) (top_val ?w)" "top_val ?w \<noteq> fs_code VALID"
    using fields by (simp_all add: top_state_def top_val_def)
  moreover have "blank_above ?w" by (simp add: blank_above_def)
  ultimately show "nvm_ready (erased_w s)"
    using assms two' unfolding nvm_ready_def Let_def ix at by (simp add: erased_w_def)
  show "nvm_block (erased_w s) = nvm_block s"
    unfolding nvm_block_def ix at by (simp add: erased_w_def)
qed

lemma start_write_erase:
  assumes rdy: "nvm_ready s" and ws: "ws = sectors s ! write_ix s"
    and big: "unat (n_data ws) < unat (index ws) + unat (stage_len len)"
    and fits: "unat (n_reserved ws) + unat (stage_len len) \<le> unat (n_data ws)"
    and pop: "hal_pop h = (HalOk, h1)"
  shows "NVM_start_write s len h = NVM_start_write (erased_w s) len h1"
proof -
  let ?L = "stage_len len"
  note W = ready_W [OF rdy, folded ws]
  have two: "two_sectors s" using rdy by (simp add: nvm_ready_def)
  note g = geometry_ixs [OF two]
  have NR: "n_reserved ws \<le> n_data ws" "index ws \<le> n_data ws" using W(1,2,3) by (simp_all add: word_le_nat_alt)
  have guards: "\<not> ?L > n_data ws - n_reserved ws" "?L > n_data ws - index ws"
    using big fits W(2,3) NR by (simp_all add: word_less_nat_alt unat_sub)
  have at: "sectors (erased_w s) ! write_ix s =
      ws\<lparr>cells := replicate (length (cells ws)) 0xFF, index := n_reserved ws\<rparr>" "write_ix (erased_w s) = write_ix s"
    using g by (simp_all add: erased_w_def ws)
  let ?w = "sectors (erased_w s) ! write_ix (erased_w s)"
  have g': "\<not> stage_len len > n_data ?w - n_reserved ?w" "\<not> stage_len len > n_data ?w - index ?w"
    using guards(1) at by simp_all
  have "NVM_start_write s len h = do {
      (st, target, h) \<leftarrow> set_allocation_state ?w (index ?w) (stage_len len) INVALID h1;
      let s = (erased_w s)\<lparr>sectors := (sectors (erased_w s))[write_ix (erased_w s) := target]\<rparr>;
      Some (if st \<noteq> 0 then (st, s, h) else (0, s\<lparr>n_staging_area := stage_len len\<rparr>, h)) }"
    unfolding at using guards pop g
    by (simp add: NVM_start_write_def Let_def erase_def erased_w_def flip: ws stage_len_def)
  then show ?thesis using start_write_no_erase [OF refl g', of h1] by simp
qed

lemma start_write_ok:
  assumes rdy: "nvm_ready s" and hon: "hal_honest h" and st: "NVM_start_write s len h = Some (0, s', h')"
  obtains s1 where "nvm_ready s1" "nvm_block s1 = nvm_block s" "during s1 s'" "staged s'"
    "n_staging_area s' = stage_len len" "blank_above (sectors s' ! write_ix s')" "hal_honest h'"
    "hal_ok h \<Longrightarrow> hal_ok h'" "sectors s1 ! read_ix s1 = sectors s ! read_ix s" "read_sector s1 = read_sector s"
    "n_valid s1 = n_valid s"
proof -
  define ws where "ws = sectors s ! write_ix s"
  let ?L = "unat (stage_len len)"
  note W = ready_W [OF rdy, folded ws_def]
  have NR: "n_reserved ws \<le> n_data ws" "index ws \<le> n_data ws" using W(1,2,3) by (simp_all add: word_le_nat_alt)
  have fits: "unat (n_reserved ws) + ?L \<le> unat (n_data ws)"
  proof (rule ccontr)
    assume "\<not> ?thesis"
    then have "stage_len len > n_data ws - n_reserved ws"
      using NR W(2,3) by (simp add: word_less_nat_alt unat_sub)
    then have "NVM_start_write s len h = Some (- 1, s, h)"
      by (simp add: NVM_start_write_def Let_def ws_def stage_len_def)
    with st show False by simp
  qed
  show ?thesis
  proof (cases "unat (index ws) + ?L \<le> unat (n_data ws)")
    case True
    from start_write_room [OF rdy True ws_def, of h] st hon show ?thesis
      by (intro that [of s] rdy refl) (auto simp: hal_step_def)
  next
    case False
    obtain r h1 where pop: "hal_pop h = (r, h1)" by fastforce
    have r: "r = HalOk"
    proof (cases r)
      case (HalFail e junk)
      have "sint e \<noteq> 0" using hal_pop_script(3) [OF pop hon] by (simp add: HalFail hal_status_def)
      moreover have "stage_len len > n_data ws - index ws" "\<not> stage_len len > n_data ws - n_reserved ws"
        using False fits NR W(2,3) by (simp_all add: word_less_nat_alt unat_sub)
      ultimately have "NVM_start_write s len h \<noteq> Some (0, s', h')"
        using pop HalFail by (simp add: NVM_start_write_def Let_def erase_def flip: ws_def stage_len_def)
      with st show ?thesis by simp
    qed
    let ?s = "erased_w s" and ?w = "sectors (erased_w s) ! write_ix (erased_w s)"
    have two: "two_sectors s" using rdy by (simp add: nvm_ready_def)
    note g = geometry_ixs [OF two]
    have w: "index ?w = n_reserved ws" "n_data ?w = n_data ws" using g by (simp_all add: erased_w_def ws_def)
    have S: "NVM_start_write ?s len h1 = Some (0, s', h')"
      using start_write_erase [OF rdy ws_def _ fits pop [unfolded r]] False st by simp
    have room: "unat (index ?w) + unat (stage_len len) \<le> unat (n_data ?w)" using fits w by simp
    note E = erased_w_ready [OF rdy]
    have hs: "hal_step h h1" "hal_honest h1" using hal_step_pop [OF pop] hon by (simp_all add: hal_step_def)
    from start_write_room [OF E(1) room refl, of h1] S hs E(2,3) show ?thesis
      by (intro that [of ?s] E(1)) (auto simp: hal_step_def erased_w_def)
  qed
qed

text \<open>A sequence of \<open>NVM_write\<close> calls whose statuses the caller ignores.\<close>

fun nvm_writes :: "nvm \<Rightarrow> (u32 \<times> u8 list) list \<Rightarrow> hal \<Rightarrow> (nvm \<times> hal) option" where
  "nvm_writes s [] h = Some (s, h)"
| "nvm_writes s ((off, data) # ws) h = do {
     (st, s, h) \<leftarrow> NVM_write s off data (of_nat (length data)) h;
     nvm_writes s ws h
   }"

lemma during_W:
  assumes rdy: "nvm_ready s0" and du: "during s0 s"
  defines "ws \<equiv> sectors s ! write_ix s"
  shows "geometry ws" "unat (n_reserved ws) \<le> unat (index ws)"
    "unat (index ws) + unat (n_staging_area s) \<le> unat (n_data ws)"
    "unat (push_bit 3 (n_staging_area s)) = 8 * unat (n_staging_area s)"
    "index ws = index (sectors s0 ! write_ix s0)" "sectors s ! read_ix s = sectors s0 ! read_ix s0"
    "length (cells ws) < 2 ^ 32" "length (cells ws) = 8 * unat (n_data ws)"
    "top_state ws (unat (index ws)) (top_val (sectors s0 ! write_ix s0)) \<or> 0 < unat (n_data ws) - unat (index ws)"
proof -
  have two0: "two_sectors s0" using rdy by (simp add: nvm_ready_def)
  note g = geometry_ixs [OF two0] and W = ready_W [OF rdy]
  let ?ws = "sectors s0 ! write_ix s0"
  obtain m n where s: "s = s0\<lparr>sectors := (sectors s0)[write_ix s0 := ?ws\<lparr>cells := m\<rparr>], n_staging_area := n\<rparr>"
    and len: "length m = length (cells ?ws)" and n: "unat (index ?ws) + unat n \<le> unat (n_data ?ws)"
    and below: "\<forall>j < unat (index ?ws). field_at m j = field_at (cells ?ws) j"
    using du by (auto simp: during_def Let_def simp del: fs_code.simps)
  have ws: "ws = ?ws\<lparr>cells := m\<rparr>" using g by (simp add: s ws_def)
  show "geometry ws" using W(1) len by (simp add: ws geometry_def)
  then show "length (cells ws) < 2 ^ 32" "length (cells ws) = 8 * unat (n_data ws)" by (simp_all add: geometry_def)
  show "unat (n_reserved ws) \<le> unat (index ws)" using W(2) by (simp add: ws)
  show sn: "unat (index ws) + unat (n_staging_area s) \<le> unat (n_data ws)" using n by (simp add: ws s)
  then show "unat (push_bit 3 (n_staging_area s)) = 8 * unat (n_staging_area s)"
    using W(6) by (simp add: ws push_bit_eq_mult unat_word_ariths)
  show "index ws = index (sectors s0 ! write_ix s0)" by (simp add: ws)
  show "sectors s ! read_ix s = sectors s0 ! read_ix s0" using g by (simp add: s)
  show "top_state ws (unat (index ws)) (top_val ?ws) \<or> 0 < unat (n_data ws) - unat (index ws)"
  proof (cases "unat (index ws) < unat (n_data ws)")
    case False
    then show ?thesis using W(2,3,7) below unfolding ws top_state_def by auto
  qed simp
qed

lemma write_during:
  assumes rdy: "nvm_ready s0" and du: "during s0 s" and nowrap: "unat off + length data < 2 ^ 32"
  shows "\<exists>st s' h'. NVM_write s off data (of_nat (length data)) h = Some (st, s', h') \<and>
    hal_step h h' \<and> during s0 s' \<and> n_staging_area s' = n_staging_area s \<and> (staged s \<longrightarrow> staged s') \<and>
    (unat off + length data \<le> 8 * unat (n_staging_area s) \<longrightarrow>
      (hal_ok h \<longrightarrow> st = 0) \<and> (st = 0 \<and> hal_honest h \<longrightarrow> cells (sectors s' ! write_ix s') =
        and_at (cells (sectors s ! write_ix s)) (data_off (index (sectors s ! write_ix s)) + unat off) data))"
proof -
  let ?ws = "sectors s ! write_ix s" and ?len = "of_nat (length data) :: u32"
  note W = during_W [OF rdy du]
  have two: "two_sectors s" by (rule during_boots(3) [OF rdy du])
  note g = geometry_ixs [OF two]
  have ul: "unat ?len = length data" using nowrap by (simp add: unsigned_of_nat take_bit_nat_eq_self)
  have guard: "off + ?len > push_bit 3 (n_staging_area s) \<longleftrightarrow>
      8 * unat (n_staging_area s) < unat off + length data"
    using nowrap by (simp add: word_less_nat_alt W(4) unat_word_ariths ul)
  show ?thesis
  proof (cases "8 * unat (n_staging_area s) < unat off + length data")
    case True
    then have "NVM_write s off data ?len h = Some (- 1, s, h)" by (simp add: NVM_write_def guard)
    then show ?thesis using du True by auto
  next
    case False
    let ?lo = "data_off (index ?ws) + unat off"
    have fit: "?lo + length data \<le> length (cells ?ws)"
      using False W(3,8) by (simp add: data_off_def)
    obtain st ws' h' where S: "nvm_write_sector ?ws (unat off) data h = Some (st, ws', h')"
      and H: "hal_step h h'" "hal_ok h \<longrightarrow> st = 0"
      and F: "data_frame ?ws ws' ?lo (?lo + length data)"
      and C: "st = 0 \<and> hal_honest h \<longrightarrow> cells ws' = and_at (cells ?ws) ?lo data"
      using nvm_write_sector_spec [OF W(7) fit, of h] by blast
    let ?s = "s\<lparr>sectors := (sectors s)[write_ix s := ws']\<rparr>"
    have "mread data 0 (uint ?len) = Some data"
      using mread_of_nat [of 0 "length data" data] ul by simp
    then have R: "NVM_write s off data ?len h = Some (st, ?s, h')"
      using False S by (simp add: NVM_write_sector guard)
    have low: "8 * unat (n_reserved ?ws) \<le> ?lo" using W(2) by (simp add: data_off_def)
    have fld: "field_at (cells ws') j = field_at (cells ?ws) j" if "j < unat (n_data ?ws)" for j
      by (rule data_frame_fields [OF W(1) F low that])
    have ws': "?ws\<lparr>cells := cells ws'\<rparr> = ws'" "length (cells ws') = length (cells ?ws)"
      using F unfolding data_frame_def by metis+
    have ix: "index ws' = index ?ws" "n_data ws' = n_data ?ws" by (subst ws'(1) [symmetric], simp)+
    have at: "sectors ?s ! write_ix ?s = ws'" using g by simp
    have "staged s \<longrightarrow> staged ?s"
      unfolding staged_def Let_def at ix using fld by simp
    moreover have "during s0 ?s"
    proof -
      let ?wo = "sectors s0 ! write_ix s0"
      obtain m n where s: "s = s0\<lparr>sectors := (sectors s0)[write_ix s0 := ?wo\<lparr>cells := m\<rparr>], n_staging_area := n\<rparr>"
        and m: "length m = length (cells ?wo)" "unat (index ?wo) + unat n \<le> unat (n_data ?wo)"
        "\<forall>j < unat (index ?wo). field_at m j = field_at (cells ?wo) j"
        "\<forall>j. unat (index ?wo) \<le> j \<and> j < unat (n_data ?wo) \<longrightarrow> field_at m j \<noteq> fs_code VALID"
        using du by (auto simp: during_def Let_def simp del: fs_code.simps)
      have l0: "write_ix s0 < length (sectors s0)"
        using geometry_ixs [of s0] rdy by (simp add: nvm_ready_def)
      have wx1: "write_ix s = write_ix s0" by (subst s) simp
      have "sectors s = (sectors s0)[write_ix s0 := ?wo\<lparr>cells := m\<rparr>]" by (subst s) simp
      then have "?ws = ?wo\<lparr>cells := m\<rparr>" using l0 by (simp only: wx1 nth_list_update_eq)
      note wx = wx1 this
      have eq: "?s = s0\<lparr>sectors := (sectors s0)[write_ix s0 := ?wo\<lparr>cells := cells ws'\<rparr>], n_staging_area := n\<rparr>"
      proof -
        have "?wo\<lparr>cells := cells ws'\<rparr> = ws'" using ws'(1) unfolding wx(2) by simp
        then show ?thesis by (simp add: s)
      qed
      have "index ?wo \<le> n_data ?wo" using ready_W(3) [OF rdy] by (simp add: word_le_nat_alt)
      then have "\<forall>j < unat (index ?wo). field_at (cells ws') j = field_at (cells ?wo) j"
        using fld m(3) unfolding wx(2) by (auto simp: word_le_nat_alt)
      moreover have "\<forall>j. unat (index ?wo) \<le> j \<and> j < unat (n_data ?wo) \<longrightarrow> field_at (cells ws') j \<noteq> fs_code VALID"
        using fld m(4) unfolding wx(2) by simp
      moreover have "length (cells ws') = length (cells ?wo)" using ws'(2) m(1) unfolding wx(2) by simp
      ultimately show ?thesis unfolding during_def Let_def using eq m(2) by blast
    qed
    ultimately show ?thesis using R H C at by auto
  qed
qed

lemma writes_during:
  assumes "nvm_ready s0" "\<forall>(off, data) \<in> set ws. unat off + length data < 2 ^ 32"
  shows "during s0 s \<Longrightarrow> \<exists>s' h'. nvm_writes s ws h = Some (s', h') \<and> hal_step h h' \<and> during s0 s' \<and>
    n_staging_area s' = n_staging_area s \<and> (staged s \<longrightarrow> staged s')"
  using assms(2)
proof (induction ws arbitrary: s h)
  case (Cons w ws)
  obtain off data where w: "w = (off, data)" by fastforce
  with Cons.prems obtain st s1 h1 where 1: "NVM_write s off data (of_nat (length data)) h = Some (st, s1, h1)"
    "hal_step h h1" "during s0 s1" "n_staging_area s1 = n_staging_area s" "staged s \<longrightarrow> staged s1"
    using write_during [OF assms(1), of s off data h] by auto
  obtain s' h' where "nvm_writes s1 ws h1 = Some (s', h')" "hal_step h1 h'" "during s0 s'"
    "n_staging_area s' = n_staging_area s1" "staged s1 \<longrightarrow> staged s'"
    using Cons.IH [OF 1(3), of h1] Cons.prems by auto
  with 1 w show ?case using hal_step_trans by auto
qed simp

subsection \<open>Committing\<close>

lemma boots_to_vars [simp]:
  "boots_to (s\<lparr>read_sector := r\<rparr>) xs = boots_to s xs" "boots_to (s\<lparr>n_valid := n\<rparr>) xs = boots_to s xs"
  "boots_to (s\<lparr>n_staging_area := n\<rparr>) xs = boots_to s xs"
  by (simp_all add: boots_to_def NVM_init_def Let_def read_ix_def)

lemma during_pre:
  assumes rdy: "nvm_ready s0" and du: "during s0 s"
  defines "ws \<equiv> sectors s ! write_ix s"
  defines "f \<equiv> field_at (cells ws) (unat (index ws) - 1)"
  shows "unat (index ws) = unat (n_reserved ws) \<or> f \<noteq> fs_code VALID \<and> f \<noteq> fs_code ERASED"
proof (cases "unat (index ws) = unat (n_reserved ws)")
  case False
  note W0 = ready_W [OF rdy] and W = during_W [OF rdy du, folded ws_def]
  let ?wo = "sectors s0 ! write_ix s0"
  obtain m q where s: "s = s0\<lparr>sectors := (sectors s0)[write_ix s0 := ?wo\<lparr>cells := m\<rparr>], n_staging_area := q\<rparr>"
    and below: "\<forall>j < unat (index ?wo). field_at m j = field_at (cells ?wo) j"
    using du by (auto simp: during_def Let_def simp del: fs_code.simps)
  have l0: "write_ix s0 < length (sectors s0)"
    using geometry_ixs [of s0] rdy by (simp add: nvm_ready_def)
  have wx1: "write_ix s = write_ix s0" by (subst s) simp
  have "sectors s = (sectors s0)[write_ix s0 := ?wo\<lparr>cells := m\<rparr>]" by (subst s) simp
  then have w: "ws = ?wo\<lparr>cells := m\<rparr>" using l0 by (simp only: ws_def wx1 nth_list_update_eq)
  have i: "unat (index ws) = unat (index ?wo)" "unat (index ?wo) \<noteq> unat (n_reserved ?wo)"
    using False by (simp_all add: w)
  then have "unat (index ?wo) - 1 < unat (index ?wo)" using W0(2) by linarith
  then have "f = field_at (cells ?wo) (unat (index ?wo) - 1)"
    using below by (simp add: f_def w)
  then show ?thesis using top_state_val [OF W0(7) i(2)] W0(8) by metis
qed simp

text \<open>The write sector \<open>ws'\<close> after the fields were (partly) marked valid.\<close>

lemma commit_write_side:
  assumes rdy: "nvm_ready s0" and du: "during s0 s" and stg: "staged s"
    and upto: "alloc_upto VALID (sectors s ! write_ix s) ws' i (i + n)"
    and i: "i = unat (index (sectors s ! write_ix s))" and n: "n = unat (n_staging_area s)"
  shows "(\<exists>t v. top_state ws' t v \<and> v \<noteq> fs_code VALID) \<and> (0 < n \<longrightarrow> \<not> alloc_set (sectors s ! write_ix s) ws' i (i + n) VALID) \<or>
    0 < n \<and> top_state ws' (i + n) (fs_code VALID) \<and> valid_run ws' i (i + n)"
proof -
  let ?ws = "sectors s ! write_ix s"
  let ?N = "unat (n_data ?ws)" and ?R = "unat (n_reserved ?ws)"
  note W0 = ready_W [OF rdy] and W = during_W [OF rdy du]
  obtain p where p: "i \<le> p" "p \<le> i + n" and F: "alloc_frame VALID ?ws ws' i p" and S: "alloc_set ?ws ws' i p VALID"
    using upto by (auto simp: alloc_upto_def)
  have stg': "i + n < ?N" "\<And>j. i \<le> j \<Longrightarrow> j < i + n \<Longrightarrow> field_at (cells ?ws) j = fs_code INVALID"
    "\<And>j. i + n \<le> j \<Longrightarrow> j < ?N \<Longrightarrow> field_at (cells ?ws) j = fs_code ERASED"
    using stg unfolding staged_def Let_def i n by blast+
  have ws': "n_data ws' = n_data ?ws" "n_reserved ws' = n_reserved ?ws"
  proof -
    have e: "ws' = ?ws\<lparr>cells := cells ws'\<rparr>" using F by (simp only: alloc_frame_def)
    show "n_data ws' = n_data ?ws" "n_reserved ws' = n_reserved ?ws" by (subst e, simp)+
  qed
  have out: "field_at (cells ws') j = field_at (cells ?ws) j" if "j < i \<or> p \<le> j" for j
    using F that unfolding alloc_frame_def by blast
  have erased: "\<forall>j. i + n \<le> j \<and> j < unat (n_data ws') \<longrightarrow> field_at (cells ws') j = fs_code ERASED"
    using stg'(3) out p ws' by (simp del: fs_code.simps)
  have Ri: "?R \<le> i" using W(2) i by simp
  have pre: "i = ?R \<or> field_at (cells ws') (i - 1) \<noteq> fs_code VALID \<and> field_at (cells ws') (i - 1) \<noteq> fs_code ERASED"
    using during_pre [OF rdy du, folded i] out [of "i - 1"] Ri by (cases "i = ?R") auto
  show ?thesis
  proof (cases "n = 0")
    case True
    have "top_state ws' i (if i = ?R then fs_code ERASED else field_at (cells ws') (i - 1))"
      using erased pre Ri stg'(1) True ws' unfolding top_state_def by (auto simp del: fs_code.simps)
    moreover have "(if i = ?R then fs_code ERASED else field_at (cells ws') (i - 1)) \<noteq> fs_code VALID"
      using pre by auto
    ultimately show ?thesis using True by blast
  next
    case n0: False
    have last: "i \<le> i + n - 1" "i + n - 1 < i + n" "i + n \<noteq> ?R" using n0 Ri by linarith+
    show ?thesis
    proof (cases "p = i + n")
      case True
      have all: "field_at (cells ws') j = fs_code VALID" if "i \<le> j" "j < i + n" for j
        using S that True by (simp add: alloc_set_def)
      have "top_state ws' (i + n) (fs_code VALID)"
        using erased all [OF last(1,2)] last(3) Ri stg'(1) ws' unfolding top_state_def by simp
      moreover have "valid_run ws' i (i + n)"
        using all Ri stg'(1) ws' pre unfolding valid_run_def by (auto simp del: fs_code.simps)
      ultimately show ?thesis using n0 by blast
    next
      case False
      then have "p \<le> i + n - 1" using p(2) by linarith
      then have f: "field_at (cells ws') (i + n - 1) = fs_code INVALID"
        using out [of "i + n - 1"] stg'(2) [OF last(1,2)] by simp
      then have "top_state ws' (i + n) (fs_code INVALID)"
        using erased last(3) Ri stg'(1) ws' unfolding top_state_def by simp
      moreover have "\<not> alloc_set ?ws ws' i (i + n) VALID"
        using f last unfolding alloc_set_def by (metis and_zero_eq fs_code.simps(1,2) zero_neq_one)
      moreover have "fs_code INVALID \<noteq> fs_code VALID" by simp
      ultimately show ?thesis by blast
    qed
  qed
qed

text \<open>The read sector after the attempt to mark its next field invalid.\<close>

lemma commit_read_side:
  assumes geo: "geometry rs" and lt: "unat (index rs) < unat (n_data rs)"
    and top: "top_state rs (unat (index rs)) v" and run: "valid_run rs m (unat (index rs))"
  shows "\<exists>st rs' h'. set_allocation_state rs (index rs) 1 INVALID h = Some (st, rs', h') \<and> hal_step h h' \<and>
    rs' = rs\<lparr>cells := cells rs'\<rparr> \<and> length (cells rs') = length (cells rs) \<and>
    (\<forall>b. 8 * unat (n_reserved rs) \<le> b \<longrightarrow> cells rs' ! b = cells rs ! b) \<and>
    (top_state rs' (unat (index rs)) v \<and> valid_run rs' m (unat (index rs)) \<or>
     (\<exists>v'. top_state rs' (unat (index rs) + 1) v' \<and> v' \<noteq> fs_code VALID \<and>
        valid_run rs' (unat (index rs) + 1) (unat (index rs) + 1))) \<and>
    (hal_honest h \<and> st = 0 \<longrightarrow> top_state rs' (unat (index rs) + 1) (fs_code INVALID)) \<and>
    (hal_ok h \<and> unat (index rs) + 1 < unat (n_data rs) \<longrightarrow> st = 0)"
proof -
  let ?t = "unat (index rs)" and ?N = "unat (n_data rs)" and ?R = "unat (n_reserved rs)"
  have lo: "?R \<le> ?t" using top by (simp add: top_state_def)
  have er: "field_at (cells rs) j = fs_code ERASED" if "?t \<le> j" "j < ?N" for j
    using top that unfolding top_state_def by blast
  show ?thesis
  proof (cases "?t + 1 < ?N")
    case False
    have "n_data rs \<le> index rs + 1" "\<not> index rs < n_reserved rs"
      using False lt lo geo by (simp_all add: word_le_nat_alt word_less_nat_alt unat_word_ariths geometry_def)
    then have "set_allocation_state rs (index rs) 1 INVALID h = Some (- 1, rs, h)"
      by (simp add: set_allocation_state_def)
    with top run False show ?thesis by (intro exI [of _ "- 1"] exI [of _ rs] exI [of _ h]) simp
  next
    case True
    then obtain st rs' h' where S: "set_allocation_state rs (index rs) 1 INVALID h = Some (st, rs', h')"
      and H: "hal_step h h'" "hal_ok h \<longrightarrow> st = 0"
      and F: "alloc_frame INVALID rs rs' ?t (?t + 1)"
      and C: "st = 0 \<and> hal_honest h \<longrightarrow> alloc_set rs rs' ?t (?t + 1) INVALID"
      using set_allocation_state_spec [OF geo lo, of 1 INVALID h] by auto
    have rs': "rs' = rs\<lparr>cells := cells rs'\<rparr>" "length (cells rs') = length (cells rs)"
      using F by (simp_all only: alloc_frame_def)
    have ix: "n_data rs' = n_data rs" "n_reserved rs' = n_reserved rs" by (subst rs'(1), simp)+
    have out: "field_at (cells rs') j = field_at (cells rs) j" if "j \<noteq> ?t" for j
    proof -
      have "j < ?t \<or> ?t + 1 \<le> j" using that by linarith
      then show ?thesis using F unfolding alloc_frame_def by blast
    qed
    obtain x where x: "field_at (cells rs') ?t = fs_code ERASED AND (fs_code INVALID OR x)"
    proof -
      have "?t \<le> ?t \<and> ?t < ?t + 1" by simp
      then obtain x where "field_at (cells rs') ?t = field_at (cells rs) ?t AND (fs_code INVALID OR x)"
        using F unfolding alloc_frame_def by blast
      then show ?thesis using that er [OF order_refl lt] by simp
    qed
    then have nv: "field_at (cells rs') ?t \<noteq> fs_code VALID" using marked_not_valid by metis
    have er': "\<forall>j. ?t + 1 \<le> j \<and> j < unat (n_data rs') \<longrightarrow> field_at (cells rs') j = fs_code ERASED"
      using er out by (simp add: ix del: fs_code.simps)
    have marked: "top_state rs' (?t + 1) (field_at (cells rs') ?t)" if "field_at (cells rs') ?t \<noteq> fs_code ERASED"
      using er' lo lt that unfolding top_state_def ix by (simp del: fs_code.simps)
    have "top_state rs' ?t v \<and> valid_run rs' m ?t" if e: "field_at (cells rs') ?t = fs_code ERASED"
    proof -
      have same: "field_at (cells rs') j = field_at (cells rs) j" for j
        using out [of j] e er [of ?t] lt by (cases "j = ?t") simp_all
      show ?thesis using top run unfolding top_state_def valid_run_def ix same by blast
    qed
    moreover have "valid_run rs' (?t + 1) (?t + 1)"
      using lo lt nv unfolding valid_run_def ix by (auto simp del: fs_code.simps)
    moreover have "hal_honest h \<and> st = 0 \<longrightarrow> field_at (cells rs') ?t = fs_code INVALID"
      using C er [of ?t] lt by (simp add: alloc_set_def)
    moreover have "\<forall>b. 8 * ?R \<le> b \<longrightarrow> cells rs' ! b = cells rs ! b"
      using alloc_frame_cells [OF geo F] True by simp
    ultimately show ?thesis using S H rs' marked nv
      by (intro exI [of _ st] exI [of _ rs'] exI [of _ h']) fastforce
  qed
qed

lemma two_sectorsI:
  assumes "length (sectors t) = 2" "read_sector t = 0 \<or> read_sector t = 1"
    "geometry (sectors t ! read_ix t)" "geometry (sectors t ! write_ix t)"
  shows "two_sectors t"
  using assms by (auto simp: two_sectors_def read_ix_def write_ix_def)

lemma sec_bytes_cong:
  assumes "length (cells sec') = length (cells sec)" "unat (n_reserved sec) \<le> m"
    "\<forall>b. 8 * unat (n_reserved sec) \<le> b \<longrightarrow> cells sec' ! b = cells sec ! b"
  shows "sec_bytes sec' m t = sec_bytes sec m t"
  using assms by (intro nth_equalityI) (auto simp: sec_bytes_def)

lemma geometry_cells:
  "geometry sec \<Longrightarrow> length m = length (cells sec) \<Longrightarrow> geometry (sec\<lparr>cells := m\<rparr>)"
  by (simp add: geometry_def)

lemma sector_index_simps [simp]:
  "geometry (sec\<lparr>index := i\<rparr>) = geometry sec" "top_state (sec\<lparr>index := i\<rparr>) = top_state sec"
  "valid_run (sec\<lparr>index := i\<rparr>) = valid_run sec" "sec_bytes (sec\<lparr>index := i\<rparr>) = sec_bytes sec"
  by (simp_all add: geometry_def top_state_def valid_run_def sec_bytes_def fun_eq_iff)

lemma ready_R:
  assumes "nvm_ready s"
  defines "rs \<equiv> sectors s ! read_ix s"
  shows "geometry rs" "unat (index rs) < unat (n_data rs)" "unat (n_valid s) \<le> unat (index rs)"
    "top_state rs (unat (index rs)) (top_val rs)"
    "valid_run rs (unat (index rs) - unat (n_valid s)) (unat (index rs))" "blank_above rs"
    "unat (n_reserved rs) \<le> unat (index rs) - unat (n_valid s)"
proof -
  have two: "two_sectors s" using assms by (simp add: nvm_ready_def)
  show "geometry rs" using geometry_ixs [OF two] by (simp add: rs_def)
  show "unat (index rs) < unat (n_data rs)" "unat (n_valid s) \<le> unat (index rs)"
    "top_state rs (unat (index rs)) (top_val rs)" "blank_above rs"
    and run: "valid_run rs (unat (index rs) - unat (n_valid s)) (unat (index rs))"
    using assms by (simp_all add: nvm_ready_def Let_def word_less_nat_alt word_le_nat_alt)
  from run show "unat (n_reserved rs) \<le> unat (index rs) - unat (n_valid s)" by (simp add: valid_run_def)
qed

text \<open>The two ways a commit can go, with the sectors it leaves.\<close>

lemma commit_cases:
  assumes rdy: "nvm_ready s0" and du: "during s0 s" and stg: "staged s"
  defines "ws \<equiv> sectors s ! write_ix s" and "rs \<equiv> sectors s ! read_ix s"
  defines "i \<equiv> unat (index ws)" and "n \<equiv> unat (n_staging_area s)"
  obtains (failed) st ws' h' where "NVM_commit s h = Some (st, s\<lparr>sectors := (sectors s)[write_ix s := ws']\<rparr>, h')"
      "st \<noteq> 0" "\<not> hal_ok h" "alloc_frame VALID ws ws' i (i + n)" "hal_atomic h \<Longrightarrow> alloc_upto VALID ws ws' i (i + n)"
  | (marked) ws' h' st2 rs' h2 where "NVM_commit s h = Some (st2, s\<lparr>sectors :=
        (sectors s)[write_ix s := ws'\<lparr>index := index ws + n_staging_area s\<rparr>,
                    read_ix s := rs'\<lparr>index := index rs + 1\<rparr>],
        n_valid := n_staging_area s, n_staging_area := 0, read_sector := 1 - read_sector s\<rparr>, h2)"
      "set_allocation_state rs (index rs) 1 INVALID h' = Some (st2, rs', h2)" "hal_step h h'"
      "alloc_frame VALID ws ws' i (i + n)" "hal_honest h \<Longrightarrow> alloc_set ws ws' i (i + n) VALID"
      "hal_atomic h \<Longrightarrow> alloc_upto VALID ws ws' i (i + n)" "rs' = rs\<lparr>cells := cells rs'\<rparr>"
proof -
  note W = during_W [OF rdy du, folded ws_def] and R0 = ready_R [OF rdy]
  have two: "two_sectors s" by (rule during_boots(3) [OF rdy du])
  note g = geometry_ixs [OF two]
  have rs: "rs = sectors s0 ! read_ix s0"
    using W(6) during_ixs [OF du] by (simp add: rs_def)
  note R = R0 [folded rs]
  have i: "unat (n_reserved ws) \<le> i" "i + n < unat (n_data ws)"
    using W(2) stg by (simp_all add: i_def n_def staged_def Let_def ws_def)
  obtain st ws' h' where S: "set_allocation_state ws (index ws) (n_staging_area s) VALID h = Some (st, ws', h')"
    and H: "hal_step h h'" "hal_ok h \<longrightarrow> st = 0" and F: "alloc_frame VALID ws ws' i (i + n)"
    and C: "st = 0 \<and> hal_honest h \<longrightarrow> alloc_set ws ws' i (i + n) VALID"
    and U: "hal_atomic h \<longrightarrow> alloc_upto VALID ws ws' i (i + n)"
    using set_allocation_state_spec [OF W(1,2), of "n_staging_area s" VALID h] i
    unfolding i_def [symmetric] n_def [symmetric] by blast
  show ?thesis
  proof (cases "st = 0")
    case False
    then have "NVM_commit s h = Some (st, s\<lparr>sectors := (sectors s)[write_ix s := ws']\<rparr>, h')"
      using S by (simp add: NVM_commit_def Let_def flip: ws_def)
    with failed False H F U show ?thesis by blast
  next
    case True
    have lt: "index rs < n_data rs" using R(2) by (simp add: word_less_nat_alt)
    obtain st2 rs' h2 where M: "set_allocation_state rs (index rs) 1 INVALID h' = Some (st2, rs', h2)"
      and rs': "rs' = rs\<lparr>cells := cells rs'\<rparr>"
      using commit_read_side [OF R(1,2,4,5), of h'] by blast
    have ix: "index rs' = index rs" by (subst rs') simp
    have iw: "index ws' = index ws" 
    proof -
      have "ws' = ws\<lparr>cells := cells ws'\<rparr>" using F by (simp only: alloc_frame_def)
      then show ?thesis by (metis sector_t.select_convs(1) sector_t.surjective sector_t.update_convs(5))
    qed
    have "NVM_commit s h = Some (st2, s\<lparr>sectors :=
        (sectors s)[write_ix s := ws'\<lparr>index := index ws + n_staging_area s\<rparr>,
                    read_ix s := rs'\<lparr>index := index rs + 1\<rparr>],
        n_valid := n_staging_area s, n_staging_area := 0, read_sector := 1 - read_sector s\<rparr>, h2)"
      using S True M lt g by (simp add: NVM_commit_def Let_def ix iw flip: ws_def rs_def)
    with marked M H F C U True rs' show ?thesis by blast
  qed
qed

lemma alloc_frame_sector:
  assumes "geometry sec" "alloc_frame st sec sec' lo hi" "hi \<le> unat (n_data sec)" "unat (n_reserved sec) \<le> lo"
  shows "geometry sec'" "sec_bytes sec' lo t = sec_bytes sec lo t" "index sec' = index sec"
    "n_data sec' = n_data sec" "n_reserved sec' = n_reserved sec"
proof -
  have e: "sec' = sec\<lparr>cells := cells sec'\<rparr>" and len: "length (cells sec') = length (cells sec)"
    using assms(2) by (simp_all only: alloc_frame_def)
  show "geometry sec'" by (subst e) (rule geometry_cells [OF assms(1) len])
  show "index sec' = index sec" "n_data sec' = n_data sec" "n_reserved sec' = n_reserved sec"
    by (subst e, simp)+
  show "sec_bytes sec' lo t = sec_bytes sec lo t"
    using alloc_frame_cells [OF assms(1-3)] by (intro sec_bytes_cong [OF len assms(4)]) blast
qed

text \<open>Old block, new block, and which of the two a reboot finds after a commit that may have been interrupted.\<close>

lemma commit_boots:
  assumes rdy: "nvm_ready s0" and du: "during s0 s" and stg: "staged s"
    and hon: "hal_honest h" and atm: "hal_atomic h"
  shows "\<exists>st s' h'. NVM_commit s h = Some (st, s', h') \<and>
    (boots_to s' (nvm_block s0) \<or> boots_to s' (nvm_staged s)) \<and>
    (st = 0 \<longrightarrow> boots_to s' (nvm_staged s) \<and> nvm_block s' = nvm_staged s)"
proof -
  define ws where "ws = sectors s ! write_ix s"
  define rs where "rs = sectors s ! read_ix s"
  define i where "i = unat (index ws)"
  define n where "n = unat (n_staging_area s)"
  note W = during_W [OF rdy du, folded ws_def] and R0 = ready_R [OF rdy]
  have two: "two_sectors s" by (rule during_boots(3) [OF rdy du])
  note g = geometry_ixs [OF two]
  have rs: "rs = sectors s0 ! read_ix s0"
    using W(6) during_ixs [OF du] by (simp add: rs_def)
  note R = R0 [folded rs]
  have i: "unat (n_reserved ws) \<le> i" "i + n < unat (n_data ws)"
    using W(2) stg by (simp_all add: i_def n_def staged_def Let_def ws_def)
  let ?tr = "unat (index rs)" and ?m = "unat (index rs) - unat (n_valid s0)"
  have old: "nvm_block s0 = sec_bytes rs ?m ?tr" by (simp add: nvm_block_def Let_def rs)
  have new: "nvm_staged s = sec_bytes ws i (i + n)" by (simp add: nvm_staged_def Let_def ws_def i_def n_def)
  have side: "(\<exists>t v. top_state ws' t v \<and> v \<noteq> fs_code VALID) \<and> (0 < n \<longrightarrow> \<not> alloc_set ws ws' i (i + n) VALID) \<or>
      0 < n \<and> top_state ws' (i + n) (fs_code VALID) \<and> valid_run ws' i (i + n)"
    if "alloc_upto VALID ws ws' i (i + n)" for ws'
    using commit_write_side [OF rdy du stg, folded ws_def] that by (simp add: i_def n_def)
  have frame: "geometry ws'" "sec_bytes ws' i t = sec_bytes ws i t"
    if "alloc_frame VALID ws ws' i (i + n)" for ws' t
    using alloc_frame_sector [OF W(1) that] i by simp_all
  from commit_cases [OF rdy du stg, folded ws_def rs_def, folded i_def n_def, of h] show ?thesis
  proof cases
    case (1 st ws' h')
    note failed = 1
    let ?s = "s\<lparr>sectors := (sectors s)[write_ix s := ws']\<rparr>"
    have at: "sectors ?s ! read_ix ?s = rs" "sectors ?s ! write_ix ?s = ws'" using g by (simp_all add: rs_def)
    have t2: "two_sectors ?s"
      using g two frame(1) [OF failed(4)] R(1) by (intro two_sectorsI) (auto simp: two_sectors_def rs_def)
    from side [OF failed(5) [OF atm]] have "boots_to ?s (nvm_block s0) \<or> boots_to ?s (nvm_staged s)"
    proof
      assume "(\<exists>t v. top_state ws' t v \<and> v \<noteq> fs_code VALID) \<and> (0 < n \<longrightarrow> \<not> alloc_set ws ws' i (i + n) VALID)"
      then show ?thesis using boots_read [OF t2, unfolded at, OF R(4,5)] old by auto
    next
      assume "0 < n \<and> top_state ws' (i + n) (fs_code VALID) \<and> valid_run ws' i (i + n)"
      then show ?thesis
        using boots_either [OF t2, unfolded at, OF R(4,5), of "i + n" "fs_code VALID" i]
          old new frame(2) [OF failed(4)] by auto
    qed
    with failed show ?thesis by blast
  next
    case (2 ws' h' st2 rs' h2)
    note marked = 2
    let ?w = "ws'\<lparr>index := index ws + n_staging_area s\<rparr>" and ?r = "rs'\<lparr>index := index rs + 1\<rparr>"
    let ?t = "s\<lparr>sectors := (sectors s)[write_ix s := ?w, read_ix s := ?r]\<rparr>"
    let ?s = "s\<lparr>sectors := (sectors s)[write_ix s := ?w, read_ix s := ?r],
        n_valid := n_staging_area s, n_staging_area := 0, read_sector := 1 - read_sector s\<rparr>"
    have bt: "boots_to ?s xs = boots_to ?t xs" for xs
      using boots_to_vars by (metis (no_types))
    have honh': "hal_honest h'" using hon marked(3) by (simp add: hal_step_def)
    obtain st2' rs'' h2' where "set_allocation_state rs (index rs) 1 INVALID h' = Some (st2', rs'', h2')"
      and RS: "length (cells rs'') = length (cells rs)"
      "top_state rs'' ?tr (top_val rs) \<and> valid_run rs'' ?m ?tr \<or>
        (\<exists>v'. top_state rs'' (?tr + 1) v' \<and> v' \<noteq> fs_code VALID \<and> valid_run rs'' (?tr + 1) (?tr + 1))"
      "hal_honest h' \<and> st2' = 0 \<longrightarrow> top_state rs'' (?tr + 1) (fs_code INVALID)"
      "\<forall>b. 8 * unat (n_reserved rs) \<le> b \<longrightarrow> cells rs'' ! b = cells rs ! b"
      using commit_read_side [OF R(1,2,4,5), of h'] by blast
    with marked(2) have eq: "rs'' = rs'" "st2' = st2" by simp_all
    note RS = RS [unfolded eq]
    have geo_r: "geometry rs'" using R(1) RS(1) by (subst marked(7)) (rule geometry_cells)
    have at: "sectors ?t ! read_ix ?t = ?r" "sectors ?t ! write_ix ?t = ?w" using g by simp_all
    have t2: "two_sectors ?t"
      using g two frame(1) [OF marked(4)] geo_r by (intro two_sectorsI) (auto simp: two_sectors_def)
    have bytes_r: "sec_bytes rs' ?m ?tr = sec_bytes rs ?m ?tr"
      using RS(1,4) R(7) by (intro sec_bytes_cong)
    have full: "alloc_set ws ws' i (i + n) VALID" using marked(5) hon by blast
    note readA = boots_read [OF t2, unfolded at sector_index_simps]
    note eitherA = boots_either [OF t2, unfolded at sector_index_simps]
    let ?f = "?t\<lparr>read_sector := 1 - read_sector s\<rparr>"
    have fxs: "read_ix ?f = write_ix s" "write_ix ?f = read_ix s"
      using read_write_ix [OF two] by (auto simp: read_ix_def write_ix_def)
    have atf: "sectors ?f ! read_ix ?f = ?w" "sectors ?f ! write_ix ?f = ?r" using g unfolding fxs by simp_all
    have f2: "two_sectors ?f"
      using t2 read_write_ix [OF two] by (auto simp: two_sectors_def)
    note readF = boots_read [OF f2, unfolded atf sector_index_simps boots_to_vars]
    have res: "(boots_to ?t (nvm_block s0) \<or> boots_to ?t (nvm_staged s)) \<and>
        (st2 = 0 \<longrightarrow> boots_to ?t (nvm_staged s))"
      using side [OF marked(6) [OF atm]]
    proof
      assume a: "(\<exists>t v. top_state ws' t v \<and> v \<noteq> fs_code VALID) \<and> (0 < n \<longrightarrow> \<not> alloc_set ws ws' i (i + n) VALID)"
      then obtain t v where tv: "top_state ws' t v" "v \<noteq> fs_code VALID" by blast
      from a full have n0: "n = 0" by blast
      have mk: "boots_to ?t (nvm_staged s)" if "top_state rs' (?tr + 1) v'" "v' \<noteq> fs_code VALID" for v'
      proof -
        have b: "?tr + 1 \<le> unat (n_data rs')" "unat (n_reserved rs') \<le> ?tr + 1"
          using that(1) by (simp_all add: top_state_def)
        have "?tr + 1 \<noteq> unat (n_reserved rs')"
        proof -
          have "n_reserved rs' = n_reserved rs" by (subst marked(7)) simp
          then show ?thesis using R(7) by simp
        qed
        then have "valid_run rs' (?tr + 1) (?tr + 1)"
          using b that top_state_val [OF that(1)] unfolding valid_run_def by auto
        from readA [OF that(1) this tv] show ?thesis by (simp add: new n0 sec_bytes_def)
      qed
      show ?thesis
      proof (intro conjI impI)
        from RS(2) show "boots_to ?t (nvm_block s0) \<or> boots_to ?t (nvm_staged s)"
        proof
          assume "top_state rs' ?tr (top_val rs) \<and> valid_run rs' ?m ?tr"
          then show ?thesis using readA [OF _ _ tv] bytes_r old by metis
        qed (use mk in blast)
        assume "st2 = 0"
        then have "top_state rs' (?tr + 1) (fs_code INVALID)" using RS(3) honh' by blast
        then show "boots_to ?t (nvm_staged s)" by (rule mk) simp
      qed
    next
      assume b: "0 < n \<and> top_state ws' (i + n) (fs_code VALID) \<and> valid_run ws' i (i + n)"
      have mk: "boots_to ?t (nvm_staged s)" if "top_state rs' (?tr + 1) v'" "v' \<noteq> fs_code VALID" for v'
        using readF [of "i + n" "fs_code VALID" i, OF _ _ that] b new frame(2) [OF marked(4)] by simp
      show ?thesis
      proof (intro conjI impI)
        from RS(2) show "boots_to ?t (nvm_block s0) \<or> boots_to ?t (nvm_staged s)"
        proof
          assume "top_state rs' ?tr (top_val rs) \<and> valid_run rs' ?m ?tr"
          then show ?thesis
            using eitherA [of ?tr "top_val rs" ?m "i + n" "fs_code VALID" i] b old new bytes_r
              frame(2) [OF marked(4)] by auto
        qed (use mk in blast)
        assume "st2 = 0"
        then have "top_state rs' (?tr + 1) (fs_code INVALID)" using RS(3) honh' by blast
        then show "boots_to ?t (nvm_staged s)" by (rule mk) simp
      qed
    qed
    have "nvm_block ?s = nvm_staged s"
    proof -
      have rx: "read_ix ?s = write_ix s" using fxs by (simp add: read_ix_def)
      have ui: "unat (index ws + n_staging_area s) = i + n"
        using i(2) W(7,8) by (simp add: unat_word_ariths i_def n_def)
      show ?thesis unfolding nvm_block_def Let_def rx
        using g ui new frame(2) [OF marked(4)] by (simp add: n_def [symmetric])
    qed
    with marked(1) res bt show ?thesis by blast
  qed
qed

lemma top_stateI:
  assumes "unat (n_reserved sec) \<le> t" "t \<le> unat (n_data sec)" "t = unat (index sec)"
    "\<And>j. t \<le> j \<Longrightarrow> j < unat (n_data sec) \<Longrightarrow> field_at (cells sec) j = fs_code ERASED"
    "t = unat (n_reserved sec) \<or> field_at (cells sec) (t - 1) \<noteq> fs_code ERASED"
  shows "top_state sec t (top_val sec)"
proof -
  have "index sec = n_reserved sec \<longleftrightarrow> t = unat (n_reserved sec)" using assms(3) by (simp add: word_unat_eq_iff)
  then show ?thesis using assms unfolding top_state_def top_val_def by auto
qed

lemma commit_ready:
  assumes rdy: "nvm_ready s0" and du: "during s0 s" and stg: "staged s" and ok: "hal_ok h"
  defines "ws \<equiv> sectors s ! write_ix s" and "rs \<equiv> sectors s ! read_ix s"
  assumes blank: "\<forall>b < length (cells ws). 8 * (unat (index ws) + unat (n_staging_area s)) \<le> b \<longrightarrow> cells ws ! b = 0xFF"
    and room: "unat (index rs) + 1 < unat (n_data rs)"
  shows "\<exists>s' h'. NVM_commit s h = Some (0, s', h') \<and> nvm_ready s' \<and> nvm_block s' = nvm_staged s \<and>
    boots_to s' (nvm_staged s)"
proof -
  define i where "i = unat (index ws)"
  define n where "n = unat (n_staging_area s)"
  note W = during_W [OF rdy du, folded ws_def] and R0 = ready_R [OF rdy]
  have two: "two_sectors s" by (rule during_boots(3) [OF rdy du])
  note g = geometry_ixs [OF two]
  have rs: "rs = sectors s0 ! read_ix s0"
    using W(6) during_ixs [OF du] by (simp add: rs_def)
  note R = R0 [folded rs]
  have stg': "i + n < unat (n_data ws)" "\<And>j. i + n \<le> j \<Longrightarrow> j < unat (n_data ws) \<Longrightarrow> field_at (cells ws) j = fs_code ERASED"
    using stg unfolding staged_def Let_def i_def n_def ws_def by blast+
  have Ri: "unat (n_reserved ws) \<le> i" using W(2) by (simp add: i_def)
  have atm: "hal_atomic h" using ok by (auto simp: hal_ok_def hal_atomic_def list_all_iff)
  note hon = hal_ok_honest [OF ok]
  obtain st s' h' where C: "NVM_commit s h = Some (st, s', h')"
    "st = 0 \<longrightarrow> boots_to s' (nvm_staged s) \<and> nvm_block s' = nvm_staged s"
    using commit_boots [OF rdy du stg hon atm] by blast
  from commit_cases [OF rdy du stg, folded ws_def rs_def, folded i_def n_def, of h]
  have "st = 0 \<and> nvm_ready s'"
  proof cases
    case 1
    then show ?thesis using ok by simp
  next
    case (2 ws' h1 st2 rs' h2)
    let ?w = "ws'\<lparr>index := index ws + n_staging_area s\<rparr>" and ?r = "rs'\<lparr>index := index rs + 1\<rparr>"
    have s': "s' = s\<lparr>sectors := (sectors s)[write_ix s := ?w, read_ix s := ?r],
        n_valid := n_staging_area s, n_staging_area := 0, read_sector := 1 - read_sector s\<rparr>" and st: "st = st2"
      using 2(1) C(1) by simp_all
    have okh: "hal_ok h1" "hal_honest h1" using 2(3) ok hon by (simp_all add: hal_step_def)
    obtain st2' rs'' h2' where "set_allocation_state rs (index rs) 1 INVALID h1 = Some (st2', rs'', h2')"
      and RS: "length (cells rs'') = length (cells rs)"
      "hal_honest h1 \<and> st2' = 0 \<longrightarrow> top_state rs'' (unat (index rs) + 1) (fs_code INVALID)"
      "\<forall>b. 8 * unat (n_reserved rs) \<le> b \<longrightarrow> cells rs'' ! b = cells rs ! b" "st2' = 0"
      using commit_read_side [OF R(1,2,4,5), of h1] okh(1) room by blast
    with 2(2) have eq: "rs'' = rs'" "st2 = 0" by simp_all
    note RS = RS [unfolded eq]
    have top_r: "top_state rs' (unat (index rs) + 1) (fs_code INVALID)" using RS(2,4) okh(2) by blast
    have rix: "n_data rs' = n_data rs" "n_reserved rs' = n_reserved rs" by (subst 2(7), simp)+
    have geo_r: "geometry rs'" using R(1) RS(1) by (subst 2(7)) (rule geometry_cells)
    have iN: "i + n \<le> unat (n_data ws)" using stg'(1) by simp
    note fr = alloc_frame_sector [OF W(1) 2(4) iN Ri]
    have ui: "unat (index ws + n_staging_area s) = i + n"
      using stg'(1) W(7,8) by (simp add: unat_word_ariths i_def n_def)
    have ur: "unat (index rs + 1) = unat (index rs) + 1"
      using room R(1) by (simp add: unat_word_ariths geometry_def)
    have rx: "read_ix s' = write_ix s" "write_ix s' = read_ix s"
      using read_write_ix [OF two] by (auto simp: s' read_ix_def write_ix_def)
    have at: "sectors s' ! read_ix s' = ?w" "sectors s' ! write_ix s' = ?r"
      unfolding rx using g by (simp_all add: s')
    have "two_sectors s'"
      using read_write_ix [OF two] g fr(1) geo_r at by (intro two_sectorsI) (auto simp: s')
    have set: "alloc_set ws ws' i (i + n) VALID" using 2(5) hon by blast
    have in_: "field_at (cells ws') j = fs_code VALID" if "i \<le> j" "j < i + n" for j
      using set that stg unfolding alloc_set_def staged_def Let_def i_def n_def ws_def by simp
    have out: "field_at (cells ws') j = field_at (cells ws) j" if "j < i \<or> i + n \<le> j" for j
      using 2(4) that unfolding alloc_frame_def by blast
    have pre: "i = unat (n_reserved ws) \<or>
        field_at (cells ws') (i - 1) \<noteq> fs_code VALID \<and> field_at (cells ws') (i - 1) \<noteq> fs_code ERASED"
      using during_pre [OF rdy du, folded ws_def, folded i_def] out [of "i - 1"] Ri
      by (cases "i = unat (n_reserved ws)") auto
    have last: "i + n = unat (n_reserved ws) \<or> field_at (cells ws') (i + n - 1) \<noteq> fs_code ERASED"
    proof (cases "n = 0")
      case False
      then show ?thesis using in_ [of "i + n - 1"] by simp
    qed (use pre in auto)
    have "top_state ?w (unat (index ?w)) (top_val ?w)"
      using stg'(1) Ri fr(4,5) ui last out stg'(2) by (intro top_stateI) (auto simp del: fs_code.simps)
    moreover have "valid_run ?w (unat (index ?w) - unat (n_staging_area s)) (unat (index ?w))"
      using Ri stg'(1) fr(4,5) in_ pre ui by (auto simp: valid_run_def n_def [symmetric] simp del: fs_code.simps)
    moreover have "blank_above ?w"
    proof -
      have len: "length (cells ws') = length (cells ws)" using 2(4) by (simp only: alloc_frame_def)
      have "cells ws' ! b = 0xFF" if b: "b < length (cells ws')" "8 * (i + n) \<le> b" for b
        using alloc_frame_cells [OF W(1) 2(4) iN, of b] blank that len Ri by (simp add: i_def n_def)
      then show ?thesis using ui by (simp add: blank_above_def data_off_def)
    qed
    moreover have "blank_above ?r"
      using R(6,7) RS(1,3) ur R(3) by (auto simp: blank_above_def data_off_def)
    moreover have tr: "top_val ?r = fs_code INVALID"
    proof -
      have "?thesis \<longleftrightarrow> field_at (cells rs') (unat (index rs)) = fs_code INVALID"
        using R(3,7) rix ur by (auto simp: top_val_def word_unat_eq_iff)
      then show ?thesis using top_state_val [OF top_r] R(3,7) rix by simp
    qed
    moreover have "top_state ?r (unat (index ?r)) (top_val ?r)" using top_r tr ur by simp
    moreover have "index ?w < n_data ?w" "n_staging_area s \<le> index ?w"
      using stg'(1) fr(4) ui by (simp_all add: word_less_nat_alt word_le_nat_alt n_def)
    ultimately have "nvm_ready s'"
      unfolding nvm_ready_def Let_def at using \<open>two_sectors s'\<close> by (simp add: s')
    then show ?thesis using st eq by simp
  qed
  with C show ?thesis by blast
qed

lemma staged_data:
  assumes "length m = 8 * N" "8 * i + 8 * n \<le> 8 * N" "\<forall>b < length m. 8 * i \<le> b \<longrightarrow> m ! b = 0xFF"
    "length data \<le> 8 * n"
  shows "take (8 * n) (drop (8 * i) (and_at m (8 * i) data)) = data @ replicate (8 * n - length data) (0xFF :: u8)"
proof (rule nth_equalityI)
  show "length (take (8 * n) (drop (8 * i) (and_at m (8 * i) data))) =
      length (data @ replicate (8 * n - length data) 0xFF)" using assms by simp
  fix k assume k: "k < length (take (8 * n) (drop (8 * i) (and_at m (8 * i) data)))"
  have ff: "0xFF AND x = x" for x :: u8
  proof -
    have "(0xFF :: u8) = - 1" by simp
    then show ?thesis by (simp only: and.left_neutral)
  qed
  show "take (8 * n) (drop (8 * i) (and_at m (8 * i) data)) ! k =
      (data @ replicate (8 * n - length data) 0xFF) ! k"
    using k assms by (auto simp: nth_and_at nth_append ff)
qed

text \<open>A drive as it leaves the factory, with sectors of 16 fields.\<close>

definition blank_sector :: "u32 \<Rightarrow> sector_t" where
  "blank_sector k = \<lparr>index = 4, sector_id = k, n_data = 16, n_reserved = 4, cells = replicate 128 0xFF\<rparr>"

definition demo_nvm :: nvm where
  "demo_nvm = \<lparr>sectors = [blank_sector 10, blank_sector 11], read_sector = 0,
     n_staging_area = 0, n_valid = 0\<rparr>"

lemma demo_nvm_simps [simp]:
  "sectors demo_nvm = [blank_sector 10, blank_sector 11]" "read_ix demo_nvm = 0" "write_ix demo_nvm = 1"
  "index (blank_sector k) = 4" "n_data (blank_sector k) = 16" "n_reserved (blank_sector k) = 4"
  "read_sector demo_nvm = 0" "n_staging_area demo_nvm = 0" "n_valid demo_nvm = 0"
  "nvm_block demo_nvm = []"
  by (simp_all add: demo_nvm_def blank_sector_def read_ix_def write_ix_def nvm_block_def Let_def sec_bytes_def)

lemma demo_nvm_ready [simp]: "nvm_ready demo_nvm"
proof -
  have "top_val (blank_sector k) = fs_code ERASED" for k by (simp add: top_val_def)
  moreover have "top_state (blank_sector k) 4 (fs_code ERASED)" for k
    using field_at_blank [of _ 128] by (auto simp: top_state_def blank_sector_def)
  moreover have "valid_run (blank_sector k) 4 4" for k by (auto simp: valid_run_def)
  moreover have "blank_above (blank_sector k)" "geometry (blank_sector k)" for k
    by (auto simp: blank_above_def blank_sector_def geometry_def)
  ultimately show ?thesis by (simp add: nvm_ready_def two_sectors_def Let_def)
qed

subsection \<open>Properties\<close>

text \<open>C38: \<open>set_allocation_state\<close> writes whole bytes of the table yet changes exactly the fields
  it was asked for: every other field and every data byte keeps its value whatever the flash
  controller answers, and a status of 0 means each of the fields was set to the state
  (ANDed with the old one, as flash does).\<close>

theorem nvm_set_allocation_state:
  assumes "geometry sec" "unat (n_reserved sec) \<le> unat i" "unat i + unat count < unat (n_data sec)"
    "hal_honest h"
  shows "\<exists>st sec' h'. set_allocation_state sec i count state h = Some (st, sec', h') \<and>
    (\<forall>j. j < unat i \<or> unat i + unat count \<le> j \<longrightarrow> field_at (cells sec') j = field_at (cells sec) j) \<and>
    (\<forall>b. 8 * unat (n_reserved sec) \<le> b \<longrightarrow> cells sec' ! b = cells sec ! b) \<and>
    (st = 0 \<longrightarrow> (\<forall>j. unat i \<le> j \<and> j < unat i + unat count \<longrightarrow>
       field_at (cells sec') j = field_at (cells sec) j AND fs_code state)) \<and>
    (hal_ok h \<longrightarrow> st = 0)"
proof -
  obtain st sec' h' where S: "set_allocation_state sec i count state h = Some (st, sec', h')"
    "hal_ok h \<longrightarrow> st = 0" and F: "alloc_frame state sec sec' (unat i) (unat i + unat count)"
    and C: "st = 0 \<and> hal_honest h \<longrightarrow> alloc_set sec sec' (unat i) (unat i + unat count) state"
    using set_allocation_state_spec [OF assms(1-3), of state h] by blast
  have "\<forall>b. 8 * unat (n_reserved sec) \<le> b \<longrightarrow> cells sec' ! b = cells sec ! b"
    using alloc_frame_cells [OF assms(1) F] assms(3) by simp
  with S F C assms(4) show ?thesis
    unfolding alloc_frame_def alloc_set_def by (intro exI [of _ st] exI [of _ sec'] exI [of _ h']) blast
qed

theorem nvm_set_allocation_state_witness:
  "\<exists>sec' h'. set_allocation_state (blank_sector 10) 5 6 INVALID [] = Some (0, sec', h') \<and>
    field_at (cells sec') 4 = 3 \<and> field_at (cells sec') 5 = 1 \<and> field_at (cells sec') 10 = 1 \<and>
    field_at (cells sec') 11 = 3"
proof -
  have h: "geometry (blank_sector 10)" "hal_honest []" "hal_ok []"
    by (simp_all add: geometry_def blank_sector_def hal_honest_def hal_ok_def)
  have bl: "field_at (cells (blank_sector 10)) j = 3" if "j < 512" for j
    using field_at_blank [of j 128] that by (simp add: blank_sector_def)
  obtain st sec' h' where *: "set_allocation_state (blank_sector 10) 5 6 INVALID [] = Some (st, sec', h')"
    "\<forall>j. j < 5 \<or> 11 \<le> j \<longrightarrow> field_at (cells sec') j = field_at (cells (blank_sector 10)) j"
    "st = 0 \<longrightarrow> (\<forall>j. 5 \<le> j \<and> j < 11 \<longrightarrow>
       field_at (cells sec') j = field_at (cells (blank_sector 10)) j AND fs_code INVALID)" "st = 0"
    using nvm_set_allocation_state [of "blank_sector 10" 5 6 "[]" INVALID] h by auto
  then show ?thesis by (intro exI [of _ sec'] exI [of _ h']) (simp add: bl)
qed

text \<open>C39: scanning the allocation table from behind finds the boundary exactly: the index returned
  lies between the reserved area and the given maximum, every field from it up to the maximum
  has the reference state, and the state reported is that of the field just below it.\<close>

theorem nvm_scan_finds_boundary:
  assumes "geometry sec" "n_reserved sec \<le> mx" "mx \<le> n_data sec"
  shows "\<exists>i st. scan_allocation_table sec mx ref = Some (i, st) \<and> n_reserved sec \<le> i \<and> i \<le> mx \<and>
    (\<forall>j. unat i \<le> j \<and> j < unat mx \<longrightarrow> field_at (cells sec) j = fs_code ref) \<and>
    (if i = n_reserved sec then st = fs_code ref
     else st = field_at (cells sec) (unat i - 1) \<and> st \<noteq> fs_code ref)"
  using scan_allocation_table_spec [OF assms(1), of mx ref] assms(2,3)
  by (simp add: word_le_nat_alt word_unat_eq_iff)

theorem nvm_scan_finds_boundary_witness:
  "scan_allocation_table (blank_sector 11) 16 ERASED = Some (4, 3)"
proof -
  have g: "geometry (blank_sector 11)" by (simp add: geometry_def blank_sector_def)
  obtain i st where *: "scan_allocation_table (blank_sector 11) 16 ERASED = Some (i, st)" "4 \<le> i" "i \<le> 16"
    "if i = 4 then st = fs_code ERASED
     else st = field_at (cells (blank_sector 11)) (unat i - 1) \<and> st \<noteq> fs_code ERASED"
    using nvm_scan_finds_boundary [OF g, of 16 ERASED] by auto
  have "field_at (cells (blank_sector 11)) (unat i - 1) = 3"
    using *(3) field_at_blank [of "unat i - 1" 128] by (simp add: blank_sector_def word_le_nat_alt)
  with *(4) have "i = 4" by (auto split: if_splits)
  with * show ?thesis by simp
qed





text \<open>C32: staging a block, writing it and committing it succeeds and reads back: afterwards
  \<open>NVM_read\<close> returns every slice of the data (padded with \<open>0xFF\<close> to whole fields), a reboot finds
  the same block, and the store is ready for the next transaction. The block must not fill the
  target sector exactly.\<close>

theorem nvm_roundtrip:
  assumes rdy: "nvm_ready s" and ok: "hal_ok h"
    and ws: "ws = sectors s ! write_ix s" and rs: "rs = sectors s ! read_ix s"
    and L: "L = (length data + 7) div 8" "unat (n_reserved ws) + L < unat (n_data ws)"
      "unat (index ws) + L \<noteq> unat (n_data ws)" and room: "unat (index rs) + 1 < unat (n_data rs)"
  shows "\<exists>s1 h1 s2 h2 s3 h3. NVM_start_write s (of_nat (length data)) h = Some (0, s1, h1) \<and>
    NVM_write s1 0 data (of_nat (length data)) h1 = Some (0, s2, h2) \<and>
    NVM_commit s2 h2 = Some (0, s3, h3) \<and> nvm_ready s3 \<and> boots_to s3 (nvm_block s3) \<and>
    nvm_block s3 = data @ replicate (8 * L - length data) 0xFF \<and>
    (\<forall>off len. unat off + unat len \<le> 8 * L \<longrightarrow>
       NVM_read s3 off len = Some (Inr (take (unat len) (drop (unat off) (nvm_block s3)))))"
proof -
  note W = ready_W [OF rdy, folded ws]
  have d8: "length data \<le> 8 * L" using L(1) by linarith
  have small: "8 * L + 7 < 2 ^ 32" using L(2) W(6) by simp
  let ?len = "of_nat (length data) :: u32"
  have ul: "unat ?len = length data" using d8 small by (simp add: unsigned_of_nat take_bit_nat_eq_self)
  have "unat (?len + 7) = length data + 7" using d8 small ul by (simp add: unat_word_ariths)
  then have sl: "unat (stage_len ?len) = L" by (simp add: stage_len_def unat_drop_bit L(1))
  have start: "\<exists>s1 h1. NVM_start_write s ?len h = Some (0, s1, h1)"
  proof (cases "unat (index ws) + L \<le> unat (n_data ws)")
    case True
    then show ?thesis
      using start_write_room [OF rdy _ ws, of ?len h] L(3) ok by (simp add: sl) blast
  next
    case False
    obtain h1 where pop: "hal_pop h = (HalOk, h1)" "hal_ok h1"
      using hal_pop_script(1,2) [of h] ok by (metis hal_status_None prod.exhaust_sel)
    let ?w = "sectors (erased_w s) ! write_ix (erased_w s)"
    have two: "two_sectors s" using rdy by (simp add: nvm_ready_def)
    have w: "index ?w = n_reserved ws" "n_data ?w = n_data ws"
      using geometry_ixs [OF two] by (simp_all add: erased_w_def ws)
    have "\<exists>s1 h2. NVM_start_write (erased_w s) ?len h1 = Some (0, s1, h2)"
      using start_write_room [OF erased_w_ready(1) [OF rdy] _ refl, of ?len h1] L(2) pop(2)
      by (simp add: sl w) blast
    then show ?thesis
      using start_write_erase [OF rdy ws _ _ pop(1), of ?len] False L(2) by (simp add: sl)
  qed
  then obtain s1 h1 where 1: "NVM_start_write s ?len h = Some (0, s1, h1)" by blast
  obtain s0 where 0: "nvm_ready s0" "during s0 s1" "staged s1" "n_staging_area s1 = stage_len ?len"
    "blank_above (sectors s1 ! write_ix s1)" "hal_ok h1" "sectors s0 ! read_ix s0 = rs"
    using start_write_ok [OF rdy hal_ok_honest [OF ok] 1] ok unfolding rs by blast
  let ?w1 = "sectors s1 ! write_ix s1"
  have nowrap: "unat (0 :: u32) + length data < 2 ^ 32" using d8 small by simp
  have fit: "unat (0 :: u32) + length data \<le> 8 * unat (n_staging_area s1)" using d8 by (simp add: 0(4) sl)
  obtain s2 h2 where 2: "NVM_write s1 0 data ?len h1 = Some (0, s2, h2)" "hal_ok h2" "during s0 s2"
    "n_staging_area s2 = stage_len ?len" "staged s2"
    and cells2: "cells (sectors s2 ! write_ix s2) = and_at (cells ?w1) (data_off (index ?w1)) data"
  proof -
    obtain st s2 h2 where "NVM_write s1 0 data ?len h1 = Some (st, s2, h2)" "hal_step h1 h2" "during s0 s2"
      "n_staging_area s2 = n_staging_area s1" "staged s1 \<longrightarrow> staged s2" "hal_ok h1 \<longrightarrow> st = 0"
      "st = 0 \<and> hal_honest h1 \<longrightarrow> cells (sectors s2 ! write_ix s2) = and_at (cells ?w1) (data_off (index ?w1) + unat (0 :: u32)) data"
      using write_during [OF 0(1,2) nowrap, of h1] fit by blast
    then show ?thesis using that 0(3,4,6) hal_ok_honest by (auto simp: hal_step_def)
  qed
  note W1 = during_W [OF 0(1,2)] and W2 = during_W [OF 0(1) 2(3)]
  let ?w2 = "sectors s2 ! write_ix s2"
  have ix2: "index ?w2 = index ?w1" using W1(5) W2(5) by simp
  have len: "length (cells ?w1) = 8 * unat (n_data ?w1)" "unat (index ?w1) + L \<le> unat (n_data ?w1)"
    using W1(3,8) by (simp_all add: 0(4) sl)
  have blk: "nvm_staged s2 = data @ replicate (8 * L - length data) 0xFF"
    using staged_data [OF len(1), of "unat (index ?w1)" L data] len(2) 0(5) d8
    by (simp add: nvm_staged_def Let_def sec_bytes_def ix2 2(4) sl cells2 blank_above_def data_off_def)
  have ff: "\<forall>b < length (cells ?w2). 8 * (unat (index ?w2) + unat (n_staging_area s2)) \<le> b \<longrightarrow> cells ?w2 ! b = 0xFF"
    using len d8 0(5) by (auto simp: cells2 nth_and_at data_off_def ix2 2(4) sl blank_above_def)
  have rr: "sectors s2 ! read_ix s2 = rs" using W2(6) 0(7) by simp
  obtain s3 h3 where 3: "NVM_commit s2 h2 = Some (0, s3, h3)" "nvm_ready s3" "nvm_block s3 = nvm_staged s2"
    "boots_to s3 (nvm_staged s2)"
    using commit_ready [OF 0(1) 2(3,5,2) ff] room rr by auto
  have "NVM_read s3 off len = Some (Inr (take (unat len) (drop (unat off) (nvm_block s3))))"
    if "unat off + unat len \<le> 8 * L" for off len
  proof -
    let ?r = "sectors s3 ! read_ix s3"
    note R = ready_R [OF 3(2)]
    have geo: "length (cells ?r) = 8 * unat (n_data ?r)" "32 * unat (n_data ?r) < 2 ^ 32"
      using R(1) by (simp_all add: geometry_def)
    have nb: "nvm_block s3 = sec_bytes ?r (unat (index ?r) - unat (n_valid s3)) (unat (index ?r))"
      by (simp add: nvm_block_def Let_def)
    have "length (nvm_block s3) = 8 * L" using 3(3) blk d8 by simp
    moreover have "length (nvm_block s3) = 8 * unat (n_valid s3)"
      unfolding nb using R(2,3) geo by (simp add: sec_bytes_def)
    ultimately have nv: "unat (n_valid s3) = L" by simp
    have "unat (push_bit 3 (n_valid s3)) = 8 * L"
      using nv small by (simp add: push_bit_eq_mult unat_word_ariths)
    moreover have "unat (off + len) = unat off + unat len" using that small by (simp add: unat_word_ariths)
    ultimately have g: "\<not> off + len > push_bit 3 (n_valid s3)" using that by (simp add: word_less_nat_alt)
    have us: "unat (index ?r - n_valid s3) = unat (index ?r) - L"
      using R(3) nv by (simp add: unat_sub word_le_nat_alt)
    have ad: "data_addr (index ?r - n_valid s3) (unat off) = 8 * (unat (index ?r) - L) + unat off"
      using that R(2,3) nv geo(2) us by (subst data_addr_eq) (simp_all add: data_off_def)
    have "mread (cells ?r) (int (8 * (unat (index ?r) - L) + unat off)) (int (unat len)) =
        Some (take (unat len) (drop (8 * (unat (index ?r) - L) + unat off) (cells ?r)))"
      using that R(2,3) nv geo(1) by (intro mread_of_nat) linarith
    moreover have "take (unat len) (drop (unat off) (nvm_block s3)) =
        take (unat len) (drop (8 * (unat (index ?r) - L) + unat off) (cells ?r))"
      unfolding nb nv sec_bytes_def using that R(3) nv
      by (simp add: drop_take take_take min_def add.commute)
    ultimately show ?thesis using g by (simp add: NVM_read_def Let_def ad)
  qed
  with 1 2(1) 3 blk show ?thesis by auto
qed

theorem nvm_roundtrip_witness:
  "\<exists>s1 h1 s2 h2 s3 h3. NVM_start_write demo_nvm 3 [] = Some (0, s1, h1) \<and>
    NVM_write s1 0 [7, 8, 9] 3 h1 = Some (0, s2, h2) \<and> NVM_commit s2 h2 = Some (0, s3, h3) \<and>
    NVM_read s3 1 4 = Some (Inr [8, 9, 0xFF, 0xFF])"
proof -
  have "hal_ok []" by (simp add: hal_ok_def)
  from nvm_roundtrip [OF demo_nvm_ready this refl refl refl, of "[7, 8, 9]"]
  obtain s1 h1 s2 h2 s3 h3 where *: "NVM_start_write demo_nvm 3 [] = Some (0, s1, h1)"
    "NVM_write s1 0 [7, 8, 9] 3 h1 = Some (0, s2, h2)" "NVM_commit s2 h2 = Some (0, s3, h3)"
    "nvm_block s3 = [7, 8, 9] @ replicate 5 0xFF"
    and R: "\<And>off len. unat off + unat len \<le> 8 \<Longrightarrow>
       NVM_read s3 off len = Some (Inr (take (unat len) (drop (unat off) (nvm_block s3))))"
    by auto
  have blk: "nvm_block s3 = [7, 8, 9, 0xFF, 0xFF, 0xFF, 0xFF, 0xFF]"
    using *(4) by (simp add: numeral_eq_Suc)
  have "NVM_read s3 1 4 = Some (Inr [8, 9, 0xFF, 0xFF])"
    using R [of 1 4] unfolding blk by simp
  with * show ?thesis by blast
qed

text \<open>C40: a block that would fill the target sector's free space exactly is always refused with
  status -1 and nothing changes, so \<open>NVM_start_write\<close> does not accept the length that
  \<open>NVM_get_max_write_length\<close> reports on a freshly erased sector.\<close>

theorem nvm_exact_fill_refused:
  assumes "nvm_ready s" "ws = sectors s ! write_ix s"
    "unat (index ws) + unat (stage_len len) = unat (n_data ws)"
  shows "NVM_start_write s len h = Some (- 1, s, h)"
proof -
  note W = ready_W [OF assms(1), folded assms(2)]
  have two: "two_sectors s" using assms(1) by (simp add: nvm_ready_def)
  note g = geometry_ixs [OF two]
  have NR: "n_reserved ws \<le> n_data ws" "index ws \<le> n_data ws" using W(1,2,3) by (simp_all add: word_le_nat_alt)
  have guards: "\<not> stage_len len > n_data ws - n_reserved ws" "\<not> stage_len len > n_data ws - index ws"
    using assms(3) W(2,3) NR by (simp_all add: word_less_nat_alt unat_sub)
  have "n_data ws \<le> index ws + stage_len len" "\<not> index ws < n_reserved ws"
    using assms(3) W(2,6) by (simp_all add: word_le_nat_alt word_less_nat_alt unat_word_ariths)
  then have "set_allocation_state ws (index ws) (stage_len len) INVALID h = Some (- 1, ws, h)"
    by (simp add: set_allocation_state_def)
  then show ?thesis
    using start_write_no_erase [OF assms(2) guards, of h] g by (simp add: assms(2))
qed

theorem nvm_exact_fill_refused_witness:
  "NVM_get_max_write_length demo_nvm = 96 \<and> NVM_start_write demo_nvm 96 [] = Some (- 1, demo_nvm, [])"
proof
  show "NVM_get_max_write_length demo_nvm = 96" by (simp add: NVM_get_max_write_length_def)
  show "NVM_start_write demo_nvm 96 [] = Some (- 1, demo_nvm, [])"
    by (rule nvm_exact_fill_refused [OF demo_nvm_ready refl]) (simp add: stage_len_def)
qed

end
