(* ===== verification/KState.thy ===== *)
theory KState imports Prelude
begin

text \<open>
  The data of the RT-Thread kernel (\<open>include/rtdef.h\<close>) as this board configures it: one CPU,
  32 priorities, hard timers only, \<open>RT_DEBUG\<close> assertions on.

  A pointer to a thread is a number (\<open>tid\<close>), and so is a pointer to a semaphore, mutex, event
  set, mailbox or message queue. Every intrusive list of threads in the kernel - the ready lists,
  the suspend lists of the IPC objects, the list of defunct threads - is linked through the one
  field \<open>tlist\<close> of \<open>struct rt_thread\<close>. Here a list is the value of \<open>queue\<close> at its name, and
  \<open>tlist\<close> holds the name of the list the thread is linked in. Linking a thread that is linked
  already would corrupt two lists in C; here it has no result (\<open>None\<close>), like a failed
  \<open>RT_ASSERT\<close> or an access outside an array.
\<close>

type_synonym tid = nat
type_synonym oid = nat

datatype qid = Ready nat | SemWait oid | MutexWait oid | EventWait oid
  | MbWait oid | MbSender oid | MqWait oid | MqSender oid | MpWait oid | Defunct

text \<open>\<open>RT_THREAD_STAT_MASK\<close> part of \<open>stat\<close>; the yield bit is a field of its own.\<close>

datatype rt_stat = RT_THREAD_INIT | RT_THREAD_READY | RT_THREAD_SUSPEND
  | RT_THREAD_RUNNING | RT_THREAD_CLOSE

text \<open>
  The \<open>type\<close> field of an \<open>rt_object\<close>: not registered (\<open>RT_Object_Class_Null\<close>), initialised in
  memory of the caller (\<open>RT_Object_Class_Static\<close> set) or allocated.
\<close>

datatype rt_obj = ObjNull | ObjStatic | ObjDynamic

record rt_thread =
  th_obj :: rt_obj
  tlist :: "qid option"
  error :: rt_err_t
  stat :: rt_stat
  yield :: bool
  current_priority :: u8
  number_mask :: u32
  event_set :: u32
  event_info :: u8
  init_tick :: u32
  remaining_tick :: u32

text \<open>A timer is the one built into a thread, or one a driver or application declares.\<close>

datatype timer_id = TThread tid | TUser nat

record rt_timer =
  tm_obj :: rt_obj
  activated :: bool
  periodic :: bool
  tm_init_tick :: u32
  timeout_tick :: u32

record rt_semaphore =
  sem_obj :: rt_obj
  sem_flag :: u8
  sem_value :: u16

record rt_mutex =
  mtx_obj :: rt_obj
  mtx_flag :: u8
  mtx_value :: u16
  original_priority :: u8
  hold :: u8
  owner :: "tid option"

record rt_event =
  ev_obj :: rt_obj
  ev_flag :: u8
  ev_set :: u32

record rt_mailbox =
  mb_obj :: rt_obj
  mb_flag :: u8
  msg_pool :: "u32 list"
  mb_size :: u16
  mb_entry :: u16
  in_offset :: u16
  out_offset :: u16

text \<open>
  A block of a message queue's pool is named by its index; \<open>mq_next\<close> is the \<open>next\<close> field of its
  header, \<open>mq_data\<close> the \<open>msg_size\<close> bytes behind the header.
\<close>

record rt_messagequeue =
  mq_obj :: rt_obj
  mq_flag :: u8
  mq_next :: "nat \<Rightarrow> nat option"
  mq_data :: "nat \<Rightarrow> u8 list"
  msg_size :: u16
  max_msgs :: u16
  mq_entry :: u16
  msg_queue_head :: "nat option"
  msg_queue_tail :: "nat option"
  msg_queue_free :: "nat option"

text \<open>
  The kernel's globals. \<open>expired\<close> is the local list head of \<open>rt_timer_check\<close>: a timer is in it
  while its timeout function runs.
\<close>

record kernel =
  threads :: "tid \<Rightarrow> rt_thread"
  queue :: "qid \<Rightarrow> tid list"
  rt_thread_ready_priority_group :: u32
  rt_scheduler_lock_nest :: u16
  rt_interrupt_nest :: u8
  rt_current_thread :: "tid option"
  rt_current_priority :: u8
  rt_tick :: u32
  timers :: "timer_id \<Rightarrow> rt_timer"
  timer_list :: "timer_id list"
  expired :: "timer_id list"
  sems :: "oid \<Rightarrow> rt_semaphore"
  mutexes :: "oid \<Rightarrow> rt_mutex"
  events :: "oid \<Rightarrow> rt_event"
  mailboxes :: "oid \<Rightarrow> rt_mailbox"
  mqueues :: "oid \<Rightarrow> rt_messagequeue"

text \<open>
  A call that may block ends in one of two ways: it has returned, or the caller is suspended and
  switched out inside \<open>rt_schedule\<close>, with the locals that the rest of the call needs when it
  runs again.
\<close>

datatype ('r, 'l) call = Done 'r | Blocked 'l

definition RT_THREAD_PRIORITY_MAX :: nat where "RT_THREAD_PRIORITY_MAX = 32"
definition RT_TICK_MAX :: u32 where "RT_TICK_MAX = 0xffffffff"
definition RT_UINT16_MAX :: u16 where "RT_UINT16_MAX = 0xffff"
definition RT_UINT8_MAX :: u8 where "RT_UINT8_MAX = 0xff"
definition RT_IPC_FLAG_FIFO :: u8 where "RT_IPC_FLAG_FIFO = 0"
definition RT_IPC_FLAG_PRIO :: u8 where "RT_IPC_FLAG_PRIO = 1"
definition RT_IPC_CMD_RESET :: nat where "RT_IPC_CMD_RESET = 1"

lemmas kconst_defs = RT_TICK_MAX_def RT_UINT16_MAX_def RT_UINT8_MAX_def
  RT_IPC_FLAG_FIFO_def RT_IPC_FLAG_PRIO_def RT_IPC_CMD_RESET_def

subsection \<open>Updates of one object\<close>

definition upd_thread :: "tid \<Rightarrow> (rt_thread \<Rightarrow> rt_thread) \<Rightarrow> kernel \<Rightarrow> kernel" where
  "upd_thread t f s = s\<lparr>threads := (threads s)(t := f (threads s t))\<rparr>"

definition upd_timer :: "timer_id \<Rightarrow> (rt_timer \<Rightarrow> rt_timer) \<Rightarrow> kernel \<Rightarrow> kernel" where
  "upd_timer t f s = s\<lparr>timers := (timers s)(t := f (timers s t))\<rparr>"

definition upd_sem :: "oid \<Rightarrow> (rt_semaphore \<Rightarrow> rt_semaphore) \<Rightarrow> kernel \<Rightarrow> kernel" where
  "upd_sem i f s = s\<lparr>sems := (sems s)(i := f (sems s i))\<rparr>"

definition upd_mutex :: "oid \<Rightarrow> (rt_mutex \<Rightarrow> rt_mutex) \<Rightarrow> kernel \<Rightarrow> kernel" where
  "upd_mutex i f s = s\<lparr>mutexes := (mutexes s)(i := f (mutexes s i))\<rparr>"

definition upd_event :: "oid \<Rightarrow> (rt_event \<Rightarrow> rt_event) \<Rightarrow> kernel \<Rightarrow> kernel" where
  "upd_event i f s = s\<lparr>events := (events s)(i := f (events s i))\<rparr>"

definition upd_mb :: "oid \<Rightarrow> (rt_mailbox \<Rightarrow> rt_mailbox) \<Rightarrow> kernel \<Rightarrow> kernel" where
  "upd_mb i f s = s\<lparr>mailboxes := (mailboxes s)(i := f (mailboxes s i))\<rparr>"

definition upd_mq :: "oid \<Rightarrow> (rt_messagequeue \<Rightarrow> rt_messagequeue) \<Rightarrow> kernel \<Rightarrow> kernel" where
  "upd_mq i f s = s\<lparr>mqueues := (mqueues s)(i := f (mqueues s i))\<rparr>"

lemmas upd_defs = upd_thread_def upd_timer_def upd_sem_def upd_mutex_def upd_event_def
  upd_mb_def upd_mq_def

subsection \<open>The intrusive thread lists\<close>

text \<open>\<open>rt_list_remove\<close> on \<open>tlist\<close>: takes the thread out of whatever list holds it, if any.\<close>

definition list_remove :: "tid \<Rightarrow> kernel \<Rightarrow> kernel" where
  "list_remove t s =
     (case tlist (threads s t) of
        None \<Rightarrow> s
      | Some l \<Rightarrow> upd_thread t (tlist_update (\<lambda>_. None))
                  (s\<lparr>queue := (queue s)(l := remove1 t (queue s l))\<rparr>))"

text \<open>
  \<open>rt_list_insert_before\<close> and \<open>rt_list_insert_after\<close> on \<open>tlist\<close>; \<open>place\<close> says where in the list.
\<close>

definition list_link :: "qid \<Rightarrow> (tid list \<Rightarrow> tid list) \<Rightarrow> tid \<Rightarrow> kernel \<Rightarrow> kernel option" where
  "list_link l place t s = do {
     rt_assert (tlist (threads s t) = None);
     Some (upd_thread t (tlist_update (\<lambda>_. Some l))
            (s\<lparr>queue := (queue s)(l := place (queue s l))\<rparr>))
   }"

subsection \<open>Fields after an update\<close>

lemma upd_thread_sel [simp]:
  "threads (upd_thread t f s) = (threads s)(t := f (threads s t))"
  "queue (upd_thread t f s) = queue s"
  "rt_thread_ready_priority_group (upd_thread t f s) = rt_thread_ready_priority_group s"
  "rt_scheduler_lock_nest (upd_thread t f s) = rt_scheduler_lock_nest s"
  "rt_interrupt_nest (upd_thread t f s) = rt_interrupt_nest s"
  "rt_current_thread (upd_thread t f s) = rt_current_thread s"
  "rt_current_priority (upd_thread t f s) = rt_current_priority s"
  "rt_tick (upd_thread t f s) = rt_tick s"
  "timers (upd_thread t f s) = timers s"
  "timer_list (upd_thread t f s) = timer_list s"
  "expired (upd_thread t f s) = expired s"
  "sems (upd_thread t f s) = sems s"
  "mutexes (upd_thread t f s) = mutexes s"
  "events (upd_thread t f s) = events s"
  "mailboxes (upd_thread t f s) = mailboxes s"
  "mqueues (upd_thread t f s) = mqueues s"
  by (simp_all add: upd_thread_def)

lemma upd_timer_sel [simp]:
  "threads (upd_timer t f s) = threads s"
  "queue (upd_timer t f s) = queue s"
  "rt_thread_ready_priority_group (upd_timer t f s) = rt_thread_ready_priority_group s"
  "rt_scheduler_lock_nest (upd_timer t f s) = rt_scheduler_lock_nest s"
  "rt_interrupt_nest (upd_timer t f s) = rt_interrupt_nest s"
  "rt_current_thread (upd_timer t f s) = rt_current_thread s"
  "rt_current_priority (upd_timer t f s) = rt_current_priority s"
  "rt_tick (upd_timer t f s) = rt_tick s"
  "timers (upd_timer t f s) = (timers s)(t := f (timers s t))"
  "timer_list (upd_timer t f s) = timer_list s"
  "expired (upd_timer t f s) = expired s"
  "sems (upd_timer t f s) = sems s"
  "mutexes (upd_timer t f s) = mutexes s"
  "events (upd_timer t f s) = events s"
  "mailboxes (upd_timer t f s) = mailboxes s"
  "mqueues (upd_timer t f s) = mqueues s"
  by (simp_all add: upd_timer_def)

lemma upd_sem_sel [simp]:
  "threads (upd_sem i f s) = threads s"
  "queue (upd_sem i f s) = queue s"
  "rt_thread_ready_priority_group (upd_sem i f s) = rt_thread_ready_priority_group s"
  "rt_scheduler_lock_nest (upd_sem i f s) = rt_scheduler_lock_nest s"
  "rt_interrupt_nest (upd_sem i f s) = rt_interrupt_nest s"
  "rt_current_thread (upd_sem i f s) = rt_current_thread s"
  "rt_current_priority (upd_sem i f s) = rt_current_priority s"
  "rt_tick (upd_sem i f s) = rt_tick s"
  "timers (upd_sem i f s) = timers s"
  "timer_list (upd_sem i f s) = timer_list s"
  "expired (upd_sem i f s) = expired s"
  "sems (upd_sem i f s) = (sems s)(i := f (sems s i))"
  "mutexes (upd_sem i f s) = mutexes s"
  "events (upd_sem i f s) = events s"
  "mailboxes (upd_sem i f s) = mailboxes s"
  "mqueues (upd_sem i f s) = mqueues s"
  by (simp_all add: upd_sem_def)

lemma upd_mutex_sel [simp]:
  "threads (upd_mutex i f s) = threads s"
  "queue (upd_mutex i f s) = queue s"
  "rt_thread_ready_priority_group (upd_mutex i f s) = rt_thread_ready_priority_group s"
  "rt_scheduler_lock_nest (upd_mutex i f s) = rt_scheduler_lock_nest s"
  "rt_interrupt_nest (upd_mutex i f s) = rt_interrupt_nest s"
  "rt_current_thread (upd_mutex i f s) = rt_current_thread s"
  "rt_current_priority (upd_mutex i f s) = rt_current_priority s"
  "rt_tick (upd_mutex i f s) = rt_tick s"
  "timers (upd_mutex i f s) = timers s"
  "timer_list (upd_mutex i f s) = timer_list s"
  "expired (upd_mutex i f s) = expired s"
  "sems (upd_mutex i f s) = sems s"
  "mutexes (upd_mutex i f s) = (mutexes s)(i := f (mutexes s i))"
  "events (upd_mutex i f s) = events s"
  "mailboxes (upd_mutex i f s) = mailboxes s"
  "mqueues (upd_mutex i f s) = mqueues s"
  by (simp_all add: upd_mutex_def)

lemma upd_event_sel [simp]:
  "threads (upd_event i f s) = threads s"
  "queue (upd_event i f s) = queue s"
  "rt_thread_ready_priority_group (upd_event i f s) = rt_thread_ready_priority_group s"
  "rt_scheduler_lock_nest (upd_event i f s) = rt_scheduler_lock_nest s"
  "rt_interrupt_nest (upd_event i f s) = rt_interrupt_nest s"
  "rt_current_thread (upd_event i f s) = rt_current_thread s"
  "rt_current_priority (upd_event i f s) = rt_current_priority s"
  "rt_tick (upd_event i f s) = rt_tick s"
  "timers (upd_event i f s) = timers s"
  "timer_list (upd_event i f s) = timer_list s"
  "expired (upd_event i f s) = expired s"
  "sems (upd_event i f s) = sems s"
  "mutexes (upd_event i f s) = mutexes s"
  "events (upd_event i f s) = (events s)(i := f (events s i))"
  "mailboxes (upd_event i f s) = mailboxes s"
  "mqueues (upd_event i f s) = mqueues s"
  by (simp_all add: upd_event_def)

lemma upd_mb_sel [simp]:
  "threads (upd_mb i f s) = threads s"
  "queue (upd_mb i f s) = queue s"
  "rt_thread_ready_priority_group (upd_mb i f s) = rt_thread_ready_priority_group s"
  "rt_scheduler_lock_nest (upd_mb i f s) = rt_scheduler_lock_nest s"
  "rt_interrupt_nest (upd_mb i f s) = rt_interrupt_nest s"
  "rt_current_thread (upd_mb i f s) = rt_current_thread s"
  "rt_current_priority (upd_mb i f s) = rt_current_priority s"
  "rt_tick (upd_mb i f s) = rt_tick s"
  "timers (upd_mb i f s) = timers s"
  "timer_list (upd_mb i f s) = timer_list s"
  "expired (upd_mb i f s) = expired s"
  "sems (upd_mb i f s) = sems s"
  "mutexes (upd_mb i f s) = mutexes s"
  "events (upd_mb i f s) = events s"
  "mailboxes (upd_mb i f s) = (mailboxes s)(i := f (mailboxes s i))"
  "mqueues (upd_mb i f s) = mqueues s"
  by (simp_all add: upd_mb_def)

lemma upd_mq_sel [simp]:
  "threads (upd_mq i f s) = threads s"
  "queue (upd_mq i f s) = queue s"
  "rt_thread_ready_priority_group (upd_mq i f s) = rt_thread_ready_priority_group s"
  "rt_scheduler_lock_nest (upd_mq i f s) = rt_scheduler_lock_nest s"
  "rt_interrupt_nest (upd_mq i f s) = rt_interrupt_nest s"
  "rt_current_thread (upd_mq i f s) = rt_current_thread s"
  "rt_current_priority (upd_mq i f s) = rt_current_priority s"
  "rt_tick (upd_mq i f s) = rt_tick s"
  "timers (upd_mq i f s) = timers s"
  "timer_list (upd_mq i f s) = timer_list s"
  "expired (upd_mq i f s) = expired s"
  "sems (upd_mq i f s) = sems s"
  "mutexes (upd_mq i f s) = mutexes s"
  "events (upd_mq i f s) = events s"
  "mailboxes (upd_mq i f s) = mailboxes s"
  "mqueues (upd_mq i f s) = (mqueues s)(i := f (mqueues s i))"
  by (simp_all add: upd_mq_def)

lemma list_remove_sel [simp]:
  "threads (list_remove t s) = (threads s)(t := (threads s t)\<lparr>tlist := None\<rparr>)"
  "queue (list_remove t s) l =
     (if tlist (threads s t) = Some l then remove1 t (queue s l) else queue s l)"
  "rt_thread_ready_priority_group (list_remove t s) = rt_thread_ready_priority_group s"
  "rt_scheduler_lock_nest (list_remove t s) = rt_scheduler_lock_nest s"
  "rt_interrupt_nest (list_remove t s) = rt_interrupt_nest s"
  "rt_current_thread (list_remove t s) = rt_current_thread s"
  "rt_current_priority (list_remove t s) = rt_current_priority s"
  "rt_tick (list_remove t s) = rt_tick s"
  "timers (list_remove t s) = timers s"
  "timer_list (list_remove t s) = timer_list s"
  "expired (list_remove t s) = expired s"
  "sems (list_remove t s) = sems s"
  "mutexes (list_remove t s) = mutexes s"
  "events (list_remove t s) = events s"
  "mailboxes (list_remove t s) = mailboxes s"
  "mqueues (list_remove t s) = mqueues s"
  by (auto simp: list_remove_def fun_eq_iff split: option.split)

lemma list_link_eq_Some:
  "list_link l place t s = Some s' \<longleftrightarrow>
     tlist (threads s t) = None \<and>
     s' = upd_thread t (tlist_update (\<lambda>_. Some l)) (s\<lparr>queue := (queue s)(l := place (queue s l))\<rparr>)"
  by (auto simp: list_link_def Option.bind_eq_Some_conv)

end
