(* ===== verification/Scheduler.thy ===== *)
theory Scheduler imports KState
begin

text \<open>
  The scheduler (\<open>src/scheduler.c\<close>, the branch without \<open>RT_USING_SMP\<close> and with
  \<open>RT_THREAD_PRIORITY_MAX\<close> 32) and the bit search it rests on (\<open>__rt_ffs\<close> of \<open>src/kservice.c\<close>).

  Context switches: \<open>rt_schedule\<close> changes \<open>rt_current_thread\<close>; the save and restore of registers
  (\<open>rt_hw_context_switch\<close>, assembly) and the stack check are outside the model, and so are hooks and log output. Disabling
  interrupts around a body is what makes it one step.
\<close>

subsection \<open>Find first set\<close>

definition lowest_bit_bitmap :: "nat list" where
  "lowest_bit_bitmap =
    [0, 0, 1, 0, 2, 0, 1, 0, 3, 0, 1, 0, 2, 0, 1, 0, 4, 0, 1, 0, 2, 0, 1, 0, 3, 0, 1, 0, 2, 0, 1, 0,
     5, 0, 1, 0, 2, 0, 1, 0, 3, 0, 1, 0, 2, 0, 1, 0, 4, 0, 1, 0, 2, 0, 1, 0, 3, 0, 1, 0, 2, 0, 1, 0,
     6, 0, 1, 0, 2, 0, 1, 0, 3, 0, 1, 0, 2, 0, 1, 0, 4, 0, 1, 0, 2, 0, 1, 0, 3, 0, 1, 0, 2, 0, 1, 0,
     5, 0, 1, 0, 2, 0, 1, 0, 3, 0, 1, 0, 2, 0, 1, 0, 4, 0, 1, 0, 2, 0, 1, 0, 3, 0, 1, 0, 2, 0, 1, 0,
     7, 0, 1, 0, 2, 0, 1, 0, 3, 0, 1, 0, 2, 0, 1, 0, 4, 0, 1, 0, 2, 0, 1, 0, 3, 0, 1, 0, 2, 0, 1, 0,
     5, 0, 1, 0, 2, 0, 1, 0, 3, 0, 1, 0, 2, 0, 1, 0, 4, 0, 1, 0, 2, 0, 1, 0, 3, 0, 1, 0, 2, 0, 1, 0,
     6, 0, 1, 0, 2, 0, 1, 0, 3, 0, 1, 0, 2, 0, 1, 0, 4, 0, 1, 0, 2, 0, 1, 0, 3, 0, 1, 0, 2, 0, 1, 0,
     5, 0, 1, 0, 2, 0, 1, 0, 3, 0, 1, 0, 2, 0, 1, 0, 4, 0, 1, 0, 2, 0, 1, 0, 3, 0, 1, 0, 2, 0, 1, 0]"

definition rt_ffs :: "u32 \<Rightarrow> nat" where
  "rt_ffs v =
     (if v = 0 then 0
      else if v AND 0xff \<noteq> 0 then lowest_bit_bitmap ! unat (v AND 0xff) + 1
      else if v AND 0xff00 \<noteq> 0 then lowest_bit_bitmap ! unat (drop_bit 8 (v AND 0xff00)) + 9
      else if v AND 0xff0000 \<noteq> 0 then lowest_bit_bitmap ! unat (drop_bit 16 (v AND 0xff0000)) + 17
      else lowest_bit_bitmap ! unat (drop_bit 24 (v AND 0xff000000)) + 25)"

definition lowest_bit :: "'a::len word \<Rightarrow> nat \<Rightarrow> bool" where
  "lowest_bit v n \<longleftrightarrow> bit v n \<and> (\<forall>m<n. \<not> bit v m)"

lemma lowest_bit_unique: "lowest_bit v m \<Longrightarrow> lowest_bit v n \<Longrightarrow> m = n"
  unfolding lowest_bit_def by (metis linorder_neqE_nat)

text \<open>The table is a ruler sequence: doubling it changes only the first entry of the copy.\<close>

fun ruler :: "nat \<Rightarrow> nat list" where
  "ruler 0 = [0]"
| "ruler (Suc n) = ruler n @ n # tl (ruler n)"

lemma length_ruler [simp]: "length (ruler n) = 2 ^ n"
  by (induction n) auto

lemma lowest_bit_bitmap_ruler: "lowest_bit_bitmap = ruler 8"
  by (simp add: lowest_bit_bitmap_def eval_nat_numeral)

lemma bit_add_exp: "m < n \<Longrightarrow> bit (2 ^ n + i) m = bit (i :: nat) m"
proof -
  assume "m < n"
  then obtain k where n: "n = m + Suc k" by (metis less_iff_Suc_add add_Suc_right)
  have "2 ^ n + i = i + (2 * 2 ^ k) * 2 ^ m"
    by (simp add: n power_add)
  then have "(2 ^ n + i) div 2 ^ m = 2 * 2 ^ k + i div 2 ^ m"
    by (simp only: div_mult_self1 power_not_zero) simp
  then show ?thesis by (simp add: bit_iff_odd)
qed

lemma ruler_lowest:
  "0 < i \<Longrightarrow> i < 2 ^ n \<Longrightarrow> ruler n ! i < n \<and> bit i (ruler n ! i) \<and> (\<forall>m<ruler n ! i. \<not> bit i m)"
proof (induction n arbitrary: i)
  case (Suc n)
  consider "i < 2 ^ n" | "i = 2 ^ n" | j where "i = 2 ^ n + j" "0 < j" "j < 2 ^ n"
    using Suc.prems by (metis add_0_right add_diff_inverse_nat less_add_same_cancel1 mult_2
        nat_add_left_cancel_less neq0_conv power_Suc)
  then show ?case
  proof cases
    case 1
    with Suc.IH [OF Suc.prems(1)] show ?thesis by (simp add: nth_append less_SucI)
  next
    case 2
    then show ?thesis by (auto simp: nth_append bit_exp_iff)
  next
    case 3
    have "ruler (Suc n) ! i = ruler n ! j"
      using 3 by (cases j) (auto simp: nth_append nth_tl)
    then show ?thesis
      using Suc.IH [OF 3(2,3)] 3(1) by (auto simp: bit_add_exp less_SucI)
  qed
qed simp

lemma lowest_bit_bitmap_nth:
  assumes "0 < i" "i < 256"
  shows "bit i (lowest_bit_bitmap ! i)" "m < lowest_bit_bitmap ! i \<Longrightarrow> \<not> bit i m"
  using ruler_lowest [of i 8] assms by (auto simp: lowest_bit_bitmap_ruler)

text \<open>One byte of the word, \<open>k\<close> bits up, with everything below it clear.\<close>

lemma lowest_bit_byte:
  fixes v :: u32
  assumes b: "b = drop_bit k (v AND push_bit k 0xff)" "v AND push_bit k 0xff \<noteq> 0"
    and below: "\<And>m. m < k \<Longrightarrow> \<not> bit v m" and k: "k + 8 \<le> 32"
  shows "lowest_bit v (lowest_bit_bitmap ! unat b + k)"
proof -
  have ff: "(0xff :: u32) = mask 8"
    by (simp add: mask_eq_exp_minus_1)
  have bits: "bit b n \<longleftrightarrow> n < 8 \<and> bit v (n + k)" for n
    using k unfolding b(1) ff by (auto simp: bit_simps add.commute)
  have "unat b < 256"
  proof -
    have "b = take_bit 8 b"
      by (rule bit_word_eqI) (auto simp: bit_simps bits)
    then have "unat b = take_bit 8 (unat b)"
      by (metis unsigned_take_bit_eq)
    also have "\<dots> < 2 ^ 8" by (rule take_bit_nat_less_exp)
    finally show ?thesis by simp
  qed
  have "b \<noteq> 0"
  proof
    assume "b = 0"
    have "v AND push_bit k 0xff = 0"
    proof (rule bit_word_eqI)
      fix n assume "n < LENGTH(32)"
      show "bit (v AND push_bit k 0xff) n = bit 0 n"
        using bits [of "n - k"] \<open>b = 0\<close> unfolding ff by (auto simp: bit_simps)
    qed
    with b(2) show False ..
  qed
  then have "0 < unat b" by (simp add: unat_gt_0)
  note tbl = lowest_bit_bitmap_nth [OF this \<open>unat b < 256\<close>]
  have "bit b (lowest_bit_bitmap ! unat b)"
    using tbl(1) by (simp add: bit_unsigned_iff)
  moreover have "\<not> bit v m" if "m < lowest_bit_bitmap ! unat b + k" for m
  proof (cases "m < k")
    case False
    then have "\<not> bit (unat b) (m - k)" using tbl(2) [of "m - k"] that by auto
    moreover have "lowest_bit_bitmap ! unat b < 8"
      using \<open>bit b (lowest_bit_bitmap ! unat b)\<close> bits by blast
    ultimately show ?thesis
      using False that bits [of "m - k"] by (auto simp: bit_unsigned_iff)
  qed (use below in blast)
  ultimately show ?thesis
    unfolding lowest_bit_def using bits by blast
qed

lemma lowest_bit_rt_ffs:
  assumes "v \<noteq> 0"
  shows "\<exists>n<32. lowest_bit v n \<and> rt_ffs v = Suc n"
proof -
  have ff: "(0xff :: u32) = mask 8"
    by (simp add: mask_eq_exp_minus_1)
  have byte: "\<not> bit v m" if "v AND push_bit k 0xff = 0" "k \<le> m" "m < k + 8" for m k
  proof
    assume "bit v m"
    then have "bit (v AND push_bit k 0xff) m"
      unfolding ff using that by (auto simp: bit_simps dest: bit_imp_le_length)
    with that(1) show False by simp
  qed
  note byte0 = byte [of 0, simplified] and byte8 = byte [of 8, simplified]
    and byte16 = byte [of 16, simplified] and byte24 = byte [of 24, simplified]
  have 0: ?thesis if "v AND 0xff \<noteq> 0"
    using lowest_bit_byte [of "v AND 0xff" 0 v] that assms
    by (auto simp: rt_ffs_def lowest_bit_def add.commute dest: bit_imp_le_length)
  have 8: ?thesis if "v AND 0xff = 0" "v AND 0xff00 \<noteq> 0"
    using lowest_bit_byte [of "drop_bit 8 (v AND 0xff00)" 8 v] that assms byte0
    by (auto simp: rt_ffs_def lowest_bit_def add.commute dest: bit_imp_le_length)
  have 16: ?thesis if "v AND 0xff = 0" "v AND 0xff00 = 0" "v AND 0xff0000 \<noteq> 0"
  proof -
    have "\<not> bit v m" if "m < 16" for m
      using byte0 byte8 that \<open>v AND 0xff = 0\<close> \<open>v AND 0xff00 = 0\<close> by (cases "m < 8") auto
    then show ?thesis
      using lowest_bit_byte [of "drop_bit 16 (v AND 0xff0000)" 16 v] that assms
      by (auto simp: rt_ffs_def lowest_bit_def add.commute dest: bit_imp_le_length)
  qed
  have 24: ?thesis if "v AND 0xff = 0" "v AND 0xff00 = 0" "v AND 0xff0000 = 0"
  proof -
    have low: "\<not> bit v m" if "m < 24" for m
      using byte0 byte8 byte16 that \<open>v AND 0xff = 0\<close> \<open>v AND 0xff00 = 0\<close> \<open>v AND 0xff0000 = 0\<close>
      by (cases "m < 8"; cases "m < 16") auto
    have "v AND 0xff000000 \<noteq> 0"
    proof
      assume *: "v AND 0xff000000 = 0"
      have "v = 0"
      proof (rule bit_word_eqI)
        fix n assume "n < LENGTH(32)"
        then show "bit v n = bit 0 n"
          using low [of n] byte24 [OF *, of n] by (cases "n < 24") auto
      qed
      with assms show False ..
    qed
    then show ?thesis
      using lowest_bit_byte [of "drop_bit 24 (v AND 0xff000000)" 24 v] that assms low
      by (auto simp: rt_ffs_def lowest_bit_def add.commute dest: bit_imp_le_length)
  qed
  show ?thesis
    using 0 8 16 24 by blast
qed

text \<open>C28: \<open>__rt_ffs\<close> is the position of the least significant set bit, counted from one, and zero for
  the zero word: the four table lookups agree with the definition of the function.\<close>

theorem rt_ffs_least: "rt_ffs v = (if v = 0 then 0 else Suc (LEAST n. bit v n))"
proof (cases "v = 0")
  case False
  then obtain n where n: "lowest_bit v n" "rt_ffs v = Suc n"
    using lowest_bit_rt_ffs by blast
  then have "(LEAST n. bit v n) = n"
    unfolding lowest_bit_def by (intro Least_equality) (auto simp: not_less [symmetric])
  with False n show ?thesis by simp
qed (simp add: rt_ffs_def)

subsection \<open>Ready lists\<close>

text \<open>
  \<open>_scheduler_get_highest_priority_thread\<close>. An empty list at the chosen priority would make
  \<open>rt_list_entry\<close> turn the list head into a thread: no result.
\<close>

definition get_highest_priority_thread :: "kernel \<Rightarrow> (tid \<times> nat) option" where
  "get_highest_priority_thread s = do {
     let prio = rt_ffs (rt_thread_ready_priority_group s) - 1;
     rt_assert (prio < RT_THREAD_PRIORITY_MAX);
     (case queue s (Ready prio) of [] \<Rightarrow> None | t # _ \<Rightarrow> Some (t, prio))
   }"

text \<open>\<open>rt_system_scheduler_init\<close>: initialises the list heads and clears the bitmap.\<close>

definition rt_system_scheduler_init :: "kernel \<Rightarrow> kernel" where
  "rt_system_scheduler_init s =
     s\<lparr>rt_scheduler_lock_nest := 0,
       queue := (\<lambda>l. case l of Ready p \<Rightarrow> if p < RT_THREAD_PRIORITY_MAX then [] else queue s l
                             | _ \<Rightarrow> queue s l),
       rt_thread_ready_priority_group := 0\<rparr>"

definition rt_schedule_insert_thread :: "tid \<Rightarrow> kernel \<Rightarrow> kernel option" where
  "rt_schedule_insert_thread t s =
     (if rt_current_thread s = Some t
      then Some (upd_thread t (stat_update (\<lambda>_. RT_THREAD_RUNNING)) s)
      else do {
        let s = upd_thread t (stat_update (\<lambda>_. RT_THREAD_READY)) s;
        let prio = unat (current_priority (threads s t));
        rt_assert (prio < RT_THREAD_PRIORITY_MAX);
        s \<leftarrow> list_link (Ready prio) (\<lambda>q. q @ [t]) t s;
        Some (s\<lparr>rt_thread_ready_priority_group :=
                 rt_thread_ready_priority_group s OR number_mask (threads s t)\<rparr>)
      })"

definition rt_schedule_remove_thread :: "tid \<Rightarrow> kernel \<Rightarrow> kernel option" where
  "rt_schedule_remove_thread t s = do {
     let s = list_remove t s;
     let prio = unat (current_priority (threads s t));
     rt_assert (prio < RT_THREAD_PRIORITY_MAX);
     Some (if queue s (Ready prio) = []
           then s\<lparr>rt_thread_ready_priority_group :=
                   rt_thread_ready_priority_group s AND NOT (number_mask (threads s t))\<rparr>
           else s)
   }"

subsection \<open>Scheduling\<close>

text \<open>\<open>rt_system_scheduler_start\<close>: the first switch, to the highest priority thread.\<close>

definition rt_system_scheduler_start :: "kernel \<Rightarrow> kernel option" where
  "rt_system_scheduler_start s = do {
     (to, _) \<leftarrow> get_highest_priority_thread s;
     let s = s\<lparr>rt_current_thread := Some to\<rparr>;
     s \<leftarrow> rt_schedule_remove_thread to s;
     Some (upd_thread to (\<lambda>t. t\<lparr>stat := RT_THREAD_RUNNING, yield := False\<rparr>) s)
   }"

text \<open>
  Whether \<open>rt_schedule\<close> keeps the running thread: it has a higher priority than every ready
  thread, or the same as the best of them and its time slice is not used up.
\<close>

definition keeps_current :: "rt_thread \<Rightarrow> nat \<Rightarrow> bool" where
  "keeps_current th highest \<longleftrightarrow>
     stat th = RT_THREAD_RUNNING \<and>
     (unat (current_priority th) < highest \<or>
      unat (current_priority th) = highest \<and> \<not> yield th)"

definition rt_schedule :: "kernel \<Rightarrow> kernel option" where
  "rt_schedule s =
     (if rt_scheduler_lock_nest s = 0 \<and> rt_thread_ready_priority_group s \<noteq> 0
      then do {
        (top, highest) \<leftarrow> get_highest_priority_thread s;
        from \<leftarrow> rt_current_thread s;
        let th = threads s from;
        let running = (stat th = RT_THREAD_RUNNING);
        let to = (if keeps_current th highest then from else top);
        let need_insert_from_thread = (running \<and> \<not> keeps_current th highest);
        let s = (if running then upd_thread from (yield_update (\<lambda>_. False)) s else s);
        if to \<noteq> from
        then do {
          let s = s\<lparr>rt_current_priority := of_nat highest, rt_current_thread := Some to\<rparr>;
          s \<leftarrow> (if need_insert_from_thread then rt_schedule_insert_thread from s else Some s);
          s \<leftarrow> rt_schedule_remove_thread to s;
          Some (upd_thread to (stat_update (\<lambda>_. RT_THREAD_RUNNING)) s)
        }
        else do {
          s \<leftarrow> rt_schedule_remove_thread from s;
          Some (upd_thread from (stat_update (\<lambda>_. RT_THREAD_RUNNING)) s)
        }
      }
      else Some s)"

subsection \<open>Scheduler lock and interrupt nesting\<close>

definition rt_enter_critical :: "kernel \<Rightarrow> kernel" where
  "rt_enter_critical s = s\<lparr>rt_scheduler_lock_nest := rt_scheduler_lock_nest s + 1\<rparr>"

definition rt_exit_critical :: "kernel \<Rightarrow> kernel option" where
  "rt_exit_critical s =
     (let s = s\<lparr>rt_scheduler_lock_nest := rt_scheduler_lock_nest s - 1\<rparr>
      in if sint (rt_scheduler_lock_nest s) \<le> 0
         then let s = s\<lparr>rt_scheduler_lock_nest := 0\<rparr>
              in if rt_current_thread s \<noteq> None then rt_schedule s else Some s
         else Some s)"

definition rt_critical_level :: "kernel \<Rightarrow> u16" where
  "rt_critical_level s = rt_scheduler_lock_nest s"

text \<open>\<open>src/irq.c\<close>\<close>

definition rt_interrupt_enter :: "kernel \<Rightarrow> kernel" where
  "rt_interrupt_enter s = s\<lparr>rt_interrupt_nest := rt_interrupt_nest s + 1\<rparr>"

definition rt_interrupt_leave :: "kernel \<Rightarrow> kernel" where
  "rt_interrupt_leave s = s\<lparr>rt_interrupt_nest := rt_interrupt_nest s - 1\<rparr>"

definition rt_interrupt_get_nest :: "kernel \<Rightarrow> u8" where
  "rt_interrupt_get_nest s = rt_interrupt_nest s"

text \<open>\<open>RT_DEBUG_NOT_IN_INTERRUPT\<close>, \<open>RT_DEBUG_IN_THREAD_CONTEXT\<close>, \<open>RT_DEBUG_SCHEDULER_AVAILABLE\<close>\<close>

definition not_in_interrupt :: "kernel \<Rightarrow> unit option" where
  "not_in_interrupt s = rt_assert (rt_interrupt_get_nest s = 0)"

definition in_thread_context :: "kernel \<Rightarrow> unit option" where
  "in_thread_context s = do {
     rt_assert (rt_current_thread s \<noteq> None);
     not_in_interrupt s
   }"

definition scheduler_available :: "bool \<Rightarrow> kernel \<Rightarrow> unit option" where
  "scheduler_available need_check s =
     (if need_check
      then do { rt_assert (rt_critical_level s = 0); in_thread_context s }
      else Some ())"

text \<open>
  The part of \<open>rt_object_init\<close> that other components can see: it asserts, with the scheduler
  locked, that the object is not registered yet. Unlocking may switch threads; what the caller
  does afterwards touches only the new object, which no other thread knows yet, so it is applied
  in the same step.
\<close>

definition rt_object_init :: "rt_obj \<Rightarrow> kernel \<Rightarrow> kernel option" where
  "rt_object_init obj s = do {
     rt_assert (obj = ObjNull);
     rt_exit_critical (rt_enter_critical s)
   }"

end
