(* ===== verification/Timer.thy ===== *)
theory Timer imports Scheduler
begin

text \<open>
  The hard timers of \<open>src/timer.c\<close> with \<open>RT_TIMER_SKIP_LIST_LEVEL\<close> 1, the board's setting: one list
  sorted by \<open>timeout_tick\<close>, compared modulo \<open>2 ^ 32\<close>. \<open>RT_USING_TIMER_SOFT\<close> is not configured.
  The random row height of the skip list has no effect with one row.
\<close>

text \<open>\<open>RT_TICK_MAX / 2\<close>: the horizon within which two ticks can be compared.\<close>

definition TICK_HORIZON :: u32 where "TICK_HORIZON = RT_TICK_MAX div 2"

lemma unat_TICK_HORIZON [simp]: "unat TICK_HORIZON = 2147483647"
  by (simp add: TICK_HORIZON_def RT_TICK_MAX_def unat_div)

text \<open>\<open>_timer_init\<close>; \<open>rt_list_init\<close> on the row of a linked timer would tear the list.\<close>

definition timer_init :: "timer_id \<Rightarrow> u32 \<Rightarrow> bool \<Rightarrow> kernel \<Rightarrow> kernel option" where
  "timer_init t time per s = do {
     rt_assert (t \<notin> set (timer_list s) \<and> t \<notin> set (expired s));
     Some (upd_timer t (\<lambda>m. m\<lparr>activated := False, periodic := per, timeout_tick := 0,
                               tm_init_tick := time\<rparr>) s)
   }"

text \<open>\<open>_timer_list_next_timeout\<close> on the list and the value the caller's variable holds.\<close>

definition timer_list_next_timeout :: "kernel \<Rightarrow> u32 \<Rightarrow> rt_err_t \<times> u32" where
  "timer_list_next_timeout s out =
     (case timer_list s of
        t # _ \<Rightarrow> (RT_EOK, timeout_tick (timers s t))
      | [] \<Rightarrow> (- RT_ERROR, out))"

text \<open>\<open>_timer_remove\<close>: \<open>rt_list_remove\<close> takes the row out of whichever list it is in.\<close>

definition timer_remove :: "timer_id \<Rightarrow> kernel \<Rightarrow> kernel" where
  "timer_remove t s = s\<lparr>timer_list := removeAll t (timer_list s), expired := removeAll t (expired s)\<rparr>"

definition deactivate :: "timer_id \<Rightarrow> kernel \<Rightarrow> kernel" where
  "deactivate t s = upd_timer t (activated_update (\<lambda>_. False)) s"

definition rt_timer_init :: "timer_id \<Rightarrow> u32 \<Rightarrow> bool \<Rightarrow> kernel \<Rightarrow> kernel option" where
  "rt_timer_init t time per s = do {
     rt_assert (time < TICK_HORIZON);
     s \<leftarrow> rt_object_init (tm_obj (timers s t)) s;
     let s = upd_timer t (tm_obj_update (\<lambda>_. ObjStatic)) s;
     timer_init t time per s
   }"

definition rt_timer_detach :: "timer_id \<Rightarrow> kernel \<Rightarrow> (rt_err_t \<times> kernel) option" where
  "rt_timer_detach t s = do {
     rt_assert (tm_obj (timers s t) = ObjStatic);
     let s = deactivate t (timer_remove t s);
     Some (RT_EOK, upd_timer t (tm_obj_update (\<lambda>_. ObjNull)) s)
   }"

text \<open>
  \<open>rt_timer_create\<close>: \<open>alloc\<close> is the answer of \<open>rt_object_allocate\<close>, \<open>None\<close> for a null pointer.
\<close>

definition rt_timer_create ::
    "timer_id option \<Rightarrow> u32 \<Rightarrow> bool \<Rightarrow> kernel \<Rightarrow> (timer_id option \<times> kernel) option" where
  "rt_timer_create alloc time per s = do {
     rt_assert (time < TICK_HORIZON);
     not_in_interrupt s;
     (case alloc of
        None \<Rightarrow> Some (None, s)
      | Some t \<Rightarrow> do {
          s \<leftarrow> timer_init t time per (upd_timer t (tm_obj_update (\<lambda>_. ObjDynamic)) s);
          Some (Some t, s)
        })
   }"

definition rt_timer_delete :: "timer_id \<Rightarrow> kernel \<Rightarrow> (rt_err_t \<times> kernel) option" where
  "rt_timer_delete t s = do {
     rt_assert (tm_obj (timers s t) = ObjDynamic);
     let s = deactivate t (timer_remove t s);
     Some (RT_EOK, upd_timer t (tm_obj_update (\<lambda>_. ObjNull)) s)
   }"

text \<open>
  The insertion point of \<open>rt_timer_start\<close>: behind every timer that expires earlier or at the same
  tick, by the wrap-around comparison of the code.
\<close>

fun timer_place :: "(timer_id \<Rightarrow> rt_timer) \<Rightarrow> timer_id \<Rightarrow> timer_id list \<Rightarrow> timer_id list" where
  "timer_place tm t [] = [t]"
| "timer_place tm t (p # ps) =
     (if timeout_tick (tm p) - timeout_tick (tm t) = 0 then p # timer_place tm t ps
      else if timeout_tick (tm p) - timeout_tick (tm t) < TICK_HORIZON then t # p # ps
      else p # timer_place tm t ps)"

definition rt_timer_start :: "timer_id \<Rightarrow> kernel \<Rightarrow> (rt_err_t \<times> kernel) option" where
  "rt_timer_start t s = do {
     rt_assert (tm_obj (timers s t) \<noteq> ObjNull);
     let s = deactivate t (timer_remove t s);
     let s = upd_timer t (\<lambda>m. m\<lparr>timeout_tick := rt_tick s + tm_init_tick m\<rparr>) s;
     let s = s\<lparr>timer_list := timer_place (timers s) t (timer_list s)\<rparr>;
     Some (RT_EOK, upd_timer t (activated_update (\<lambda>_. True)) s)
   }"

definition rt_timer_stop :: "timer_id \<Rightarrow> kernel \<Rightarrow> (rt_err_t \<times> kernel) option" where
  "rt_timer_stop t s = do {
     rt_assert (tm_obj (timers s t) \<noteq> ObjNull);
     Some (if \<not> activated (timers s t) then (- RT_ERROR, s)
           else (RT_EOK, deactivate t (timer_remove t s)))
   }"

text \<open>
  \<open>rt_timer_control\<close>: \<open>arg\<close> is the word the pointer points to, before and after. The case
  \<open>GET_STATE\<close> of the source has no \<open>break\<close>, so the timeout tick overwrites the state.
\<close>

datatype timer_ctrl = RT_TIMER_CTRL_SET_TIME | RT_TIMER_CTRL_GET_TIME | RT_TIMER_CTRL_SET_ONESHOT
  | RT_TIMER_CTRL_SET_PERIODIC | RT_TIMER_CTRL_GET_STATE | RT_TIMER_CTRL_GET_REMAIN_TIME
  | RT_TIMER_CTRL_OTHER

definition rt_timer_control ::
    "timer_id \<Rightarrow> timer_ctrl \<Rightarrow> u32 \<Rightarrow> kernel \<Rightarrow> (rt_err_t \<times> u32 \<times> kernel) option" where
  "rt_timer_control t cmd arg s = do {
     rt_assert (tm_obj (timers s t) \<noteq> ObjNull);
     (case cmd of
        RT_TIMER_CTRL_GET_TIME \<Rightarrow> Some (RT_EOK, tm_init_tick (timers s t), s)
      | RT_TIMER_CTRL_SET_TIME \<Rightarrow> do {
          rt_assert (arg < TICK_HORIZON);
          Some (RT_EOK, arg, upd_timer t (tm_init_tick_update (\<lambda>_. arg)) s)
        }
      | RT_TIMER_CTRL_SET_ONESHOT \<Rightarrow>
          Some (RT_EOK, arg, upd_timer t (periodic_update (\<lambda>_. False)) s)
      | RT_TIMER_CTRL_SET_PERIODIC \<Rightarrow>
          Some (RT_EOK, arg, upd_timer t (periodic_update (\<lambda>_. True)) s)
      | RT_TIMER_CTRL_GET_STATE \<Rightarrow>
          (let arg = (if activated (timers s t) then 1 else 0 :: u32);
               arg = timeout_tick (timers s t)
           in Some (RT_EOK, arg, s))
      | RT_TIMER_CTRL_GET_REMAIN_TIME \<Rightarrow> Some (RT_EOK, timeout_tick (timers s t), s)
      | RT_TIMER_CTRL_OTHER \<Rightarrow> Some (RT_EOK, arg, s))
   }"

text \<open>
  \<open>rt_timer_check\<close>: \<open>fire t\<close> is the call of \<open>t\<close>'s timeout function. The loop may run forever (a
  periodic timer of period zero restarts itself as due), so it is a partial function.
\<close>

partial_function (option) timer_check_loop ::
    "(timer_id \<Rightarrow> kernel \<Rightarrow> kernel option) \<Rightarrow> u32 \<Rightarrow> kernel \<Rightarrow> kernel option" where
  "timer_check_loop fire current_tick s =
     (case timer_list s of
        [] \<Rightarrow> Some s
      | t # _ \<Rightarrow>
          if current_tick - timeout_tick (timers s t) < TICK_HORIZON
          then do {
            let s = timer_remove t s;
            let s = (if periodic (timers s t) then s else deactivate t s);
            s \<leftarrow> fire t (s\<lparr>expired := t # expired s\<rparr>);
            let current_tick = rt_tick s;
            if expired s = [] then timer_check_loop fire current_tick s
            else do {
              let s = timer_remove t s;
              if periodic (timers s t) \<and> activated (timers s t)
              then do {
                (_, s) \<leftarrow> rt_timer_start t (deactivate t s);
                timer_check_loop fire current_tick s
              }
              else timer_check_loop fire current_tick s
            }
          }
          else Some s)"

definition rt_timer_check :: "(timer_id \<Rightarrow> kernel \<Rightarrow> kernel option) \<Rightarrow> kernel \<Rightarrow> kernel option" where
  "rt_timer_check fire s = timer_check_loop fire (rt_tick s) (s\<lparr>expired := []\<rparr>)"

definition rt_timer_next_timeout_tick :: "kernel \<Rightarrow> u32" where
  "rt_timer_next_timeout_tick s = snd (timer_list_next_timeout s RT_TICK_MAX)"

end
