(* ===== verification/Thread.thy ===== *)
theory Thread imports Timer
begin

text \<open>
  Threads (\<open>src/thread.c\<close>), the tick (\<open>src/clock.c\<close>) and the collection of defunct threads
  (\<open>src/idle.c\<close>).

  A thread's name, entry point and stack are not part of the state. A call that suspends its
  caller is split where the caller is switched out: the definition named after the function ends
  with \<open>rt_schedule\<close>, and \<open>..._resume\<close> is what the function does when its thread runs again.
\<close>

subsection \<open>Defunct threads\<close>

definition rt_thread_defunct_enqueue :: "tid \<Rightarrow> kernel \<Rightarrow> kernel option" where
  "rt_thread_defunct_enqueue t s = list_link Defunct (\<lambda>q. t # q) t s"

definition rt_thread_defunct_dequeue :: "kernel \<Rightarrow> tid option \<times> kernel" where
  "rt_thread_defunct_dequeue s =
     (case queue s Defunct of [] \<Rightarrow> (None, s) | t # _ \<Rightarrow> (Some t, list_remove t s))"

text \<open>
  \<open>rt_defunct_execute\<close>: \<open>cleanup t\<close> is the thread's cleanup function (the identity when it has
  none); \<open>rt_object_detach\<close> and \<open>rt_object_delete\<close> both take the object off its class's list.
\<close>

partial_function (option) rt_defunct_execute ::
    "(tid \<Rightarrow> kernel \<Rightarrow> kernel option) \<Rightarrow> kernel \<Rightarrow> kernel option" where
  "rt_defunct_execute cleanup s =
     (case rt_thread_defunct_dequeue s of
        (None, s) \<Rightarrow> Some s
      | (Some t, s) \<Rightarrow> do {
          s \<leftarrow> cleanup t s;
          rt_defunct_execute cleanup (upd_thread t (th_obj_update (\<lambda>_. ObjNull)) s)
        })"

subsection \<open>Suspend and resume\<close>

definition rt_thread_self :: "kernel \<Rightarrow> tid option" where
  "rt_thread_self s = rt_current_thread s"

definition rt_thread_suspend :: "tid \<Rightarrow> kernel \<Rightarrow> (rt_err_t \<times> kernel) option" where
  "rt_thread_suspend t s = do {
     rt_assert (th_obj (threads s t) \<noteq> ObjNull);
     rt_assert (rt_thread_self s = Some t);
     if stat (threads s t) \<noteq> RT_THREAD_READY \<and> stat (threads s t) \<noteq> RT_THREAD_RUNNING
     then Some (- RT_ERROR, s)
     else do {
       s \<leftarrow> rt_schedule_remove_thread t s;
       let s = upd_thread t (stat_update (\<lambda>_. RT_THREAD_SUSPEND)) s;
       (_, s) \<leftarrow> rt_timer_stop (TThread t) s;
       Some (RT_EOK, s)
     }
   }"

definition rt_thread_resume :: "tid \<Rightarrow> kernel \<Rightarrow> (rt_err_t \<times> kernel) option" where
  "rt_thread_resume t s = do {
     rt_assert (th_obj (threads s t) \<noteq> ObjNull);
     if stat (threads s t) \<noteq> RT_THREAD_SUSPEND then Some (- RT_ERROR, s)
     else do {
       let s = list_remove t s;
       (_, s) \<leftarrow> rt_timer_stop (TThread t) s;
       s \<leftarrow> rt_schedule_insert_thread t s;
       Some (RT_EOK, s)
     }
   }"

text \<open>\<open>_thread_timeout\<close>, the timeout function of every thread's own timer.\<close>

definition thread_timeout :: "tid \<Rightarrow> kernel \<Rightarrow> kernel option" where
  "thread_timeout t s = do {
     rt_assert (stat (threads s t) = RT_THREAD_SUSPEND);
     rt_assert (th_obj (threads s t) \<noteq> ObjNull);
     let s = upd_thread t (error_update (\<lambda>_. - RT_ETIMEOUT)) s;
     let s = list_remove t s;
     s \<leftarrow> rt_schedule_insert_thread t s;
     rt_schedule s
   }"

text \<open>
  What a timer calls when it expires; \<open>callback\<close> stands for the timeout functions that drivers and
  applications give their own timers.
\<close>

fun fire :: "(nat \<Rightarrow> kernel \<Rightarrow> kernel option) \<Rightarrow> timer_id \<Rightarrow> kernel \<Rightarrow> kernel option" where
  "fire callback (TThread t) s = thread_timeout t s"
| "fire callback (TUser n) s = callback n s"

subsection \<open>Life cycle\<close>

text \<open>\<open>_thread_init\<close>\<close>

definition thread_init :: "tid \<Rightarrow> u8 \<Rightarrow> u32 \<Rightarrow> kernel \<Rightarrow> kernel option" where
  "thread_init t priority ticks s = do {
     rt_assert (tlist (threads s t) = None);
     rt_assert (unat priority < RT_THREAD_PRIORITY_MAX);
     let s = upd_thread t (\<lambda>h. h\<lparr>current_priority := priority, number_mask := 0,
               event_set := 0, event_info := 0, init_tick := ticks, remaining_tick := ticks,
               error := RT_EOK, stat := RT_THREAD_INIT, yield := False\<rparr>) s;
     rt_timer_init (TThread t) 0 False s
   }"

definition rt_thread_init :: "tid \<Rightarrow> u8 \<Rightarrow> u32 \<Rightarrow> kernel \<Rightarrow> (rt_err_t \<times> kernel) option" where
  "rt_thread_init t priority ticks s = do {
     s \<leftarrow> rt_object_init (th_obj (threads s t)) s;
     let s = upd_thread t (th_obj_update (\<lambda>_. ObjStatic)) s;
     s \<leftarrow> thread_init t priority ticks s;
     Some (RT_EOK, s)
   }"

text \<open>
  \<open>rt_thread_create\<close>: \<open>alloc\<close> answers \<open>rt_object_allocate\<close>, \<open>stack\<close> says whether the allocation of the
  stack succeeds.
\<close>

definition rt_thread_create ::
    "tid option \<Rightarrow> bool \<Rightarrow> u8 \<Rightarrow> u32 \<Rightarrow> kernel \<Rightarrow> (tid option \<times> kernel) option" where
  "rt_thread_create alloc stack priority ticks s = do {
     not_in_interrupt s;
     (case alloc of
        None \<Rightarrow> Some (None, s)
      | Some t \<Rightarrow>
          let s = upd_thread t (th_obj_update (\<lambda>_. ObjDynamic)) s
          in if \<not> stack
             then Some (None, upd_thread t (th_obj_update (\<lambda>_. ObjNull)) s)
             else do {
               s \<leftarrow> thread_init t priority ticks s;
               Some (Some t, s)
             })
   }"

text \<open>\<open>1L << current_priority\<close>; a shift by 32 or more is undefined in C.\<close>

definition priority_mask :: "u8 \<Rightarrow> u32 option" where
  "priority_mask p = do {
     rt_assert (unat p < RT_THREAD_PRIORITY_MAX);
     Some (push_bit (unat p) 1)
   }"

definition rt_thread_startup :: "tid \<Rightarrow> kernel \<Rightarrow> (rt_err_t \<times> kernel) option" where
  "rt_thread_startup t s = do {
     rt_assert (stat (threads s t) = RT_THREAD_INIT);
     rt_assert (th_obj (threads s t) \<noteq> ObjNull);
     m \<leftarrow> priority_mask (current_priority (threads s t));
     let s = upd_thread t (\<lambda>h. h\<lparr>number_mask := m, stat := RT_THREAD_SUSPEND, yield := False\<rparr>) s;
     (_, s) \<leftarrow> rt_thread_resume t s;
     s \<leftarrow> (if rt_thread_self s \<noteq> None then rt_schedule s else Some s);
     Some (RT_EOK, s)
   }"

text \<open>The common body of \<open>rt_thread_detach\<close> and \<open>rt_thread_delete\<close>.\<close>

definition thread_close :: "tid \<Rightarrow> kernel \<Rightarrow> kernel option" where
  "thread_close t s =
     (if stat (threads s t) = RT_THREAD_CLOSE then Some s
      else do {
        s \<leftarrow> (if stat (threads s t) \<noteq> RT_THREAD_INIT then rt_schedule_remove_thread t s
              else Some s);
        (_, s) \<leftarrow> rt_timer_detach (TThread t) s;
        let s = upd_thread t (\<lambda>h. h\<lparr>stat := RT_THREAD_CLOSE, yield := False\<rparr>) s;
        rt_thread_defunct_enqueue t s
      })"

definition rt_thread_detach :: "tid \<Rightarrow> kernel \<Rightarrow> (rt_err_t \<times> kernel) option" where
  "rt_thread_detach t s = do {
     rt_assert (th_obj (threads s t) = ObjStatic);
     s \<leftarrow> thread_close t s;
     Some (RT_EOK, s)
   }"

definition rt_thread_delete :: "tid \<Rightarrow> kernel \<Rightarrow> (rt_err_t \<times> kernel) option" where
  "rt_thread_delete t s = do {
     rt_assert (th_obj (threads s t) = ObjDynamic);
     s \<leftarrow> thread_close t s;
     Some (RT_EOK, s)
   }"

text \<open>\<open>_thread_exit\<close>: where a thread's entry function returns to.\<close>

definition thread_exit :: "kernel \<Rightarrow> kernel option" where
  "thread_exit s = do {
     t \<leftarrow> rt_thread_self s;
     s \<leftarrow> rt_schedule_remove_thread t s;
     (_, s) \<leftarrow> rt_timer_detach (TThread t) s;
     let s = upd_thread t (\<lambda>h. h\<lparr>stat := RT_THREAD_CLOSE, yield := False\<rparr>) s;
     s \<leftarrow> rt_thread_defunct_enqueue t s;
     rt_schedule s
   }"

subsection \<open>Giving up the processor\<close>

definition rt_thread_yield :: "kernel \<Rightarrow> (rt_err_t \<times> kernel) option" where
  "rt_thread_yield s = do {
     t \<leftarrow> rt_thread_self s;
     s \<leftarrow> rt_schedule (upd_thread t (\<lambda>h. h\<lparr>remaining_tick := init_tick h, yield := True\<rparr>) s);
     Some (RT_EOK, s)
   }"

text \<open>
  \<open>switch_out t k\<close>: the call of \<open>rt_schedule\<close> at the end of the first half of a blocking call. When
  it finds no thread to switch to, it returns to the caller at once, who goes on with \<open>k\<close>.
\<close>

definition switch_out ::
    "tid \<Rightarrow> 'l \<Rightarrow> (kernel \<Rightarrow> (('r, 'l) call \<times> kernel) option) \<Rightarrow> kernel \<Rightarrow> (('r, 'l) call \<times> kernel) option"
  where
  "switch_out t l k s = do {
     s \<leftarrow> rt_schedule s;
     if rt_current_thread s = Some t then k s else Some (Blocked l, s)
   }"

text \<open>\<open>rt_timer_control(SET_TIME)\<close> and \<open>rt_timer_start\<close> on the timer of thread \<open>t\<close>\<close>

definition start_thread_timer :: "tid \<Rightarrow> u32 \<Rightarrow> kernel \<Rightarrow> kernel option" where
  "start_thread_timer t time s = do {
     (_, _, s) \<leftarrow> rt_timer_control (TThread t) RT_TIMER_CTRL_SET_TIME time s;
     (_, s) \<leftarrow> rt_timer_start (TThread t) s;
     Some s
   }"

definition thread_sleep_resume :: "tid \<Rightarrow> kernel \<Rightarrow> rt_err_t \<times> kernel" where
  "thread_sleep_resume t s =
     (if error (threads s t) = - RT_ETIMEOUT
      then (RT_EOK, upd_thread t (error_update (\<lambda>_. RT_EOK)) s)
      else (error (threads s t), s))"

definition rt_thread_sleep :: "u32 \<Rightarrow> kernel \<Rightarrow> ((rt_err_t, unit) call \<times> kernel) option" where
  "rt_thread_sleep ticks s = do {
     t \<leftarrow> rt_thread_self s;
     rt_assert (th_obj (threads s t) \<noteq> ObjNull);
     let s = upd_thread t (error_update (\<lambda>_. RT_EOK)) s;
     (_, s) \<leftarrow> rt_thread_suspend t s;
     s \<leftarrow> start_thread_timer t ticks s;
     switch_out t () (\<lambda>s. Some (apfst Done (thread_sleep_resume t s))) s
   }"

definition rt_thread_delay :: "u32 \<Rightarrow> kernel \<Rightarrow> ((rt_err_t, unit) call \<times> kernel) option" where
  "rt_thread_delay ticks s = rt_thread_sleep ticks s"

text \<open>
  \<open>rt_thread_delay_until\<close>: the value of \<open>*tick\<close> after the call is returned with the state.
\<close>

definition rt_thread_delay_until ::
    "u32 \<Rightarrow> u32 \<Rightarrow> kernel \<Rightarrow> (u32 \<times> (rt_err_t, unit) call \<times> kernel) option" where
  "rt_thread_delay_until tck inc_tick s = do {
     t \<leftarrow> rt_thread_self s;
     rt_assert (th_obj (threads s t) \<noteq> ObjNull);
     let s = upd_thread t (error_update (\<lambda>_. RT_EOK)) s;
     let cur_tick = rt_tick s;
     if cur_tick - tck < inc_tick
     then do {
       let tck = tck + inc_tick;
       let left_tick = tck - cur_tick;
       (_, s) \<leftarrow> rt_thread_suspend t s;
       s \<leftarrow> start_thread_timer t left_tick s;
       r \<leftarrow> switch_out t () (\<lambda>s. Some (apfst Done (thread_sleep_resume t s))) s;
       Some (tck, r)
     }
     else Some (cur_tick, Done (error (threads s t)), s)
   }"

text \<open>\<open>rt_tick_from_millisecond\<close> with \<open>RT_TICK_PER_SECOND\<close> 1000; C division truncates.\<close>

definition RT_TICK_PER_SECOND :: int where "RT_TICK_PER_SECOND = 1000"

definition rt_tick_from_millisecond :: "u32 \<Rightarrow> u32" where
  "rt_tick_from_millisecond ms =
     (if sint ms < 0 then - 1
      else of_int (RT_TICK_PER_SECOND * (sint ms div 1000)) +
           of_int ((RT_TICK_PER_SECOND * (sint ms mod 1000) + 999) div 1000))"

definition rt_thread_mdelay :: "u32 \<Rightarrow> kernel \<Rightarrow> ((rt_err_t, unit) call \<times> kernel) option" where
  "rt_thread_mdelay ms s = rt_thread_sleep (rt_tick_from_millisecond ms) s"

subsection \<open>Control\<close>

datatype thread_ctrl = RT_THREAD_CTRL_STARTUP | RT_THREAD_CTRL_CLOSE
  | RT_THREAD_CTRL_CHANGE_PRIORITY u8 | RT_THREAD_CTRL_OTHER

definition change_priority :: "tid \<Rightarrow> u8 \<Rightarrow> kernel \<Rightarrow> kernel option" where
  "change_priority t p s =
     (if stat (threads s t) = RT_THREAD_READY
      then do {
        s \<leftarrow> rt_schedule_remove_thread t s;
        m \<leftarrow> priority_mask p;
        rt_schedule_insert_thread t
          (upd_thread t (\<lambda>h. h\<lparr>current_priority := p, number_mask := m\<rparr>) s)
      }
      else do {
        m \<leftarrow> priority_mask p;
        Some (upd_thread t (\<lambda>h. h\<lparr>current_priority := p, number_mask := m\<rparr>) s)
      })"

definition rt_thread_control :: "tid \<Rightarrow> thread_ctrl \<Rightarrow> kernel \<Rightarrow> (rt_err_t \<times> kernel) option" where
  "rt_thread_control t cmd s = do {
     rt_assert (th_obj (threads s t) \<noteq> ObjNull);
     (case cmd of
        RT_THREAD_CTRL_CHANGE_PRIORITY p \<Rightarrow> do {
          s \<leftarrow> change_priority t p s;
          Some (RT_EOK, s)
        }
      | RT_THREAD_CTRL_STARTUP \<Rightarrow> rt_thread_startup t s
      | RT_THREAD_CTRL_CLOSE \<Rightarrow> do {
          (r, s) \<leftarrow> (if th_obj (threads s t) = ObjStatic then rt_thread_detach t s
                    else rt_thread_delete t s);
          s \<leftarrow> rt_schedule s;
          Some (r, s)
        }
      | RT_THREAD_CTRL_OTHER \<Rightarrow> Some (RT_EOK, s))
   }"

subsection \<open>The tick\<close>

definition rt_tick_get :: "kernel \<Rightarrow> u32" where
  "rt_tick_get s = rt_tick s"

definition rt_tick_set :: "u32 \<Rightarrow> kernel \<Rightarrow> kernel" where
  "rt_tick_set v s = s\<lparr>rt_tick := v\<rparr>"

definition rt_tick_increase :: "(nat \<Rightarrow> kernel \<Rightarrow> kernel option) \<Rightarrow> kernel \<Rightarrow> kernel option" where
  "rt_tick_increase callback s = do {
     let s = s\<lparr>rt_tick := rt_tick s + 1\<rparr>;
     t \<leftarrow> rt_thread_self s;
     let s = upd_thread t (\<lambda>h. h\<lparr>remaining_tick := remaining_tick h - 1\<rparr>) s;
     s \<leftarrow> (if remaining_tick (threads s t) = 0
           then rt_schedule (upd_thread t (\<lambda>h. h\<lparr>remaining_tick := init_tick h, yield := True\<rparr>) s)
           else Some s);
     rt_timer_check (fire callback) s
   }"

end
