(* ===== verification/KInv.thy ===== *)
theory KInv imports Thread
begin

text \<open>
  The invariant of the thread state: intrusive lists, ready bitmap, thread states, thread timers;
  and that every operation of the scheduler and of \<open>thread.c\<close> keeps it.

  Between taking a thread out of one list and putting it into the next, the invariant holds for
  every other thread: \<open>kinv_but X\<close> exempts the threads in \<open>X\<close>, which are then in no list.
\<close>

named_theorems kinv_intros \<open>operations keep the kernel invariant\<close>

subsection \<open>The invariant\<close>

text \<open>A thread is in a list exactly when its link says so, and once.\<close>

definition links_ok :: "kernel \<Rightarrow> bool" where
  "links_ok s \<longleftrightarrow>
     (\<forall>l. distinct (queue s l) \<and> (\<forall>t. t \<in> set (queue s l) \<longleftrightarrow> tlist (threads s t) = Some l))"

text \<open>A bit of the ready group is set exactly when the ready list of that priority is not empty.\<close>

definition ready_ok :: "kernel \<Rightarrow> bool" where
  "ready_ok s \<longleftrightarrow>
     (\<forall>p. bit (rt_thread_ready_priority_group s) p \<longleftrightarrow> queue s (Ready p) \<noteq> [])"

text \<open>The timer list holds each timer once, and only registered timers that are marked active.\<close>

definition timers_ok :: "kernel \<Rightarrow> bool" where
  "timers_ok s \<longleftrightarrow> distinct (timer_list s) \<and>
     (\<forall>m \<in> set (timer_list s). activated (timers s m) \<and> tm_obj (timers s m) \<noteq> ObjNull)"

text \<open>What holds of a registered thread and its timer, whatever list it is in.\<close>

definition live :: "rt_thread \<Rightarrow> bool" where
  "live h \<longleftrightarrow> stat h \<noteq> RT_THREAD_INIT \<and> stat h \<noteq> RT_THREAD_CLOSE"

definition thread_base :: "kernel \<Rightarrow> tid \<Rightarrow> bool" where
  "thread_base s t \<longleftrightarrow> (let h = threads s t; m = timers s (TThread t) in
     unat (current_priority h) < RT_THREAD_PRIORITY_MAX \<and>
     (live h \<longrightarrow> number_mask h = push_bit (unat (current_priority h)) 1 \<and> tm_obj m = ObjStatic) \<and>
     (stat h = RT_THREAD_CLOSE \<longrightarrow> tm_obj m = ObjNull) \<and> tm_obj m \<noteq> ObjDynamic \<and>
     (tm_obj m = ObjStatic \<longrightarrow> \<not> periodic m))"

text \<open>The list a thread is in and its state belong together.\<close>

definition place_ok :: "rt_thread \<Rightarrow> bool" where
  "place_ok h \<longleftrightarrow>
     (case tlist h of
        None \<Rightarrow> stat h \<noteq> RT_THREAD_READY \<and> stat h \<noteq> RT_THREAD_CLOSE
      | Some l \<Rightarrow>
          (case l of
             Ready p \<Rightarrow> stat h = RT_THREAD_READY \<and> p = unat (current_priority h)
           | Defunct \<Rightarrow> stat h = RT_THREAD_CLOSE
           | _ \<Rightarrow> stat h = RT_THREAD_SUSPEND))"

definition thread_ok :: "kernel \<Rightarrow> tid \<Rightarrow> bool" where
  "thread_ok s t \<longleftrightarrow> (let h = threads s t in
     (th_obj h = ObjNull \<longrightarrow> tlist h = None \<and> TThread t \<notin> set (timer_list s) \<and>
        rt_current_thread s \<noteq> Some t) \<and>
     (th_obj h \<noteq> ObjNull \<longrightarrow> thread_base s t \<and> place_ok h \<and>
        (stat h = RT_THREAD_RUNNING \<longrightarrow> rt_current_thread s = Some t) \<and>
        (rt_current_thread s = Some t \<longrightarrow> stat h \<noteq> RT_THREAD_READY \<and> stat h \<noteq> RT_THREAD_INIT) \<and>
        (TThread t \<in> set (timer_list s) \<longrightarrow> stat h = RT_THREAD_SUSPEND)))"

text \<open>A thread in flight.\<close>

definition flight_ok :: "kernel \<Rightarrow> tid \<Rightarrow> bool" where
  "flight_ok s t \<longleftrightarrow>
     th_obj (threads s t) \<noteq> ObjNull \<and> tlist (threads s t) = None \<and> thread_base s t"

definition kinv_but :: "tid set \<Rightarrow> kernel \<Rightarrow> bool" where
  "kinv_but X s \<longleftrightarrow> links_ok s \<and> ready_ok s \<and> timers_ok s \<and>
     (\<forall>t. if t \<in> X then flight_ok s t else thread_ok s t)"

definition kinv :: "kernel \<Rightarrow> bool" where
  "kinv s \<longleftrightarrow> kinv_but {} s"

lemmas kinv_defs = links_ok_def ready_ok_def timers_ok_def thread_base_def place_ok_def live_def
  thread_ok_def flight_ok_def

subsection \<open>What the invariant does not look at\<close>

text \<open>Two states of a thread that agree on what the invariant reads.\<close>

definition same_thread :: "rt_thread \<Rightarrow> rt_thread \<Rightarrow> bool" where
  "same_thread h' h \<longleftrightarrow> th_obj h' = th_obj h \<and> tlist h' = tlist h \<and> stat h' = stat h \<and>
     current_priority h' = current_priority h \<and> number_mask h' = number_mask h"

lemma same_thread_refl [simp]: "same_thread h h"
  by (simp add: same_thread_def)

lemma place_ok_cong: "same_thread h' h \<Longrightarrow> place_ok h' = place_ok h"
  by (auto simp: place_ok_def same_thread_def split: option.split qid.split)

lemma thread_ok_cong:
  assumes "same_thread (threads s' t) (threads s t)" "timers s' (TThread t) = timers s (TThread t)"
    "TThread t \<in> set (timer_list s') \<longleftrightarrow> TThread t \<in> set (timer_list s)"
    "rt_current_thread s' = Some t \<longleftrightarrow> rt_current_thread s = Some t"
  shows "thread_ok s' t = thread_ok s t" "flight_ok s' t = flight_ok s t"
  using assms place_ok_cong [OF assms(1)]
  by (simp_all add: thread_ok_def flight_ok_def thread_base_def live_def same_thread_def Let_def)

lemma kinv_but_frame:
  assumes "\<And>t. same_thread (threads s' t) (threads s t)" "queue s' = queue s"
    "rt_thread_ready_priority_group s' = rt_thread_ready_priority_group s"
    "rt_current_thread s' = rt_current_thread s" "timers s' = timers s"
    "timer_list s' = timer_list s"
  shows "kinv_but X s' = kinv_but X s"
proof -
  have "thread_ok s' t = thread_ok s t" "flight_ok s' t = flight_ok s t" for t
    by (simp_all add: thread_ok_cong [of s' t s] assms)
  then show ?thesis
    using assms by (simp add: kinv_but_def links_ok_def ready_ok_def timers_ok_def same_thread_def)
qed

lemma kinv_but_frame_simps [simp]:
  "kinv_but X (upd_sem i fs s) = kinv_but X s"
  "kinv_but X (upd_mutex i fm s) = kinv_but X s"
  "kinv_but X (upd_event i fe s) = kinv_but X s"
  "kinv_but X (upd_mb i fb s) = kinv_but X s"
  "kinv_but X (upd_mq i fq s) = kinv_but X s"
  "kinv_but X (s\<lparr>rt_scheduler_lock_nest := n\<rparr>) = kinv_but X s"
  "kinv_but X (s\<lparr>rt_interrupt_nest := k\<rparr>) = kinv_but X s"
  "kinv_but X (s\<lparr>rt_current_priority := p\<rparr>) = kinv_but X s"
  "kinv_but X (s\<lparr>rt_tick := w\<rparr>) = kinv_but X s"
  "kinv_but X (s\<lparr>expired := es\<rparr>) = kinv_but X s"
  by (rule kinv_but_frame; simp)+

lemma kinv_frame_simps [simp]:
  "kinv (upd_sem i fs s) = kinv s" "kinv (upd_mutex i fm s) = kinv s"
  "kinv (upd_event i fe s) = kinv s" "kinv (upd_mb i fb s) = kinv s"
  "kinv (upd_mq i fq s) = kinv s"
  "kinv (s\<lparr>rt_scheduler_lock_nest := n\<rparr>) = kinv s" "kinv (s\<lparr>rt_interrupt_nest := k\<rparr>) = kinv s"
  "kinv (s\<lparr>rt_current_priority := p\<rparr>) = kinv s" "kinv (s\<lparr>rt_tick := w\<rparr>) = kinv s"
  "kinv (s\<lparr>expired := es\<rparr>) = kinv s"
  by (simp_all add: kinv_def)

text \<open>Updates of a thread that leave alone what the invariant reads.\<close>

definition idle_update :: "(rt_thread \<Rightarrow> rt_thread) \<Rightarrow> bool" where
  "idle_update f \<longleftrightarrow> (\<forall>h. same_thread (f h) h)"

lemma idle_update_simps [simp]:
  "idle_update (error_update fe)" "idle_update (yield_update fy)"
  "idle_update (event_set_update fs)" "idle_update (event_info_update fi)"
  "idle_update (remaining_tick_update fr)"
  "idle_update (\<lambda>h. h\<lparr>remaining_tick := r h, yield := y\<rparr>)"
  "idle_update (\<lambda>h. h\<lparr>remaining_tick := r h\<rparr>)"
  "idle_update (\<lambda>h. h\<lparr>event_set := w, event_info := o'\<rparr>)"
  by (simp_all add: idle_update_def same_thread_def)

lemma kinv_but_idle [simp]: "idle_update f \<Longrightarrow> kinv_but X (upd_thread t f s) = kinv_but X s"
  by (rule kinv_but_frame) (simp_all add: idle_update_def)

lemma kinv_idle [simp]: "idle_update f \<Longrightarrow> kinv (upd_thread t f s) = kinv s"
  by (simp add: kinv_def)

subsection \<open>Reading the invariant\<close>

lemma kinv_links: "kinv_but X s \<Longrightarrow> t \<in> set (queue s l) \<longleftrightarrow> tlist (threads s t) = Some l"
  by (simp add: kinv_but_def links_ok_def)

lemma kinv_distinct: "kinv_but X s \<Longrightarrow> distinct (queue s l)"
  by (simp add: kinv_but_def links_ok_def)

lemma kinv_ready: "kinv_but X s \<Longrightarrow> bit (rt_thread_ready_priority_group s) p \<longleftrightarrow> queue s (Ready p) \<noteq> []"
  by (simp add: kinv_but_def ready_ok_def)

lemma kinv_thread: "kinv_but X s \<Longrightarrow> t \<notin> X \<Longrightarrow> thread_ok s t"
  unfolding kinv_but_def by metis

lemma kinv_flight: "kinv_but X s \<Longrightarrow> t \<in> X \<Longrightarrow> flight_ok s t"
  unfolding kinv_but_def by metis

lemma kinv_registered: "kinv_but X s \<Longrightarrow> tlist (threads s t) \<noteq> None \<Longrightarrow> th_obj (threads s t) \<noteq> ObjNull"
  by (cases "t \<in> X") (auto dest: kinv_thread kinv_flight simp: thread_ok_def flight_ok_def Let_def)

lemma kinv_butI:
  assumes "links_ok s" "ready_ok s" "timers_ok s"
    "\<And>t. t \<in> X \<Longrightarrow> flight_ok s t" "\<And>t. t \<notin> X \<Longrightarrow> thread_ok s t"
  shows "kinv_but X s"
  using assms by (simp add: kinv_but_def)

subsection \<open>Moving one thread\<close>

text \<open>
  Every primitive below changes one thread. \<open>kinv_but_change\<close> reduces its preservation to the lists
  and that thread.
\<close>

lemma kinv_but_change:
  assumes "kinv_but X s" "links_ok s'" "ready_ok s'" "timers_ok s'"
    and "\<And>u. u \<noteq> t \<Longrightarrow> threads s' u = threads s u"
    and "\<And>u. u \<noteq> t \<Longrightarrow> timers s' (TThread u) = timers s (TThread u)"
    and "\<And>u. u \<noteq> t \<Longrightarrow> TThread u \<in> set (timer_list s') \<longleftrightarrow> TThread u \<in> set (timer_list s)"
    and "\<And>u. u \<noteq> t \<Longrightarrow> rt_current_thread s' = Some u \<longleftrightarrow> rt_current_thread s = Some u"
    and "if t \<in> Y then flight_ok s' t else thread_ok s' t"
    and "\<And>u. u \<noteq> t \<Longrightarrow> u \<in> Y \<longleftrightarrow> u \<in> X"
  shows "kinv_but Y s'"
proof -
  have "if u \<in> Y then flight_ok s' u else thread_ok s' u" for u
  proof (cases "u = t")
    case False
    then have "thread_ok s' u = thread_ok s u" "flight_ok s' u = flight_ok s u"
      by (simp_all add: thread_ok_cong [of s' u s] assms)
    moreover have "if u \<in> X then flight_ok s u else thread_ok s u"
      using assms(1) by (simp add: kinv_but_def)
    ultimately show ?thesis using assms(10) False by auto
  qed (use assms in simp)
  then show ?thesis using assms by (simp add: kinv_but_def)
qed

lemma links_ok_remove: "links_ok s \<Longrightarrow> links_ok (list_remove t s)"
  by (auto simp: links_ok_def)

lemma links_ok_upd: "links_ok s \<Longrightarrow> (\<And>h. tlist (f h) = tlist h) \<Longrightarrow> links_ok (upd_thread t f s)"
  by (simp add: links_ok_def)

lemma links_ok_link:
  assumes "links_ok s" "tlist (threads s t) = None" "set (place (queue s l)) = insert t (set (queue s l))"
    "length (place (queue s l)) = Suc (length (queue s l))"
  shows "links_ok (upd_thread t (tlist_update (\<lambda>_. Some l)) (s\<lparr>queue := (queue s)(l := place (queue s l))\<rparr>))"
proof -
  have "t \<notin> set (queue s l)" using assms by (simp add: links_ok_def)
  then have "distinct (place (queue s l))"
    using assms by (simp add: links_ok_def distinct_card card_distinct)
  then show ?thesis using assms by (auto simp: links_ok_def)
qed

text \<open>Taking a waiting or unlinked thread out of its list.\<close>

lemma kinv_list_remove:
  assumes "kinv_but X s" "t \<notin> X" "th_obj (threads s t) \<noteq> ObjNull"
    "stat (threads s t) \<noteq> RT_THREAD_READY"
  shows "kinv_but (insert t X) (list_remove t s)"
proof (rule kinv_but_change [OF assms(1), where t = t])
  have ok: "thread_ok s t" using assms by (simp add: kinv_thread)
  have "tlist (threads s t) \<noteq> Some (Ready p)" for p
    using ok assms(3,4) by (auto simp: thread_ok_def place_ok_def Let_def)
  then show "ready_ok (list_remove t s)"
    using assms(1) by (auto simp: kinv_but_def ready_ok_def)
  show "if t \<in> insert t X then flight_ok (list_remove t s) t else thread_ok (list_remove t s) t"
    using ok assms(3) by (simp add: flight_ok_def thread_ok_def thread_base_def live_def Let_def)
qed (use assms in \<open>auto simp: kinv_but_def timers_ok_def intro: links_ok_remove\<close>)

text \<open>\<open>rt_schedule_remove_thread\<close> takes any live thread out and keeps the bitmap exact.\<close>

lemma bit_not_exp: "bit (w AND NOT (2 ^ k)) n \<longleftrightarrow> bit (w :: u32) n \<and> n \<noteq> k"
  by (auto simp: bit_simps dest: bit_imp_le_length)

lemma bit_or_exp: "k < 32 \<Longrightarrow> bit (w OR 2 ^ k) n \<longleftrightarrow> bit (w :: u32) n \<or> n = k"
  by (auto simp: bit_simps dest: bit_imp_le_length)

lemma kinv_schedule_remove:
  assumes "kinv_but X s" "t \<notin> X" "th_obj (threads s t) \<noteq> ObjNull"
    "stat (threads s t) \<noteq> RT_THREAD_INIT" "stat (threads s t) \<noteq> RT_THREAD_CLOSE"
  obtains g where
    "rt_schedule_remove_thread t s = Some ((list_remove t s)\<lparr>rt_thread_ready_priority_group := g\<rparr>)"
    "kinv_but (insert t X) ((list_remove t s)\<lparr>rt_thread_ready_priority_group := g\<rparr>)"
proof -
  let ?p = "unat (current_priority (threads s t))"
  let ?r = "list_remove t s"
  let ?g = "rt_thread_ready_priority_group s"
  let ?g' = "if queue ?r (Ready ?p) = [] then ?g AND NOT (2 ^ ?p) else ?g"
  let ?s' = "?r\<lparr>rt_thread_ready_priority_group := ?g'\<rparr>"
  have ok: "thread_ok s t" using assms by (simp add: kinv_thread)
  then have p: "?p < RT_THREAD_PRIORITY_MAX" and m: "number_mask (threads s t) = 2 ^ ?p"
    using assms(3-5) by (auto simp: thread_ok_def thread_base_def live_def Let_def)
  have step: "rt_schedule_remove_thread t s = Some ?s'"
    using p m by (auto simp: rt_schedule_remove_thread_def Let_def)
  have "ready_ok ?s'"
    unfolding ready_ok_def
  proof
    fix n
    have g: "bit ?g n \<longleftrightarrow> queue s (Ready n) \<noteq> []"
      using assms(1) by (simp add: kinv_ready)
    have loc: "n = ?p" if "tlist (threads s t) = Some (Ready n)"
      using ok that assms(3) by (auto simp: thread_ok_def place_ok_def Let_def)
    have "bit ?g' n \<longleftrightarrow> queue ?r (Ready n) \<noteq> []"
    proof (cases "n = ?p")
      case True
      then show ?thesis using g by (auto simp: bit_not_exp)
    next
      case False
      then have "queue ?r (Ready n) = queue s (Ready n)" using loc by auto
      then show ?thesis using g False by (simp add: bit_not_exp)
    qed
    then show "bit (rt_thread_ready_priority_group ?s') n \<longleftrightarrow> queue ?s' (Ready n) \<noteq> []" by simp
  qed
  moreover have "links_ok ?s'" "timers_ok ?s'"
    using links_ok_remove [of s t] assms(1) by (simp_all add: kinv_but_def links_ok_def timers_ok_def)
  ultimately have "kinv_but (insert t X) ?s'"
    using ok assms(3)
    by (intro kinv_but_change [OF assms(1), where t = t])
      (auto simp: flight_ok_def thread_ok_def thread_base_def live_def Let_def)
  with step show thesis by (rule that)
qed

text \<open>
  \<open>rt_schedule_insert_thread\<close> puts a thread in flight at the end of its ready list; the current thread
  goes back to running instead.
\<close>

definition ready_tail :: "tid \<Rightarrow> kernel \<Rightarrow> kernel" where
  "ready_tail t s = (let p = unat (current_priority (threads s t)) in
     upd_thread t (\<lambda>h. h\<lparr>stat := RT_THREAD_READY, tlist := Some (Ready p)\<rparr>) s
       \<lparr>queue := (queue s)(Ready p := queue s (Ready p) @ [t]),
        rt_thread_ready_priority_group := rt_thread_ready_priority_group s OR 2 ^ p\<rparr>)"

lemma kinv_ready_tail:
  assumes "kinv_but X s" "t \<in> X" "stat (threads s t) \<noteq> RT_THREAD_INIT"
    "stat (threads s t) \<noteq> RT_THREAD_CLOSE" "TThread t \<notin> set (timer_list s)"
    "rt_current_thread s \<noteq> Some t"
  shows "rt_schedule_insert_thread t s = Some (ready_tail t s)" "kinv_but (X - {t}) (ready_tail t s)"
proof -
  let ?p = "unat (current_priority (threads s t))"
  have fl: "flight_ok s t" using assms by (simp add: kinv_flight)
  then have p: "?p < 32" and m: "number_mask (threads s t) = 2 ^ ?p" and n: "tlist (threads s t) = None"
    using assms(3,4) by (auto simp: flight_ok_def thread_base_def live_def Let_def RT_THREAD_PRIORITY_MAX_def)
  show "rt_schedule_insert_thread t s = Some (ready_tail t s)"
    using p m n assms(6)
    by (auto simp: rt_schedule_insert_thread_def list_link_def Let_def ready_tail_def
        RT_THREAD_PRIORITY_MAX_def intro!: kernel.equality)
  have "links_ok (ready_tail t s)"
    using links_ok_link [of s t "\<lambda>q. q @ [t]" "Ready ?p"] n assms(1)
    by (simp add: ready_tail_def kinv_but_def links_ok_def Let_def)
  moreover have "ready_ok (ready_tail t s)"
    unfolding ready_ok_def
  proof
    fix n
    have "bit (rt_thread_ready_priority_group s) n \<longleftrightarrow> queue s (Ready n) \<noteq> []"
      using assms(1) by (simp add: kinv_ready)
    then show "bit (rt_thread_ready_priority_group (ready_tail t s)) n
        \<longleftrightarrow> queue (ready_tail t s) (Ready n) \<noteq> []"
      using p by (simp add: ready_tail_def Let_def bit_or_exp)
  qed
  moreover have "timers_ok (ready_tail t s)"
    using assms(1) by (simp add: kinv_but_def timers_ok_def ready_tail_def Let_def)
  ultimately show "kinv_but (X - {t}) (ready_tail t s)"
    using fl assms(3-6)
    by (intro kinv_but_change [OF assms(1), where t = t])
      (auto simp: ready_tail_def flight_ok_def thread_ok_def thread_base_def live_def place_ok_def Let_def)
qed

lemma kinv_insert_current:
  assumes "kinv_but X s" "t \<in> X" "stat (threads s t) \<noteq> RT_THREAD_INIT"
    "stat (threads s t) \<noteq> RT_THREAD_CLOSE" "TThread t \<notin> set (timer_list s)"
    "rt_current_thread s = Some t"
  shows "rt_schedule_insert_thread t s = Some (upd_thread t (stat_update (\<lambda>_. RT_THREAD_RUNNING)) s)"
    "kinv_but (X - {t}) (upd_thread t (stat_update (\<lambda>_. RT_THREAD_RUNNING)) s)"
proof -
  show "rt_schedule_insert_thread t s = Some (upd_thread t (stat_update (\<lambda>_. RT_THREAD_RUNNING)) s)"
    using assms(6) by (simp add: rt_schedule_insert_thread_def)
  have "flight_ok s t" using assms by (simp add: kinv_flight)
  then show "kinv_but (X - {t}) (upd_thread t (stat_update (\<lambda>_. RT_THREAD_RUNNING)) s)"
    using assms
    by (intro kinv_but_change [OF assms(1), where t = t])
      (auto simp: kinv_but_def links_ok_upd ready_ok_def timers_ok_def flight_ok_def thread_ok_def
        thread_base_def live_def place_ok_def Let_def)
qed

text \<open>A thread in flight changes state, lands in a list that is not a ready list, or in none.\<close>

lemma kinv_flight_stat:
  assumes "kinv_but X s" "t \<in> X" "stat (threads s t) \<noteq> RT_THREAD_INIT"
    "stat (threads s t) \<noteq> RT_THREAD_CLOSE" "v \<noteq> RT_THREAD_INIT" "v \<noteq> RT_THREAD_CLOSE"
  shows "kinv_but X (upd_thread t (stat_update (\<lambda>_. v)) s)"
  using assms kinv_flight [OF assms(1,2)]
  by (intro kinv_but_change [OF assms(1), where t = t])
    (auto simp: kinv_but_def links_ok_upd ready_ok_def timers_ok_def flight_ok_def thread_base_def live_def Let_def)

lemma kinv_land:
  assumes "kinv_but X s" "t \<in> X" "stat (threads s t) \<noteq> RT_THREAD_READY"
    "stat (threads s t) \<noteq> RT_THREAD_CLOSE"
    "stat (threads s t) = RT_THREAD_RUNNING \<Longrightarrow> rt_current_thread s = Some t"
    "rt_current_thread s = Some t \<Longrightarrow> stat (threads s t) \<noteq> RT_THREAD_INIT"
    "TThread t \<in> set (timer_list s) \<Longrightarrow> stat (threads s t) = RT_THREAD_SUSPEND"
  shows "kinv_but (X - {t}) s"
  using assms kinv_flight [OF assms(1,2)]
  by (intro kinv_but_change [OF assms(1), where t = t])
    (auto simp: kinv_but_def flight_ok_def thread_ok_def place_ok_def Let_def)

lemma kinv_link:
  assumes "kinv_but X s" "t \<in> X"
    "case l of Ready p \<Rightarrow> False | Defunct \<Rightarrow> stat (threads s t) = RT_THREAD_CLOSE
       | _ \<Rightarrow> stat (threads s t) = RT_THREAD_SUSPEND"
    "set (place (queue s l)) = insert t (set (queue s l))"
    "length (place (queue s l)) = Suc (length (queue s l))"
    "TThread t \<in> set (timer_list s) \<Longrightarrow> stat (threads s t) = RT_THREAD_SUSPEND"
  obtains s' where "list_link l place t s = Some s'" "kinv_but (X - {t}) s'"
    "s' = upd_thread t (tlist_update (\<lambda>_. Some l)) (s\<lparr>queue := (queue s)(l := place (queue s l))\<rparr>)"
proof -
  let ?s' = "upd_thread t (tlist_update (\<lambda>_. Some l)) (s\<lparr>queue := (queue s)(l := place (queue s l))\<rparr>)"
  have fl: "flight_ok s t" using assms by (simp add: kinv_flight)
  have "kinv_but (X - {t}) ?s'"
  proof (rule kinv_but_change [OF assms(1), where t = t])
    show "links_ok ?s'"
      using assms fl by (intro links_ok_link) (auto simp: kinv_but_def flight_ok_def)
    show "ready_ok ?s'" "timers_ok ?s'"
      using assms(1,3) by (auto simp: kinv_but_def ready_ok_def timers_ok_def split: qid.splits)
    have "place_ok (threads ?s' t)"
      using assms(3) by (auto simp: place_ok_def split: qid.splits)
    moreover have "stat (threads s t) = RT_THREAD_CLOSE \<or> stat (threads s t) = RT_THREAD_SUSPEND"
      using assms(3) by (auto split: qid.splits)
    ultimately show "if t \<in> X - {t} then flight_ok ?s' t else thread_ok ?s' t"
      using fl assms(6) by (auto simp: flight_ok_def thread_ok_def thread_base_def live_def Let_def)
  qed auto
  moreover have "list_link l place t s = Some ?s'"
    using fl by (simp add: list_link_eq_Some flight_ok_def)
  ultimately show thesis using that by blast
qed

text \<open>Removing the running thread, which is in no list, changes nothing.\<close>

lemma kinv_remove_running:
  assumes "kinv_but X s" "t \<notin> X" "th_obj (threads s t) \<noteq> ObjNull" "stat (threads s t) = RT_THREAD_RUNNING"
  shows "tlist (threads s t) = None" "TThread t \<notin> set (timer_list s)"
    "rt_schedule_remove_thread t s = Some s"
proof -
  have ok: "thread_ok s t" using assms by (simp add: kinv_thread)
  then show n: "tlist (threads s t) = None" and "TThread t \<notin> set (timer_list s)"
    using assms(3,4) by (auto simp: thread_ok_def place_ok_def Let_def split: option.splits qid.splits)
  let ?p = "unat (current_priority (threads s t))"
  have "?p < RT_THREAD_PRIORITY_MAX" "number_mask (threads s t) = 2 ^ ?p"
    using ok assms(3,4) by (auto simp: thread_ok_def thread_base_def live_def Let_def)
  moreover have "rt_thread_ready_priority_group s AND NOT (2 ^ ?p) = rt_thread_ready_priority_group s"
    if "queue s (Ready ?p) = []"
    using that kinv_ready [OF assms(1), of ?p] by (intro bit_word_eqI) (auto simp: bit_not_exp)
  ultimately show "rt_schedule_remove_thread t s = Some s"
    using n by (simp add: rt_schedule_remove_thread_def list_remove_def Let_def)
qed

subsection \<open>The scheduler\<close>

lemma kinv_highest:
  assumes "kinv_but X s" "rt_thread_ready_priority_group s \<noteq> 0"
  obtains t p where "get_highest_priority_thread s = Some (t, p)" "queue s (Ready p) \<noteq> []"
    "t = hd (queue s (Ready p))" "p < 32" "\<And>q. q < p \<Longrightarrow> queue s (Ready q) = []"
proof -
  obtain p where p: "p < 32" "lowest_bit (rt_thread_ready_priority_group s) p"
    "rt_ffs (rt_thread_ready_priority_group s) = Suc p"
    using lowest_bit_rt_ffs [OF assms(2)] by blast
  then have "queue s (Ready p) \<noteq> []" "\<And>q. q < p \<Longrightarrow> queue s (Ready q) = []"
    using kinv_ready [OF assms(1)] by (auto simp: lowest_bit_def)
  moreover have "get_highest_priority_thread s = Some (hd (queue s (Ready p)), p)"
    using p \<open>queue s (Ready p) \<noteq> []\<close>
    by (simp add: get_highest_priority_thread_def RT_THREAD_PRIORITY_MAX_def split: list.split)
  ultimately show thesis using that p(1) by blast
qed

lemma kinv_no_ready:
  "kinv_but X s \<Longrightarrow> rt_thread_ready_priority_group s = 0 \<longleftrightarrow> (\<forall>p. queue s (Ready p) = [])"
  using kinv_ready [of X s] by (metis bit_0_eq bot_apply bot_bool_def bit_word_eqI)

lemma kinv_ready_thread:
  assumes "kinv_but X s" "t \<notin> X" "t \<in> set (queue s (Ready p))"
  shows "stat (threads s t) = RT_THREAD_READY" "unat (current_priority (threads s t)) = p"
    "th_obj (threads s t) \<noteq> ObjNull" "rt_current_thread s \<noteq> Some t"
    "TThread t \<notin> set (timer_list s)"
  using kinv_thread [OF assms(1,2)] assms(3) kinv_links [OF assms(1)]
  by (auto simp: thread_ok_def place_ok_def Let_def)

lemma kinv_ready_iff:
  assumes "kinv s" "th_obj (threads s t) \<noteq> ObjNull"
  shows "stat (threads s t) = RT_THREAD_READY \<longleftrightarrow>
    t \<in> set (queue s (Ready (unat (current_priority (threads s t)))))"
  using assms kinv_links [of "{}" s t] kinv_thread [of "{}" s t]
  by (auto simp: kinv_def thread_ok_def place_ok_def Let_def split: option.splits qid.splits)

text \<open>What \<open>rt_schedule\<close> never touches.\<close>

definition sched_frame :: "kernel \<Rightarrow> kernel \<Rightarrow> bool" where
  "sched_frame s s' \<longleftrightarrow>
     timers s' = timers s \<and> timer_list s' = timer_list s \<and> expired s' = expired s \<and>
     rt_tick s' = rt_tick s \<and> rt_scheduler_lock_nest s' = rt_scheduler_lock_nest s \<and>
     rt_interrupt_nest s' = rt_interrupt_nest s \<and> sems s' = sems s \<and> mutexes s' = mutexes s \<and>
     events s' = events s \<and> mailboxes s' = mailboxes s \<and> mqueues s' = mqueues s \<and>
     (\<forall>l. (\<forall>p. l \<noteq> Ready p) \<longrightarrow> queue s' l = queue s l) \<and>
     (\<forall>t. (\<exists>st y l. threads s' t = (threads s t)\<lparr>stat := st, yield := y, tlist := l\<rparr>) \<and>
        (stat (threads s t) \<noteq> RT_THREAD_READY \<and> stat (threads s t) \<noteq> RT_THREAD_RUNNING \<longrightarrow>
           threads s' t = threads s t))"

text \<open>The current thread is replaced while none is current.\<close>

lemma kinv_clear_current:
  assumes "kinv_but X s" "\<And>c. rt_current_thread s = Some c \<Longrightarrow> c \<in> X \<or> stat (threads s c) \<noteq> RT_THREAD_RUNNING"
  shows "kinv_but X (s\<lparr>rt_current_thread := None\<rparr>)"
proof (rule kinv_butI)
  fix t
  show "t \<in> X \<Longrightarrow> flight_ok (s\<lparr>rt_current_thread := None\<rparr>) t"
    by (drule kinv_flight [OF assms(1)]) (simp add: flight_ok_def thread_base_def live_def)
  assume t: "t \<notin> X"
  from kinv_thread [OF assms(1) t] show "thread_ok (s\<lparr>rt_current_thread := None\<rparr>) t"
    using assms(2) [of t] t by (auto simp: thread_ok_def thread_base_def live_def Let_def)
qed (use assms(1) in \<open>simp_all add: kinv_but_def links_ok_def ready_ok_def timers_ok_def\<close>)

lemma kinv_set_current:
  assumes "kinv_but X s" "rt_current_thread s = None" "n \<in> X"
  shows "kinv_but X (s\<lparr>rt_current_thread := Some n\<rparr>)"
  using assms kinv_flight [OF assms(1,3)]
  by (intro kinv_but_change [OF assms(1), where t = n])
    (auto simp: kinv_but_def links_ok_def ready_ok_def timers_ok_def flight_ok_def thread_base_def live_def)

lemma kinv_launch:
  assumes "kinv_but X s" "th_obj (threads s t) \<noteq> ObjNull" "tlist (threads s t) = None"
  shows "kinv_but (insert t X) s"
proof (cases "t \<in> X")
  case True
  with assms(1) show ?thesis by (simp add: insert_absorb)
next
  case False
  with assms kinv_thread [OF assms(1) False] show ?thesis
    by (intro kinv_but_change [OF assms(1), where t = t])
      (auto simp: kinv_but_def flight_ok_def thread_ok_def Let_def)
qed

lemma ready_tail_current:
  "ready_tail t (s\<lparr>rt_current_thread := c\<rparr>) = (ready_tail t s)\<lparr>rt_current_thread := c\<rparr>"
  by (auto simp: ready_tail_def Let_def intro!: kernel.equality)

lemma list_remove_current:
  "list_remove t (s\<lparr>rt_current_thread := c\<rparr>) = (list_remove t s)\<lparr>rt_current_thread := c\<rparr>"
  by (rule kernel.equality) (simp_all add: fun_eq_iff)

lemma rt_schedule_remove_current:
  "rt_schedule_remove_thread t (s\<lparr>rt_current_thread := c\<rparr>) =
     map_option (\<lambda>s. s\<lparr>rt_current_thread := c\<rparr>) (rt_schedule_remove_thread t s)"
  by (simp add: rt_schedule_remove_thread_def Let_def list_remove_current rt_assert_def)

lemma rt_schedule_insert_current:
  assumes "c \<noteq> Some t" "rt_current_thread s = None"
  shows "rt_schedule_insert_thread t (s\<lparr>rt_current_thread := c\<rparr>) =
     map_option (\<lambda>s. s\<lparr>rt_current_thread := c\<rparr>) (rt_schedule_insert_thread t s)"
  using assms
  by (auto simp: rt_schedule_insert_thread_def Let_def list_link_def rt_assert_def intro!: kernel.equality)

text \<open>The three outcomes of \<open>rt_schedule\<close>.\<close>

lemma rt_schedule_cases:
  assumes inv: "kinv s" and c: "rt_current_thread s = Some c"
    and lock: "rt_scheduler_lock_nest s = 0"
  obtains
    (idle) "\<And>p. queue s (Ready p) = []" "rt_schedule s = Some s"
  | (keep) s' p where "stat (threads s c) = RT_THREAD_RUNNING" "queue s (Ready p) \<noteq> []"
      "\<And>q. q < p \<Longrightarrow> queue s (Ready q) = []" "keeps_current (threads s c) p"
      "rt_schedule s = Some s'" "kinv s'" "s' = upd_thread c (yield_update (\<lambda>_. False)) s"
  | (switch) s' n p where "queue s (Ready p) \<noteq> []" "n = hd (queue s (Ready p))"
      "\<And>q. q < p \<Longrightarrow> queue s (Ready q) = []" "\<not> keeps_current (threads s c) p" "n \<noteq> c"
      "rt_schedule s = Some s'" "kinv s'" "rt_current_thread s' = Some n"
      "stat (threads s' n) = RT_THREAD_RUNNING"
      "\<And>l. queue s' l = (if l = Ready p then tl (queue s l) else queue s l) @
             (if stat (threads s c) = RT_THREAD_RUNNING \<and> l = Ready (unat (current_priority (threads s c)))
              then [c] else [])"
      "sched_frame s s'"
proof (cases "rt_thread_ready_priority_group s = 0")
  case True
  then show thesis
    using idle kinv_no_ready [of "{}" s] inv by (simp add: kinv_def rt_schedule_def)
next
  case False
  have inv0: "kinv_but {} s" using inv by (simp add: kinv_def)
  obtain n p where h: "get_highest_priority_thread s = Some (n, p)" "queue s (Ready p) \<noteq> []"
      "n = hd (queue s (Ready p))" "p < 32" "\<And>q. q < p \<Longrightarrow> queue s (Ready q) = []"
    using kinv_highest [OF inv0 False] by blast
  have nq: "n \<in> set (queue s (Ready p))" using h by simp
  note rn = kinv_ready_thread [OF inv0 _ nq, simplified]
  have "c \<noteq> n" using rn(4) c by auto
  have okc: "thread_ok s c" using inv0 by (simp add: kinv_thread)
  then have regc: "th_obj (threads s c) \<noteq> ObjNull" using c by (auto simp: thread_ok_def Let_def)
  then have stc: "stat (threads s c) \<noteq> RT_THREAD_READY" "stat (threads s c) \<noteq> RT_THREAD_INIT"
    using okc c by (auto simp: thread_ok_def Let_def)
  have runc: "tlist (threads s c) = None" "TThread c \<notin> set (timer_list s)"
    if "stat (threads s c) = RT_THREAD_RUNNING"
    using okc regc that by (auto simp: thread_ok_def place_ok_def Let_def split: option.splits qid.splits)
  show thesis
  proof (cases "keeps_current (threads s c) p")
    case True
    then have run: "stat (threads s c) = RT_THREAD_RUNNING" by (simp add: keeps_current_def)
    let ?s = "upd_thread c (yield_update (\<lambda>_. False)) s"
    have inv1: "kinv_but {} ?s" using inv0 by simp
    have "rt_schedule_remove_thread c ?s = Some ?s"
      using kinv_remove_running [OF inv1, of c] regc run by simp
    moreover have "upd_thread c (stat_update (\<lambda>_. RT_THREAD_RUNNING)) ?s = ?s"
      using run by (intro kernel.equality) auto
    ultimately have "rt_schedule s = Some ?s"
      using True h(1) c lock False run by (simp add: rt_schedule_def Let_def)
    then show thesis
      using keep [of p ?s] run h(2,5) True inv by simp
  next
    case notkeep: False
    let ?run = "stat (threads s c) = RT_THREAD_RUNNING"
    define s1 where "s1 = (if ?run then upd_thread c (yield_update (\<lambda>_. False)) s else s)
      \<lparr>rt_current_priority := of_nat p\<rparr>"
    define a where "a = s1\<lparr>rt_current_thread := None\<rparr>"
    define b where "b = (if ?run then ready_tail c a else a)"
    have inv1: "kinv_but {} s1" using inv0 by (simp add: s1_def)
    have c1: "rt_current_thread s1 = Some c" using c by (simp add: s1_def)
    have th1: "threads s1 u = (threads s u)\<lparr>yield := yield (threads s1 u)\<rparr>" for u
      by (simp add: s1_def)
    have inva: "kinv_but {c} a" if ?run
    proof -
      have "kinv_but {c} s1"
        using kinv_launch [OF inv1] regc runc(1) [OF that] by (subst (asm) (1 2) th1) simp
      then show ?thesis
        unfolding a_def using c1 by (intro kinv_clear_current) auto
    qed
    have invb: "kinv_but {} b"
    proof (cases ?run)
      case True
      have "stat (threads a c) = RT_THREAD_RUNNING" "TThread c \<notin> set (timer_list a)"
        using True runc(2) by (simp_all add: a_def s1_def)
      then show ?thesis
        using kinv_ready_tail(2) [OF inva [OF True], of c] True by (simp add: b_def a_def)
    next
      case norun: False
      then have "kinv_but {} a"
        unfolding a_def using c1 inv1 th1 [of c] by (intro kinv_clear_current) (auto simp: s1_def)
      then show ?thesis using norun by (simp add: b_def)
    qed
    have ins: "(if ?run then rt_schedule_insert_thread c (a\<lparr>rt_current_thread := Some n\<rparr>)
        else Some (a\<lparr>rt_current_thread := Some n\<rparr>)) = Some (b\<lparr>rt_current_thread := Some n\<rparr>)"
    proof (cases ?run)
      case True
      have "rt_schedule_insert_thread c a = Some (ready_tail c a)"
        using True runc(2) by (intro kinv_ready_tail(1) [OF inva [OF True]]) (simp_all add: a_def s1_def)
      then show ?thesis
        using True \<open>c \<noteq> n\<close> rt_schedule_insert_current [of "Some n" c a] by (simp add: b_def a_def)
    qed (simp add: b_def)
    have curb: "rt_current_thread b = None" by (simp add: b_def a_def ready_tail_def Let_def)
    have thb: "threads b n = threads s n"
      using \<open>c \<noteq> n\<close> by (auto simp: b_def a_def s1_def ready_tail_def Let_def)
    obtain g where g: "rt_schedule_remove_thread n b
          = Some ((list_remove n b)\<lparr>rt_thread_ready_priority_group := g\<rparr>)"
        "kinv_but {n} ((list_remove n b)\<lparr>rt_thread_ready_priority_group := g\<rparr>)"
      by (rule kinv_schedule_remove [OF invb, of n]) (use rn(1,3) thb in simp_all)
    obtain d where d: "rt_schedule_remove_thread n b = Some d" "kinv_but {n} d"
        "d = (list_remove n b)\<lparr>rt_thread_ready_priority_group := g\<rparr>"
      using g by blast
    define f where "f = upd_thread n (stat_update (\<lambda>_. RT_THREAD_RUNNING)) (d\<lparr>rt_current_thread := Some n\<rparr>)"
    have f: "threads f u = (if u = n then (threads s n)\<lparr>stat := RT_THREAD_RUNNING, tlist := None\<rparr>
        else threads b u)" for u
      by (simp add: f_def d(3) thb)
    have thc: "threads b u = (if u = c \<and> ?run then (threads s c)\<lparr>yield := False, stat := RT_THREAD_READY,
        tlist := Some (Ready (unat (current_priority (threads s c))))\<rparr> else threads s u)" for u
      by (simp add: b_def a_def s1_def ready_tail_def Let_def)
    have step: "rt_schedule s = Some f"
    proof -
      have "rt_schedule_remove_thread n (b\<lparr>rt_current_thread := Some n\<rparr>)
          = Some (d\<lparr>rt_current_thread := Some n\<rparr>)"
        using d(1) by (simp add: rt_schedule_remove_current)
      moreover have "a\<lparr>rt_current_thread := Some n\<rparr>
          = (if ?run then upd_thread c (yield_update (\<lambda>_. False)) s else s)
            \<lparr>rt_current_priority := of_nat p, rt_current_thread := Some n\<rparr>"
        by (simp add: a_def s1_def)
      ultimately show ?thesis
        using h(1) c lock False notkeep \<open>c \<noteq> n\<close> ins
        by (cases ?run) (simp_all add: rt_schedule_def Let_def f_def)
    qed
    have curd: "rt_current_thread d = None" by (simp add: d(3) curb)
    have invd: "kinv_but {n} (d\<lparr>rt_current_thread := Some n\<rparr>)"
      using d(2) curd by (intro kinv_set_current) auto
    have dn: "stat (threads d n) = RT_THREAD_READY" "timer_list d = timer_list s"
      by (simp_all add: d(3) thb rn(1) b_def a_def s1_def ready_tail_def Let_def)
    have "kinv_but {n} f"
      unfolding f_def using dn(1) by (intro kinv_flight_stat [OF invd]) auto
    then have "kinv f"
      unfolding kinv_def using kinv_land [of "{n}" f n] dn rn(5) by (simp add: f_def)
    have qb: "queue b l = queue s l @
        (if ?run \<and> l = Ready (unat (current_priority (threads s c))) then [c] else [])" for l
      by (simp add: b_def a_def s1_def ready_tail_def Let_def)
    have "queue f l = queue (list_remove n b) l" for l
      by (simp add: f_def d(3))
    moreover have "tlist (threads s n) = Some (Ready p)"
      using kinv_links [OF inv0] nq by simp
    ultimately have qf: "queue f l = (if l = Ready p then remove1 n (queue b l) else queue b l)" for l
      by (simp add: thb eq_commute [of l])
    have rm: "remove1 n (queue s (Ready p) @ xs) = tl (queue s (Ready p)) @ xs" for xs
      using h(2,3) by (cases "queue s (Ready p)") auto
    have "queue f l = (if l = Ready p then tl (queue s l) else queue s l) @
             (if ?run \<and> l = Ready (unat (current_priority (threads s c))) then [c] else [])" for l
      unfolding qf qb by (cases "l = Ready p") (simp_all only: rm if_True if_False refl)
    moreover have "sched_frame s f"
    proof -
      have "timers f = timers s \<and> timer_list f = timer_list s \<and> expired f = expired s \<and>
         rt_tick f = rt_tick s \<and> rt_scheduler_lock_nest f = rt_scheduler_lock_nest s \<and>
         rt_interrupt_nest f = rt_interrupt_nest s \<and> sems f = sems s \<and> mutexes f = mutexes s \<and>
         events f = events s \<and> mailboxes f = mailboxes s \<and> mqueues f = mqueues s"
        by (simp add: f_def d(3) b_def a_def s1_def ready_tail_def Let_def)
      moreover have "queue f l = queue s l" if "\<forall>p. l \<noteq> Ready p" for l
        using that qf qb by simp
      moreover have "threads f t = (threads s t)\<lparr>stat := stat (threads f t),
          yield := yield (threads f t), tlist := tlist (threads f t)\<rparr>" for t
        by (cases "t = n"; cases "t = c \<and> ?run") (simp_all add: f thc)
      then have "\<exists>st y l. threads f t = (threads s t)\<lparr>stat := st, yield := y, tlist := l\<rparr>" for t
        by blast
      moreover have "threads f t = threads s t"
        if "stat (threads s t) \<noteq> RT_THREAD_READY" "stat (threads s t) \<noteq> RT_THREAD_RUNNING" for t
        using that rn(1) by (auto simp: f thc)
      ultimately show ?thesis by (simp add: sched_frame_def)
    qed
    ultimately show thesis
      using switch [of p n f] h(2,3,5) notkeep \<open>c \<noteq> n\<close> step \<open>kinv f\<close> by (simp add: f) (simp add: f_def)
  qed
qed

lemma sched_frame_refl [simp]: "sched_frame s s"
proof -
  have "threads s t = (threads s t)\<lparr>stat := stat (threads s t), yield := yield (threads s t),
      tlist := tlist (threads s t)\<rparr>" for t
    by simp
  then show ?thesis unfolding sched_frame_def by metis
qed

lemma sched_frame_yield:
  "stat (threads s c) = RT_THREAD_RUNNING \<Longrightarrow> sched_frame s (upd_thread c (yield_update (\<lambda>_. False)) s)"
proof -
  assume "stat (threads s c) = RT_THREAD_RUNNING"
  moreover have "threads (upd_thread c (yield_update (\<lambda>_. False)) s) t = (threads s t)\<lparr>stat := stat (threads s t),
      yield := (if t = c then False else yield (threads s t)), tlist := tlist (threads s t)\<rparr>" for t
    by simp
  ultimately show ?thesis unfolding sched_frame_def by fastforce
qed

lemma kinv_schedule:
  assumes "kinv s" "rt_current_thread s \<noteq> None"
  obtains s' where "rt_schedule s = Some s'" "kinv s'" "sched_frame s s'" "rt_current_thread s' \<noteq> None"
proof (cases "rt_scheduler_lock_nest s = 0")
  case True
  obtain c where c: "rt_current_thread s = Some c" using assms(2) by auto
  show thesis
  proof (rule rt_schedule_cases [OF assms(1) c True])
    assume "rt_schedule s = Some s"
    then show thesis using that [of s] assms by simp
  next
    fix s' p
    assume "stat (threads s c) = RT_THREAD_RUNNING" "rt_schedule s = Some s'" "kinv s'"
      "s' = upd_thread c (yield_update (\<lambda>_. False)) s"
    then show thesis using that [of s'] assms(2) sched_frame_yield by simp
  next
    fix s' n
    assume "rt_schedule s = Some s'" "kinv s'" "rt_current_thread s' = Some n" "sched_frame s s'"
    then show thesis using that [of s'] by simp
  qed
next
  case False
  then show thesis using that [of s] assms by (simp add: rt_schedule_def)
qed

subsection \<open>Timers of threads\<close>

definition stop_timer :: "timer_id \<Rightarrow> kernel \<Rightarrow> kernel" where
  "stop_timer m s = (if activated (timers s m) then deactivate m (timer_remove m s) else s)"

lemma rt_timer_stop_eq:
  "tm_obj (timers s m) \<noteq> ObjNull \<Longrightarrow>
   rt_timer_stop m s = Some (if activated (timers s m) then RT_EOK else - RT_ERROR, stop_timer m s)"
  by (simp add: rt_timer_stop_def stop_timer_def)

lemma stop_timer_sel [simp]:
  "threads (stop_timer m s) = threads s" "queue (stop_timer m s) = queue s"
  "rt_thread_ready_priority_group (stop_timer m s) = rt_thread_ready_priority_group s"
  "rt_current_thread (stop_timer m s) = rt_current_thread s"
  "rt_scheduler_lock_nest (stop_timer m s) = rt_scheduler_lock_nest s"
  "rt_interrupt_nest (stop_timer m s) = rt_interrupt_nest s" "rt_tick (stop_timer m s) = rt_tick s"
  "sems (stop_timer m s) = sems s" "mutexes (stop_timer m s) = mutexes s"
  "events (stop_timer m s) = events s" "mailboxes (stop_timer m s) = mailboxes s"
  "mqueues (stop_timer m s) = mqueues s"
  by (simp_all add: stop_timer_def deactivate_def timer_remove_def)

lemma stop_timer_timers:
  "timers (stop_timer m s) k = (if k = m then (timers s m)\<lparr>activated := False\<rparr> else timers s k)"
  by (auto simp: stop_timer_def deactivate_def timer_remove_def)

lemma timers_ok_stop: "timers_ok s \<Longrightarrow> timers_ok (stop_timer m s)"
  by (auto simp: timers_ok_def distinct_removeAll stop_timer_def deactivate_def timer_remove_def)

lemma stop_timer_removed: "timers_ok s \<Longrightarrow> m \<notin> set (timer_list (stop_timer m s))"
  by (auto simp: timers_ok_def stop_timer_def deactivate_def timer_remove_def)

lemma stop_timer_others:
  "k \<noteq> m \<Longrightarrow> k \<in> set (timer_list (stop_timer m s)) \<longleftrightarrow> k \<in> set (timer_list s)"
  by (auto simp: stop_timer_def deactivate_def timer_remove_def)

lemma kinv_stop_timer:
  assumes "kinv_but X s"
  shows "kinv_but X (stop_timer m s)"
proof (rule kinv_butI)
  show "links_ok (stop_timer m s)" "ready_ok (stop_timer m s)" "timers_ok (stop_timer m s)"
    using assms by (simp_all add: kinv_but_def links_ok_def ready_ok_def timers_ok_stop)
  have sub: "k \<in> set (timer_list (stop_timer m s)) \<Longrightarrow> k \<in> set (timer_list s)" for k
    by (auto simp: stop_timer_def deactivate_def timer_remove_def split: if_splits)
  fix t
  show "flight_ok (stop_timer m s) t" if "t \<in> X"
    using kinv_flight [OF assms that] by (auto simp: flight_ok_def thread_base_def live_def stop_timer_timers Let_def)
  show "thread_ok (stop_timer m s) t" if "t \<notin> X"
    using kinv_thread [OF assms that] sub [of "TThread t"]
    by (auto simp: thread_ok_def thread_base_def live_def stop_timer_timers Let_def)
qed

lemma set_timer_place [simp]: "set (timer_place tm t ps) = insert t (set ps)"
  by (induction ps) auto

lemma distinct_timer_place [simp]: "distinct (timer_place tm t ps) \<longleftrightarrow> t \<notin> set ps \<and> distinct ps"
  by (induction ps) auto

text \<open>The state after \<open>rt_timer_start\<close>.\<close>

definition start_timer :: "timer_id \<Rightarrow> kernel \<Rightarrow> kernel" where
  "start_timer m s = (let tm = (timers s)(m := (timers s m)\<lparr>activated := True,
       timeout_tick := rt_tick s + tm_init_tick (timers s m)\<rparr>) in
     s\<lparr>timers := tm, timer_list := timer_place tm m (removeAll m (timer_list s)),
       expired := removeAll m (expired s)\<rparr>)"

lemma timer_place_cong:
  "(\<And>k. timeout_tick (tm k) = timeout_tick (tm' k)) \<Longrightarrow> timer_place tm m ps = timer_place tm' m ps"
  by (induction ps) auto

lemma rt_timer_start_eq:
  assumes "tm_obj (timers s m) \<noteq> ObjNull"
  shows "rt_timer_start m s = Some (RT_EOK, start_timer m s)"
  using assms
  by (auto simp: rt_timer_start_def start_timer_def Let_def deactivate_def timer_remove_def
      intro!: kernel.equality timer_place_cong)

lemma start_timer_sel [simp]:
  "threads (start_timer m s) = threads s" "queue (start_timer m s) = queue s"
  "rt_thread_ready_priority_group (start_timer m s) = rt_thread_ready_priority_group s"
  "rt_current_thread (start_timer m s) = rt_current_thread s"
  "rt_scheduler_lock_nest (start_timer m s) = rt_scheduler_lock_nest s"
  "rt_interrupt_nest (start_timer m s) = rt_interrupt_nest s" "rt_tick (start_timer m s) = rt_tick s"
  "sems (start_timer m s) = sems s" "mutexes (start_timer m s) = mutexes s"
  "events (start_timer m s) = events s" "mailboxes (start_timer m s) = mailboxes s"
  "mqueues (start_timer m s) = mqueues s"
  "set (timer_list (start_timer m s)) = insert m (set (timer_list s))"
  by (auto simp: start_timer_def Let_def)

lemma start_timer_timers [simp]:
  "tm_obj (timers (start_timer m s) k) = tm_obj (timers s k)"
  "periodic (timers (start_timer m s) k) = periodic (timers s k)"
  "tm_init_tick (timers (start_timer m s) k) = tm_init_tick (timers s k)"
  by (simp_all add: start_timer_def Let_def)

lemma kinv_start_timer:
  assumes "kinv_but X s" "tm_obj (timers s m) \<noteq> ObjNull"
    "\<And>t. m = TThread t \<Longrightarrow> th_obj (threads s t) \<noteq> ObjNull \<and>
       (t \<notin> X \<longrightarrow> stat (threads s t) = RT_THREAD_SUSPEND)"
  shows "kinv_but X (start_timer m s)"
proof (rule kinv_butI)
  show "links_ok (start_timer m s)" "ready_ok (start_timer m s)"
    using assms by (simp_all add: kinv_but_def links_ok_def ready_ok_def)
  show "timers_ok (start_timer m s)"
    using assms(1,2)
    by (auto simp: kinv_but_def timers_ok_def start_timer_def Let_def distinct_removeAll)
  fix t
  show "flight_ok (start_timer m s) t" if "t \<in> X"
    using kinv_flight [OF assms(1) that] by (simp add: flight_ok_def thread_base_def live_def Let_def)
  show "thread_ok (start_timer m s) t" if "t \<notin> X"
  proof (cases "m = TThread t")
    case True
    with kinv_thread [OF assms(1) that] assms(3) [OF True] that show ?thesis
      by (simp add: thread_ok_def thread_base_def live_def Let_def)
  next
    case False
    with kinv_thread [OF assms(1) that] show ?thesis
      by (simp add: thread_ok_def thread_base_def live_def Let_def)
  qed
qed

subsection \<open>Suspend and resume\<close>

lemma kinv_current:
  assumes "kinv s" "rt_current_thread s = Some c"
  shows "th_obj (threads s c) \<noteq> ObjNull" "stat (threads s c) \<noteq> RT_THREAD_READY"
    "stat (threads s c) \<noteq> RT_THREAD_INIT"
  using kinv_thread [of "{}" s c] assms by (auto simp: kinv_def thread_ok_def Let_def)

lemma kinv_timer_obj:
  assumes "kinv s" "th_obj (threads s t) \<noteq> ObjNull" "live (threads s t)"
  shows "tm_obj (timers s (TThread t)) = ObjStatic" "\<not> periodic (timers s (TThread t))"
    "unat (current_priority (threads s t)) < 32"
  using kinv_thread [of "{}" s t] assms
  by (auto simp: kinv_def thread_ok_def thread_base_def RT_THREAD_PRIORITY_MAX_def Let_def)

text \<open>The running thread suspends itself: it is then suspended and in no list.\<close>

definition suspended :: "tid \<Rightarrow> kernel \<Rightarrow> kernel" where
  "suspended t s = stop_timer (TThread t) (upd_thread t (stat_update (\<lambda>_. RT_THREAD_SUSPEND)) s)"

lemma kinv_suspend:
  assumes "kinv s" "rt_current_thread s = Some t" "stat (threads s t) = RT_THREAD_RUNNING"
  shows "rt_thread_suspend t s = Some (RT_EOK, suspended t s)" "kinv_but {t} (suspended t s)"
    "kinv (suspended t s)"
proof -
  have inv: "kinv_but {} s" using assms(1) by (simp add: kinv_def)
  note reg = kinv_current(1) [OF assms(1,2)]
  note run = kinv_remove_running [OF inv _ reg assms(3), simplified]
  show "rt_thread_suspend t s = Some (RT_EOK, suspended t s)"
    using assms reg run(3) kinv_timer_obj(1) [OF assms(1) reg]
    by (simp add: live_def rt_thread_suspend_def rt_thread_self_def rt_timer_stop_eq suspended_def Let_def)
  have "kinv_but {t} s" using kinv_launch [OF inv reg run(1)] .
  then show *: "kinv_but {t} (suspended t s)"
    unfolding suspended_def using assms(3)
    by (intro kinv_stop_timer kinv_flight_stat) auto
  have "kinv_but ({t} - {t}) (suspended t s)"
    by (rule kinv_land [OF *]) (simp_all add: suspended_def)
  then show "kinv (suspended t s)" by (simp add: kinv_def)
qed

lemma suspended_sel [simp]:
  "threads (suspended t s) = (threads s)(t := (threads s t)\<lparr>stat := RT_THREAD_SUSPEND\<rparr>)"
  "queue (suspended t s) = queue s" "rt_current_thread (suspended t s) = rt_current_thread s"
  "rt_scheduler_lock_nest (suspended t s) = rt_scheduler_lock_nest s"
  "rt_thread_ready_priority_group (suspended t s) = rt_thread_ready_priority_group s"
  "rt_interrupt_nest (suspended t s) = rt_interrupt_nest s" "rt_tick (suspended t s) = rt_tick s"
  "sems (suspended t s) = sems s" "mutexes (suspended t s) = mutexes s"
  "events (suspended t s) = events s" "mailboxes (suspended t s) = mailboxes s"
  "mqueues (suspended t s) = mqueues s"
  by (simp_all add: suspended_def)

text \<open>A suspended thread resumes: at the tail of its ready list, its timer stopped.\<close>

definition made_ready :: "tid \<Rightarrow> kernel \<Rightarrow> kernel" where
  "made_ready t s = (if rt_current_thread s = Some t
     then upd_thread t (stat_update (\<lambda>_. RT_THREAD_RUNNING)) s else ready_tail t s)"

definition resumed :: "tid \<Rightarrow> kernel \<Rightarrow> kernel" where
  "resumed t s = made_ready t (stop_timer (TThread t) (list_remove t s))"

lemma kinv_made_ready:
  assumes "kinv_but X s" "t \<in> X" "stat (threads s t) \<noteq> RT_THREAD_INIT"
    "stat (threads s t) \<noteq> RT_THREAD_CLOSE" "TThread t \<notin> set (timer_list s)"
  shows "rt_schedule_insert_thread t s = Some (made_ready t s)" "kinv_but (X - {t}) (made_ready t s)"
  using kinv_ready_tail [OF assms] kinv_insert_current [OF assms] by (auto simp: made_ready_def)

lemma made_ready_sel [simp]:
  "rt_current_thread (made_ready t s) = rt_current_thread s" "timers (made_ready t s) = timers s"
  "timer_list (made_ready t s) = timer_list s" "expired (made_ready t s) = expired s"
  "rt_scheduler_lock_nest (made_ready t s) = rt_scheduler_lock_nest s"
  "rt_interrupt_nest (made_ready t s) = rt_interrupt_nest s" "rt_tick (made_ready t s) = rt_tick s"
  "sems (made_ready t s) = sems s" "mutexes (made_ready t s) = mutexes s"
  "events (made_ready t s) = events s" "mailboxes (made_ready t s) = mailboxes s"
  "mqueues (made_ready t s) = mqueues s"
  "threads (made_ready t s) u = (if u \<noteq> t then threads s u
     else if rt_current_thread s = Some t then (threads s t)\<lparr>stat := RT_THREAD_RUNNING\<rparr>
     else (threads s t)\<lparr>stat := RT_THREAD_READY,
       tlist := Some (Ready (unat (current_priority (threads s t))))\<rparr>)"
  "queue (made_ready t s) l = (if rt_current_thread s \<noteq> Some t \<and>
       l = Ready (unat (current_priority (threads s t))) then queue s l @ [t] else queue s l)"
  by (simp_all add: made_ready_def ready_tail_def Let_def)

lemma kinv_resume:
  assumes "kinv s" "th_obj (threads s t) \<noteq> ObjNull" "stat (threads s t) = RT_THREAD_SUSPEND"
  shows "rt_thread_resume t s = Some (RT_EOK, resumed t s)" "kinv (resumed t s)"
proof -
  have inv: "kinv_but {} s" using assms(1) by (simp add: kinv_def)
  let ?s = "stop_timer (TThread t) (list_remove t s)"
  have "kinv_but {t} ?s"
    using kinv_stop_timer [OF kinv_list_remove [OF inv, of t]] assms(2,3) by simp
  moreover have "TThread t \<notin> set (timer_list ?s)"
    using kinv_list_remove [OF inv, of t] assms(2,3) by (intro stop_timer_removed) (simp add: kinv_but_def)
  ultimately have "rt_schedule_insert_thread t ?s = Some (resumed t s)" "kinv_but ({t} - {t}) (resumed t s)"
    using kinv_made_ready [of "{t}" ?s t] assms(3) by (simp_all add: resumed_def)
  then show "rt_thread_resume t s = Some (RT_EOK, resumed t s)" "kinv (resumed t s)"
    using assms kinv_timer_obj(1) [OF assms(1,2)]
    by (simp_all add: live_def rt_thread_resume_def rt_timer_stop_eq Let_def kinv_def)
qed

lemma rt_thread_resume_other:
  "th_obj (threads s t) \<noteq> ObjNull \<Longrightarrow> stat (threads s t) \<noteq> RT_THREAD_SUSPEND \<Longrightarrow>
   rt_thread_resume t s = Some (- RT_ERROR, s)"
  by (simp add: rt_thread_resume_def)

lemma resumed_sel [simp]:
  "rt_current_thread (resumed t s) = rt_current_thread s"
  "rt_scheduler_lock_nest (resumed t s) = rt_scheduler_lock_nest s"
  "rt_interrupt_nest (resumed t s) = rt_interrupt_nest s" "rt_tick (resumed t s) = rt_tick s"
  "sems (resumed t s) = sems s" "mutexes (resumed t s) = mutexes s"
  "events (resumed t s) = events s" "mailboxes (resumed t s) = mailboxes s"
  "mqueues (resumed t s) = mqueues s"
  "threads (resumed t s) u = (if u \<noteq> t then threads s u
     else if rt_current_thread s = Some t then (threads s t)\<lparr>stat := RT_THREAD_RUNNING, tlist := None\<rparr>
     else (threads s t)\<lparr>stat := RT_THREAD_READY,
       tlist := Some (Ready (unat (current_priority (threads s t))))\<rparr>)"
  by (simp_all add: resumed_def)

lemma resumed_queue:
  "(\<And>p. l \<noteq> Ready p) \<Longrightarrow> queue (resumed t s) l =
     (if tlist (threads s t) = Some l then remove1 t (queue s l) else queue s l)"
  by (simp add: resumed_def)

end
