(* ===== verification/KOps.thy ===== *)
theory KOps imports KInv
begin

text \<open>
  Every call of \<open>scheduler.c\<close>, \<open>timer.c\<close>, \<open>thread.c\<close>, \<open>clock.c\<close> and \<open>idle.c\<close> that returns keeps the kernel
  invariant.
\<close>

lemmas bindE = Option.bind_eq_Some_conv

subsection \<open>Scheduler and objects\<close>

lemma inv_schedule: "rt_schedule s = Some s' \<Longrightarrow> kinv s \<Longrightarrow> kinv s'"
proof (cases "rt_current_thread s")
  case None
  then show "rt_schedule s = Some s' \<Longrightarrow> kinv s \<Longrightarrow> kinv s'"
    by (auto simp: rt_schedule_def bindE Let_def split: if_splits)
next
  case (Some c)
  then show "rt_schedule s = Some s' \<Longrightarrow> kinv s \<Longrightarrow> kinv s'"
    using kinv_schedule [of s] by fastforce
qed

lemma frame_schedule:
  "rt_schedule s = Some s' \<Longrightarrow> kinv s \<Longrightarrow> sched_frame s s'"
proof (cases "rt_current_thread s")
  case None
  then show "rt_schedule s = Some s' \<Longrightarrow> kinv s \<Longrightarrow> sched_frame s s'"
    by (auto simp: rt_schedule_def bindE Let_def split: if_splits)
next
  case (Some c)
  then show "rt_schedule s = Some s' \<Longrightarrow> kinv s \<Longrightarrow> sched_frame s s'"
    using kinv_schedule [of s] by fastforce
qed

lemma inv_enter_critical: "kinv s \<Longrightarrow> kinv (rt_enter_critical s)"
  by (simp add: rt_enter_critical_def)

lemma inv_exit_critical: "rt_exit_critical s = Some s' \<Longrightarrow> kinv s \<Longrightarrow> kinv s'"
  by (auto simp: rt_exit_critical_def Let_def dest: inv_schedule split: if_splits)

lemma inv_object_init: "rt_object_init obj s = Some s' \<Longrightarrow> kinv s \<Longrightarrow> kinv s'"
  by (auto simp: rt_object_init_def bindE dest: inv_exit_critical inv_enter_critical)

text \<open>A thread that no list holds and that is not current stays as it is.\<close>

lemma frame_thread:
  assumes "sched_frame s s'" "stat (threads s t) \<noteq> RT_THREAD_READY" "stat (threads s t) \<noteq> RT_THREAD_RUNNING"
  shows "threads s' t = threads s t"
  using assms by (simp add: sched_frame_def)

lemma frame_fields:
  assumes "sched_frame s s'"
  shows "error (threads s' t) = error (threads s t)" "th_obj (threads s' t) = th_obj (threads s t)"
    "current_priority (threads s' t) = current_priority (threads s t)"
    "event_set (threads s' t) = event_set (threads s t)"
    "event_info (threads s' t) = event_info (threads s t)"
    "remaining_tick (threads s' t) = remaining_tick (threads s t)"
    "init_tick (threads s' t) = init_tick (threads s t)"
    "timers s' = timers s" "timer_list s' = timer_list s" "rt_tick s' = rt_tick s" "expired s' = expired s"
    "sems s' = sems s" "mutexes s' = mutexes s" "events s' = events s" "mailboxes s' = mailboxes s"
    "mqueues s' = mqueues s" "rt_scheduler_lock_nest s' = rt_scheduler_lock_nest s"
    "rt_interrupt_nest s' = rt_interrupt_nest s"
proof -
  obtain st y l where "threads s' t = (threads s t)\<lparr>stat := st, yield := y, tlist := l\<rparr>"
    using assms unfolding sched_frame_def by metis
  then show "error (threads s' t) = error (threads s t)" "th_obj (threads s' t) = th_obj (threads s t)"
    "current_priority (threads s' t) = current_priority (threads s t)"
    "event_set (threads s' t) = event_set (threads s t)"
    "event_info (threads s' t) = event_info (threads s t)"
    "remaining_tick (threads s' t) = remaining_tick (threads s t)"
    "init_tick (threads s' t) = init_tick (threads s t)" by simp_all
qed (use assms in \<open>simp_all add: sched_frame_def\<close>)

lemma frame_queue: "sched_frame s s' \<Longrightarrow> (\<And>p. l \<noteq> Ready p) \<Longrightarrow> queue s' l = queue s l"
  by (simp add: sched_frame_def)

subsection \<open>Timers\<close>

text \<open>Changing a timer's period, or a timer of a driver in any way that keeps it listed as active.\<close>

lemma kinv_upd_timer:
  assumes "kinv s" "\<And>m. activated (f m) = activated m \<and> tm_obj (f m) = tm_obj m"
    "\<And>t. k = TThread t \<Longrightarrow> periodic (f (timers s k)) = periodic (timers s k)"
  shows "kinv (upd_timer k f s)"
  unfolding kinv_def
proof (rule kinv_butI)
  have inv: "kinv_but {} s" using assms(1) by (simp add: kinv_def)
  show "links_ok (upd_timer k f s)" "ready_ok (upd_timer k f s)" "timers_ok (upd_timer k f s)"
    using inv assms(2) by (auto simp: kinv_but_def links_ok_def ready_ok_def timers_ok_def)
  fix t
  have "thread_ok s t" using inv by (simp add: kinv_thread)
  then show "thread_ok (upd_timer k f s) t"
    using assms(2) assms(3) [of t] by (auto simp: thread_ok_def thread_base_def Let_def)
qed simp

lemma rt_timer_start_Some:
  "rt_timer_start m s = Some (r, s') \<longleftrightarrow>
     tm_obj (timers s m) \<noteq> ObjNull \<and> r = RT_EOK \<and> s' = start_timer m s"
  by (cases "tm_obj (timers s m) = ObjNull")
    (auto simp: rt_timer_start_eq, simp add: rt_timer_start_def)

lemma rt_timer_stop_Some:
  "rt_timer_stop m s = Some (r, s') \<longleftrightarrow> tm_obj (timers s m) \<noteq> ObjNull \<and>
     r = (if activated (timers s m) then RT_EOK else - RT_ERROR) \<and> s' = stop_timer m s"
  by (cases "tm_obj (timers s m) = ObjNull")
    (auto simp: rt_timer_stop_eq, simp add: rt_timer_stop_def)

lemma inv_timer_start_user: "rt_timer_start (TUser n) s = Some (r, s') \<Longrightarrow> kinv s \<Longrightarrow> kinv s'"
  using kinv_start_timer [of "{}" s "TUser n"] by (auto simp: rt_timer_start_Some kinv_def)

lemma inv_timer_stop: "rt_timer_stop m s = Some (r, s') \<Longrightarrow> kinv s \<Longrightarrow> kinv s'"
  using kinv_stop_timer [of "{}" s m] by (auto simp: rt_timer_stop_Some kinv_def)

lemma inv_timer_control_user:
  "rt_timer_control (TUser n) cmd arg s = Some (r, arg', s') \<Longrightarrow> kinv s \<Longrightarrow> kinv s'"
  by (auto simp: rt_timer_control_def bindE Let_def intro!: kinv_upd_timer split: timer_ctrl.splits)

lemma inv_start_thread_timer:
  assumes "start_thread_timer t time s = Some s'" "kinv s" "stat (threads s t) = RT_THREAD_SUSPEND"
    "th_obj (threads s t) \<noteq> ObjNull"
  shows "kinv s'"
proof -
  let ?s = "upd_timer (TThread t) (tm_init_tick_update (\<lambda>_. time)) s"
  have "kinv ?s" by (rule kinv_upd_timer [OF assms(2)]) simp_all
  moreover have "s' = start_timer (TThread t) ?s" "tm_obj (timers s (TThread t)) \<noteq> ObjNull"
    using assms(1)
    by (auto simp: start_thread_timer_def rt_timer_control_def bindE rt_timer_start_Some split: prod.splits)
  ultimately show ?thesis
    using kinv_start_timer [of "{}" ?s "TThread t"] assms(3,4) by (simp add: kinv_def)
qed

lemma kinv_retime:
  assumes "kinv s" "tm_obj (timers s (TUser n)) = ObjNull \<or> TUser n \<notin> set (timer_list s)"
  shows "kinv (upd_timer (TUser n) f s)"
  unfolding kinv_def
proof (rule kinv_butI)
  have inv: "kinv_but {} s" using assms(1) by (simp add: kinv_def)
  then show "links_ok (upd_timer (TUser n) f s)" "ready_ok (upd_timer (TUser n) f s)"
    "timers_ok (upd_timer (TUser n) f s)"
    using assms(2) by (auto simp: kinv_but_def links_ok_def ready_ok_def timers_ok_def)
  fix t
  have "thread_ok s t" using inv by (simp add: kinv_thread)
  then show "thread_ok (upd_timer (TUser n) f s) t"
    by (simp add: thread_ok_def thread_base_def Let_def)
qed simp

text \<open>Taking a driver's timer off the list for good.\<close>

lemma kinv_unlist:
  assumes "kinv s"
  shows "kinv (timer_remove m s)"
  unfolding kinv_def
proof (rule kinv_butI)
  have inv: "kinv_but {} s" using assms by (simp add: kinv_def)
  then show "links_ok (timer_remove m s)" "ready_ok (timer_remove m s)" "timers_ok (timer_remove m s)"
    by (auto simp: kinv_but_def links_ok_def ready_ok_def timers_ok_def timer_remove_def distinct_removeAll)
  fix t
  have "thread_ok s t" using inv by (simp add: kinv_thread)
  then show "thread_ok (timer_remove m s) t"
    by (auto simp: thread_ok_def thread_base_def timer_remove_def Let_def)
qed simp

lemma timer_remove_notin [simp]: "m \<notin> set (timer_list (timer_remove m s))"
  by (simp add: timer_remove_def)

lemma inv_timer_detach_user: "rt_timer_detach (TUser n) s = Some (r, s') \<Longrightarrow> kinv s \<Longrightarrow> kinv s'"
  by (auto simp: rt_timer_detach_def deactivate_def Let_def bindE intro!: kinv_retime kinv_unlist)

lemma inv_timer_delete_user: "rt_timer_delete (TUser n) s = Some (r, s') \<Longrightarrow> kinv s \<Longrightarrow> kinv s'"
  by (auto simp: rt_timer_delete_def deactivate_def Let_def bindE intro!: kinv_retime kinv_unlist)

subsection \<open>Suspend, resume, time out\<close>

lemma suspend_cases:
  assumes "rt_thread_suspend t s = Some (r, s')" "kinv s"
  obtains (ok) "rt_current_thread s = Some t" "stat (threads s t) = RT_THREAD_RUNNING" "r = RT_EOK"
      "s' = suspended t s" "kinv s'"
    | (disorder) "rt_current_thread s = Some t" "r = - RT_ERROR" "s' = s"
      "stat (threads s t) = RT_THREAD_SUSPEND \<or> stat (threads s t) = RT_THREAD_CLOSE"
proof -
  have c: "rt_current_thread s = Some t"
    using assms(1) by (auto simp: rt_thread_suspend_def rt_thread_self_def bindE)
  note st = kinv_current(2,3) [OF assms(2) c]
  show thesis
  proof (cases "stat (threads s t) = RT_THREAD_RUNNING")
    case True
    then show thesis using kinv_suspend [OF assms(2) c True] assms(1) ok c by simp
  next
    case False
    then have "r = - RT_ERROR" "s' = s"
      using assms(1) st by (auto simp: rt_thread_suspend_def bindE)
    moreover have "stat (threads s t) = RT_THREAD_SUSPEND \<or> stat (threads s t) = RT_THREAD_CLOSE"
      using False st by (cases "stat (threads s t)") auto
    ultimately show thesis using disorder c by simp
  qed
qed

lemma inv_suspend: "rt_thread_suspend t s = Some (r, s') \<Longrightarrow> kinv s \<Longrightarrow> kinv s'"
  by (erule suspend_cases) auto

lemma resume_cases:
  assumes "rt_thread_resume t s = Some (r, s')" "kinv s"
  obtains (ok) "th_obj (threads s t) \<noteq> ObjNull" "stat (threads s t) = RT_THREAD_SUSPEND" "r = RT_EOK"
      "s' = resumed t s" "kinv s'"
    | (disorder) "th_obj (threads s t) \<noteq> ObjNull" "stat (threads s t) \<noteq> RT_THREAD_SUSPEND"
      "r = - RT_ERROR" "s' = s"
proof -
  have "th_obj (threads s t) \<noteq> ObjNull"
    using assms(1) by (auto simp: rt_thread_resume_def bindE)
  then show thesis
    using kinv_resume [OF assms(2)] rt_thread_resume_other [of s t] assms(1) ok disorder
    by (cases "stat (threads s t) = RT_THREAD_SUSPEND") auto
qed

lemma inv_resume: "rt_thread_resume t s = Some (r, s') \<Longrightarrow> kinv s \<Longrightarrow> kinv s'"
  by (erule resume_cases) auto

text \<open>A suspended thread made ready without touching its timer, as \<open>_thread_timeout\<close> does.\<close>

lemma kinv_wake:
  assumes "kinv s" "th_obj (threads s t) \<noteq> ObjNull" "stat (threads s t) = RT_THREAD_SUSPEND"
    "TThread t \<notin> set (timer_list s)"
  shows "rt_schedule_insert_thread t (list_remove t s) = Some (made_ready t (list_remove t s))"
    "kinv (made_ready t (list_remove t s))"
proof -
  have "kinv_but {t} (list_remove t s)"
    using kinv_list_remove [of "{}" s t] assms by (simp add: kinv_def)
  then show "rt_schedule_insert_thread t (list_remove t s) = Some (made_ready t (list_remove t s))"
    "kinv (made_ready t (list_remove t s))"
    using kinv_made_ready [of "{t}" "list_remove t s" t] assms by (simp_all add: kinv_def)
qed

lemma inv_timeout:
  assumes "thread_timeout t s = Some s'" "kinv s" "TThread t \<notin> set (timer_list s)"
  shows "kinv s'" "timers s' = timers s"
proof -
  let ?s = "upd_thread t (error_update (\<lambda>_. - RT_ETIMEOUT)) s"
  have st: "stat (threads s t) = RT_THREAD_SUSPEND" "th_obj (threads s t) \<noteq> ObjNull"
    using assms(1) by (auto simp: thread_timeout_def bindE)
  have "kinv ?s" using assms(2) by simp
  note w = kinv_wake [OF this, of t]
  have "rt_schedule (made_ready t (list_remove t ?s)) = Some s'"
    using assms st w(1) by (simp add: thread_timeout_def bindE Let_def)
  moreover have "kinv (made_ready t (list_remove t ?s))" using w(2) assms(3) st by simp
  ultimately show "kinv s'" "timers s' = timers s"
    using inv_schedule frame_fields(8) [OF frame_schedule] by fastforce+
qed

definition callback_ok :: "(nat \<Rightarrow> kernel \<Rightarrow> kernel option) \<Rightarrow> bool" where
  "callback_ok cb \<longleftrightarrow> (\<forall>n s s'. kinv s \<longrightarrow> cb n s = Some s' \<longrightarrow> kinv s')"

lemma inv_fire:
  "fire cb m s = Some s' \<Longrightarrow> kinv s \<Longrightarrow> callback_ok cb \<Longrightarrow> m \<notin> set (timer_list s) \<Longrightarrow> kinv s'"
  by (cases m) (auto simp: callback_ok_def dest: inv_timeout(1))

lemma kinv_deactivate_unlisted:
  assumes "kinv s" "m \<notin> set (timer_list s)"
  shows "kinv (deactivate m s)"
  unfolding kinv_def
proof (rule kinv_butI)
  have inv: "kinv_but {} s" using assms(1) by (simp add: kinv_def)
  then show "links_ok (deactivate m s)" "ready_ok (deactivate m s)" "timers_ok (deactivate m s)"
    using assms(2) by (auto simp: kinv_but_def links_ok_def ready_ok_def timers_ok_def deactivate_def)
  fix t
  have "thread_ok s t" using inv by (simp add: kinv_thread)
  then show "thread_ok (deactivate m s) t"
    by (auto simp: thread_ok_def thread_base_def deactivate_def Let_def)
qed simp

lemma kinv_listed_thread:
  assumes "kinv s" "TThread t \<in> set (timer_list s)"
  shows "\<not> periodic (timers s (TThread t))" "stat (threads s t) = RT_THREAD_SUSPEND"
    "th_obj (threads s t) \<noteq> ObjNull"
  using assms kinv_thread [of "{}" s t]
  by (auto simp: kinv_def thread_ok_def thread_base_def live_def Let_def)

text \<open>One round of the loop of \<open>rt_timer_check\<close>, which touches only timers itself.\<close>

definition timers_only :: "kernel \<Rightarrow> kernel \<Rightarrow> bool" where
  "timers_only s s' \<longleftrightarrow> (\<exists>tm xs ys. s' = s\<lparr>timers := tm, timer_list := xs, expired := ys\<rparr>)"

lemma timers_only_intros:
  "timers_only s s" "timers_only s (timer_remove m s)" "timers_only s (deactivate m s)"
  "timers_only s (start_timer m s)" "timers_only s (s\<lparr>expired := ys\<rparr>)"
  unfolding timers_only_def timer_remove_def deactivate_def upd_timer_def start_timer_def Let_def
  by (intro exI kernel.equality; simp)+

lemma timers_only_trans: "timers_only s s1 \<Longrightarrow> timers_only s1 s2 \<Longrightarrow> timers_only s s2"
  unfolding timers_only_def by (elim exE, intro exI kernel.equality) simp_all

lemma timer_check_round:
  assumes cb: "callback_ok cb" and inv: "kinv s" and list: "timer_list s = m # ms"
    and due: "now - timeout_tick (timers s m) < TICK_HORIZON"
    and step: "(if now - timeout_tick (timers s m) < TICK_HORIZON
        then let s = timer_remove m s; s = if periodic (timers s m) then s else deactivate m s
          in fire cb m (s\<lparr>expired := m # expired s\<rparr>) \<bind>
             (\<lambda>s. let current_tick = rt_tick s
               in if expired s = [] then loop (fire cb) current_tick s
                  else let s = timer_remove m s
                    in if periodic (timers s m) \<and> activated (timers s m)
                       then rt_timer_start m (deactivate m s) \<bind> (\<lambda>(_, s). loop (fire cb) current_tick s)
                       else loop (fire cb) current_tick s)
        else Some s) = Some s'"
  obtains s1 s2 s3 where "timers_only s s1" "kinv s1" "m \<notin> set (timer_list s1)"
    "fire cb m s1 = Some s2" "kinv s2" "timers_only s2 s3" "kinv s3" "loop (fire cb) (rt_tick s2) s3 = Some s'"
proof -
  let ?r = "timer_remove m s"
  let ?s1 = "if periodic (timers ?r m) then ?r else deactivate m ?r"
  let ?s2 = "?s1\<lparr>expired := m # expired ?s1\<rparr>"
  have inv1: "kinv ?s2"
    using kinv_unlist [OF inv, of m] kinv_deactivate_unlisted by simp
  have only: "timers_only s ?s2"
    using timers_only_intros(2) [of s m] timers_only_trans [OF timers_only_trans [OF
      timers_only_intros(2) [of s m] timers_only_intros(3)] timers_only_intros(5)]
      timers_only_trans [OF timers_only_intros(2) [of s m] timers_only_intros(5)] by auto
  have un: "m \<notin> set (timer_list ?s2)"
    by (simp add: timer_remove_def deactivate_def)
  obtain s2 where s2: "fire cb m ?s2 = Some s2"
      "(if expired s2 = [] then loop (fire cb) (rt_tick s2) s2
        else let s = timer_remove m s2 in
             if periodic (timers s m) \<and> activated (timers s m)
             then rt_timer_start m (deactivate m s) \<bind> (\<lambda>(_, s). loop (fire cb) (rt_tick s2) s)
             else loop (fire cb) (rt_tick s2) s) = Some s'"
    using step due by (auto simp: bindE Let_def)
  have inv2: "kinv s2" using inv_fire inv1 un s2(1) cb by blast
  have inv3: "kinv (timer_remove m s2)" using kinv_unlist [OF inv2] .
  have inv4: "kinv s4 \<and> timers_only s2 s4"
    if "rt_timer_start m (deactivate m (timer_remove m s2)) = Some (r, s4)" "periodic (timers s2 m)" for r s4
  proof (cases m)
    case (TUser n)
    moreover have "timers_only s2 s4"
      using that(1) timers_only_intros timers_only_trans unfolding rt_timer_start_Some by metis
    ultimately show ?thesis
      using that(1) kinv_deactivate_unlisted [OF inv3, of m] inv_timer_start_user by auto
  next
    case (TThread t)
    then have "timers s2 = timers ?s2"
      using s2(1) inv_timeout(2) [OF _ inv1, of t s2] un by simp
    moreover have "\<not> periodic (timers s m)"
      using kinv_listed_thread(1) [OF inv, of t] list TThread by simp
    ultimately show ?thesis
      using that(2) by (simp add: timer_remove_def deactivate_def split: if_splits)
  qed
  note fin = that [OF only inv1 un s2(1) inv2]
  show thesis
  proof (cases "expired s2 = []")
    case True
    then show ?thesis using fin [of s2] s2(2) inv2 timers_only_intros(1) by simp
  next
    case False
    show ?thesis
    proof (cases "periodic (timers (timer_remove m s2) m) \<and> activated (timers (timer_remove m s2) m)")
      case True
      moreover have "periodic (timers (timer_remove m s2) m) = periodic (timers s2 m)"
        by (simp add: timer_remove_def)
      ultimately show ?thesis
        using s2(2) False inv4 fin by (auto simp: Let_def bindE)
    next
      case no: False
      then have "loop (fire cb) (rt_tick s2) (timer_remove m s2) = Some s'"
        using s2(2) False by (simp only: Let_def if_False)
      then show ?thesis using fin [of "timer_remove m s2"] inv3 timers_only_intros(2) by blast
    qed
  qed
qed

lemma inv_timer_check_loop:
  assumes "timer_check_loop (fire cb) now s = Some s'" "callback_ok cb" "kinv s"
  shows "kinv s'"
proof -
  define P where "P f (now :: u32) s s' \<longleftrightarrow> (f = fire cb \<longrightarrow> kinv s \<longrightarrow> kinv s')" for f now s s'
  have "P (fire cb) now s s'"
  proof (rule timer_check_loop.raw_induct [OF _ assms(1)])
    fix loop f and now :: u32 and s s'
    assume IH: "\<And>f now s y. loop f now s = Some y \<Longrightarrow> P f now s y"
      and step: "(case timer_list s of [] \<Rightarrow> Some s
        | m # _ \<Rightarrow> if now - timeout_tick (timers s m) < TICK_HORIZON
            then let s = timer_remove m s; s = if periodic (timers s m) then s else deactivate m s
              in f m (s\<lparr>expired := m # expired s\<rparr>) \<bind>
                 (\<lambda>s. let current_tick = rt_tick s
                   in if expired s = [] then loop f current_tick s
                      else let s = timer_remove m s
                        in if periodic (timers s m) \<and> activated (timers s m)
                           then rt_timer_start m (deactivate m s) \<bind> (\<lambda>(_, s). loop f current_tick s)
                           else loop f current_tick s)
            else Some s) = Some s'"
    show "P f now s s'"
      unfolding P_def
    proof (intro impI)
      assume f: "f = fire cb" and inv: "kinv s"
      show "kinv s'"
      proof (cases "timer_list s")
        case Nil
        with step inv show ?thesis by simp
      next
        case (Cons m ms)
        show ?thesis
        proof (cases "now - timeout_tick (timers s m) < TICK_HORIZON")
          case True
          from step [unfolded Cons list.case f]
          show ?thesis
            by (rule timer_check_round [OF assms(2) inv Cons True]) (use IH f in \<open>auto simp: P_def\<close>)
        next
          case False
          with step inv Cons show ?thesis by simp
        qed
      qed
    qed
  qed
  then show ?thesis using assms(3) by (simp add: P_def)
qed

lemma inv_timer_check:
  "rt_timer_check (fire cb) s = Some s' \<Longrightarrow> callback_ok cb \<Longrightarrow> kinv s \<Longrightarrow> kinv s'"
  by (auto simp: rt_timer_check_def dest: inv_timer_check_loop)

subsection \<open>Life cycle\<close>

text \<open>One registered thread changes, in no list before and after.\<close>

lemma kinv_upd_one:
  assumes "kinv_but X s" "tlist (threads s t) = None" "tlist (f (threads s t)) = None"
    "if t \<in> Y then flight_ok (upd_thread t f s) t else thread_ok (upd_thread t f s) t"
    "\<And>u. u \<noteq> t \<Longrightarrow> u \<in> Y \<longleftrightarrow> u \<in> X"
  shows "kinv_but Y (upd_thread t f s)"
  using assms
  by (intro kinv_but_change [OF assms(1), where t = t])
    (auto simp: kinv_but_def links_ok_def ready_ok_def timers_ok_def)

lemma object_init_frame:
  assumes "rt_object_init obj s = Some s'" "kinv s"
  shows "kinv s'" "obj = ObjNull" "timers s' = timers s" "timer_list s' = timer_list s"
    "th_obj (threads s' t) = th_obj (threads s t)"
    "stat (threads s t) \<noteq> RT_THREAD_READY \<Longrightarrow> stat (threads s t) \<noteq> RT_THREAD_RUNNING \<Longrightarrow>
     threads s' t = threads s t"
    "sems s' = sems s" "mutexes s' = mutexes s" "events s' = events s" "mailboxes s' = mailboxes s"
    "mqueues s' = mqueues s" "(\<And>p. l \<noteq> Ready p) \<Longrightarrow> queue s' l = queue s l"
proof -
  obtain s1 where s1: "kinv s1" "threads s1 = threads s" "timers s1 = timers s"
      "timer_list s1 = timer_list s" "queue s1 = queue s" "sems s1 = sems s" "mutexes s1 = mutexes s" "events s1 = events s"
      "mailboxes s1 = mailboxes s" "mqueues s1 = mqueues s" "s' = s1 \<or> rt_schedule s1 = Some s'"
  proof -
    have "rt_exit_critical (rt_enter_critical s) = Some s'"
      using assms(1) by (auto simp: rt_object_init_def bindE)
    then show thesis
      using assms(2)
      by (intro that [of "if sint (rt_scheduler_lock_nest s) \<le> 0 then s\<lparr>rt_scheduler_lock_nest := 0\<rparr> else s"])
        (auto simp: rt_exit_critical_def rt_enter_critical_def Let_def split: if_splits)
  qed
  have fr: "sched_frame s1 s'" using s1(1,11) frame_schedule by auto
  show "kinv s'" "obj = ObjNull"
    using inv_object_init [OF assms] assms(1) by (auto simp: rt_object_init_def bindE)
  show "timers s' = timers s" "timer_list s' = timer_list s" "th_obj (threads s' t) = th_obj (threads s t)"
    "sems s' = sems s" "mutexes s' = mutexes s" "events s' = events s" "mailboxes s' = mailboxes s"
    "mqueues s' = mqueues s"
    using frame_fields [OF fr] s1 by simp_all
  show "stat (threads s t) \<noteq> RT_THREAD_READY \<Longrightarrow> stat (threads s t) \<noteq> RT_THREAD_RUNNING \<Longrightarrow>
     threads s' t = threads s t"
    using frame_thread [OF fr] s1 by simp
  show "(\<And>p. l \<noteq> Ready p) \<Longrightarrow> queue s' l = queue s l"
    using frame_queue [OF fr] s1 by simp
qed

lemma inv_thread_init:
  assumes "thread_init t p ticks (upd_thread t (th_obj_update (\<lambda>_. ob)) s) = Some s'" "kinv s"
    "th_obj (threads s t) = ObjNull" "ob \<noteq> ObjNull"
  shows "kinv s'"
proof -
  let ?h = "(threads s t)\<lparr>th_obj := ob, current_priority := p, number_mask := 0,
    event_set := 0, event_info := 0, init_tick := ticks, remaining_tick := ticks, error := RT_EOK,
    stat := RT_THREAD_INIT, yield := False\<rparr>"
  let ?s = "upd_thread t (\<lambda>_. ?h) s"
  have ok: "thread_ok s t" using assms(2) by (simp add: kinv_def kinv_thread)
  let ?f = "\<lambda>h. h\<lparr>current_priority := p, number_mask := 0, event_set := 0, event_info := 0,
      init_tick := ticks, remaining_tick := ticks, error := RT_EOK, stat := RT_THREAD_INIT, yield := False\<rparr>"
  have "upd_thread t ?f (upd_thread t (th_obj_update (\<lambda>_. ob)) s) = ?s"
    by (simp add: upd_thread_def)
  moreover have prio: "unat p < RT_THREAD_PRIORITY_MAX"
    and "rt_timer_init (TThread t) 0 False (upd_thread t ?f (upd_thread t (th_obj_update (\<lambda>_. ob)) s)) = Some s'"
    using assms(1) by (auto simp: thread_init_def bindE Let_def)
  ultimately have "rt_timer_init (TThread t) 0 False ?s = Some s'"
    by (simp only:)
  then obtain s2 where s2: "rt_object_init (tm_obj (timers s (TThread t))) ?s = Some s2"
    and s': "timer_init (TThread t) 0 False (upd_timer (TThread t) (tm_obj_update (\<lambda>_. ObjStatic)) s2) = Some s'"
    by (auto simp: rt_timer_init_def bindE Let_def)
  have null: "tm_obj (timers s (TThread t)) = ObjNull"
    using s2 by (auto simp: rt_object_init_def bindE)
  have "kinv_but {} ?s"
    using ok assms(2,3,4) prio null
    by (intro kinv_upd_one [where X = "{}"])
      (auto simp: kinv_def thread_ok_def thread_base_def place_ok_def live_def Let_def)
  then have inv1: "kinv ?s" by (simp add: kinv_def)
  note fr = object_init_frame [OF s2 inv1]
  have st: "threads s2 t = ?h" using fr(6) [of t] by simp
  have un: "TThread t \<notin> set (timer_list s2)" using ok fr(4) assms(3) by (simp add: thread_ok_def)
  let ?m = "(timers s2 (TThread t))\<lparr>tm_obj := ObjStatic, activated := False, periodic := False,
    timeout_tick := 0, tm_init_tick := 0\<rparr>"
  have e: "s' = upd_timer (TThread t) (\<lambda>_. ?m) s2"
    using s' by (auto simp: timer_init_def bindE upd_timer_def)
  have "kinv_but {} s'"
  proof (rule kinv_but_change [where t = t and X = "{}" and s = s2])
    show "kinv_but {} s2" using fr(1) by (simp add: kinv_def)
    then have "thread_ok s2 t" by (simp add: kinv_thread)
    then show "if t \<in> {} then flight_ok s' t else thread_ok s' t"
      using st by (auto simp: e thread_ok_def thread_base_def live_def Let_def)
    show "links_ok s'" "ready_ok s'" "timers_ok s'"
      using \<open>kinv_but {} s2\<close> un by (auto simp: e kinv_but_def links_ok_def ready_ok_def timers_ok_def)
  qed (auto simp: e)
  then show ?thesis by (simp add: kinv_def)
qed

lemma inv_rt_thread_init:
  "rt_thread_init t p ticks s = Some (r, s') \<Longrightarrow> kinv s \<Longrightarrow> kinv s'"
  apply (clarsimp simp: rt_thread_init_def bindE)
  apply (frule (1) object_init_frame(1), frule (1) object_init_frame(2))
  apply (erule inv_thread_init, assumption)
   apply (frule (1) object_init_frame(5) [of _ _ _ t])
   apply auto
  done

lemma inv_thread_create:
  assumes "rt_thread_create alloc stack p ticks s = Some (r, s')" "kinv s"
    "\<And>t. alloc = Some t \<Longrightarrow> th_obj (threads s t) = ObjNull"
  shows "kinv s'"
proof (cases alloc)
  case None
  then show ?thesis using assms by (auto simp: rt_thread_create_def bindE)
next
  case (Some t)
  show ?thesis
  proof (cases stack)
    case True
    then show ?thesis
      using assms(1) inv_thread_init [OF _ assms(2) assms(3) [OF Some], of p ticks ObjDynamic] Some
      by (auto simp: rt_thread_create_def bindE Let_def)
  next
    case False
    then have "s' = upd_thread t (th_obj_update (\<lambda>_. ObjNull)) s"
      using assms(1) Some by (auto simp: rt_thread_create_def bindE Let_def upd_thread_def)
    also have "\<dots> = s"
      using assms(3) [OF Some] by (auto simp: upd_thread_def intro!: kernel.equality)
    finally show ?thesis using assms(2) by simp
  qed
qed

lemma priority_mask_Some: "priority_mask p = Some m \<longleftrightarrow> unat p < 32 \<and> m = 2 ^ unat p"
  by (auto simp: priority_mask_def bindE RT_THREAD_PRIORITY_MAX_def)

lemma inv_startup: "rt_thread_startup t s = Some (r, s') \<Longrightarrow> kinv s \<Longrightarrow> kinv s'"
proof -
  assume step: "rt_thread_startup t s = Some (r, s')" and inv: "kinv s"
  let ?h = "(threads s t)\<lparr>number_mask := 2 ^ unat (current_priority (threads s t)),
    stat := RT_THREAD_SUSPEND, yield := False\<rparr>"
  let ?s = "upd_thread t (\<lambda>_. ?h) s"
  have st: "stat (threads s t) = RT_THREAD_INIT" "th_obj (threads s t) \<noteq> ObjNull"
    using step by (auto simp: rt_thread_startup_def bindE)
  have up: "upd_thread t (\<lambda>h. h\<lparr>number_mask := 2 ^ unat (current_priority (threads s t)),
    stat := RT_THREAD_SUSPEND, yield := False\<rparr>) s = ?s"
    by (simp add: upd_thread_def)
  obtain r1 s1 where s1: "rt_thread_resume t ?s = Some (r1, s1)"
      "s1 = s' \<or> rt_schedule s1 = Some s'"
    using step unfolding rt_thread_startup_def bindE Let_def priority_mask_Some
    by (auto simp: up bindE split: if_splits)
  have "tm_obj (timers s (TThread t)) \<noteq> ObjNull"
    using s1(1) by (auto simp: rt_thread_resume_def rt_timer_stop_Some bindE Let_def)
  moreover have ok: "thread_ok s t" using inv by (simp add: kinv_def kinv_thread)
  moreover have "tm_obj (timers s (TThread t)) \<noteq> ObjDynamic"
    using ok st by (simp add: thread_ok_def thread_base_def Let_def)
  ultimately have tm: "tm_obj (timers s (TThread t)) = ObjStatic"
    by (cases "tm_obj (timers s (TThread t))") auto
  have n: "tlist (threads s t) = None"
    using ok st by (auto simp: thread_ok_def place_ok_def Let_def split: option.splits qid.splits)
  have "kinv_but {} ?s"
    using ok st inv tm n
    by (intro kinv_upd_one [where X = "{}"])
      (auto simp: kinv_def thread_ok_def thread_base_def place_ok_def live_def Let_def)
  then have "kinv s1" using s1(1) inv_resume by (auto simp: kinv_def)
  then show "kinv s'" using s1(2) inv_schedule by auto
qed

lemma inv_remove:
  assumes "rt_schedule_remove_thread t s = Some s'" "kinv s" "th_obj (threads s t) \<noteq> ObjNull"
    "stat (threads s t) \<noteq> RT_THREAD_INIT" "stat (threads s t) \<noteq> RT_THREAD_CLOSE"
  shows "kinv_but {t} s'"
proof -
  have "kinv_but {} s" using assms(2) by (simp add: kinv_def)
  then obtain g where
    "rt_schedule_remove_thread t s = Some ((list_remove t s)\<lparr>rt_thread_ready_priority_group := g\<rparr>)"
    "kinv_but {t} ((list_remove t s)\<lparr>rt_thread_ready_priority_group := g\<rparr>)"
    by (rule kinv_schedule_remove [of "{}" s t]) (use assms in simp_all)
  then show ?thesis using assms(1) by simp
qed

text \<open>Closing a thread: off its list, its timer detached, onto the list of defunct threads.\<close>

lemma kinv_close_detached:
  assumes "kinv_but {t} s" "rt_timer_detach (TThread t) s = Some (r, s1)"
    "rt_thread_defunct_enqueue t (upd_thread t (\<lambda>h. h\<lparr>stat := RT_THREAD_CLOSE, yield := False\<rparr>) s1) = Some s2"
  shows "kinv s2"
proof -
  let ?s = "upd_thread t (\<lambda>h. h\<lparr>stat := RT_THREAD_CLOSE, yield := False\<rparr>) s1"
  have s1: "s1 = upd_timer (TThread t) (tm_obj_update (\<lambda>_. ObjNull)) (deactivate (TThread t) (timer_remove (TThread t) s))"
    using assms(2) by (auto simp: rt_timer_detach_def bindE Let_def)
  have fl: "flight_ok s t" using assms(1) by (simp add: kinv_flight)
  have un: "TThread t \<notin> set (timer_list ?s)"
    by (simp add: s1 deactivate_def timer_remove_def)
  have inv: "kinv_but {t} ?s"
  proof (rule kinv_but_change [OF assms(1), where t = t])
    show "links_ok ?s" "ready_ok ?s" "timers_ok ?s"
      using assms(1) unfolding s1
      by (auto simp: kinv_but_def links_ok_def ready_ok_def timers_ok_def deactivate_def timer_remove_def
          distinct_removeAll)
    show "if t \<in> {t} then flight_ok ?s t else thread_ok ?s t"
      using fl by (simp add: s1 flight_ok_def thread_base_def live_def deactivate_def timer_remove_def Let_def)
  qed (auto simp: s1 deactivate_def timer_remove_def)
  obtain s3 where "list_link Defunct (\<lambda>q. t # q) t ?s = Some s3" "kinv_but ({t} - {t}) s3"
    using un by (auto intro: kinv_link [OF inv, of t Defunct "\<lambda>q. t # q"])
  then show ?thesis
    using assms(3) by (simp add: rt_thread_defunct_enqueue_def kinv_def)
qed

lemma inv_close: 
  assumes "thread_close t s = Some s'" "kinv s" "th_obj (threads s t) \<noteq> ObjNull"
  shows "kinv s'"
proof (cases "stat (threads s t) = RT_THREAD_CLOSE")
  case True
  then show ?thesis using assms by (simp add: thread_close_def)
next
  case False
  have inv: "kinv_but {} s" using assms(2) by (simp add: kinv_def)
  obtain s0 r s1 where s0: "(if stat (threads s t) \<noteq> RT_THREAD_INIT then rt_schedule_remove_thread t s
        else Some s) = Some s0"
    and close: "rt_timer_detach (TThread t) s0 = Some (r, s1)"
      "rt_thread_defunct_enqueue t (upd_thread t (\<lambda>h. h\<lparr>stat := RT_THREAD_CLOSE, yield := False\<rparr>) s1) = Some s'"
    using assms(1) False by (auto simp: thread_close_def bindE Let_def)
  have "kinv_but {t} s0"
  proof (cases "stat (threads s t) = RT_THREAD_INIT")
    case True
    have "thread_ok s t" using inv by (simp add: kinv_thread)
    then have "tlist (threads s t) = None"
      using True assms(3) by (auto simp: thread_ok_def place_ok_def Let_def split: option.splits qid.splits)
    then show ?thesis using kinv_launch [OF inv assms(3)] s0 True by simp
  next
    case notinit: False
    show ?thesis
      using s0 notinit by (intro inv_remove [OF _ assms(2,3) notinit False]) simp
  qed
  then show ?thesis using kinv_close_detached close by blast
qed

lemma inv_detach: "rt_thread_detach t s = Some (r, s') \<Longrightarrow> kinv s \<Longrightarrow> kinv s'"
  by (auto simp: rt_thread_detach_def bindE dest: inv_close)

lemma inv_delete: "rt_thread_delete t s = Some (r, s') \<Longrightarrow> kinv s \<Longrightarrow> kinv s'"
  by (auto simp: rt_thread_delete_def bindE dest: inv_close)

lemma inv_exit:
  assumes "thread_exit s = Some s'" "kinv s"
  shows "kinv s'"
proof -
  have inv: "kinv_but {} s" using assms(2) by (simp add: kinv_def)
  obtain t s0 r s1 s2 where c: "rt_current_thread s = Some t"
    and s0: "rt_schedule_remove_thread t s = Some s0"
    and close: "rt_timer_detach (TThread t) s0 = Some (r, s1)"
      "rt_thread_defunct_enqueue t (upd_thread t (\<lambda>h. h\<lparr>stat := RT_THREAD_CLOSE, yield := False\<rparr>) s1) = Some s2"
    and sch: "rt_schedule s2 = Some s'"
    using assms(1) by (auto simp: thread_exit_def rt_thread_self_def bindE Let_def)
  note cur = kinv_current [OF assms(2) c]
  have "timers s0 = timers s"
    using s0 by (auto simp: rt_schedule_remove_thread_def bindE Let_def split: if_splits)
  then have "tm_obj (timers s (TThread t)) = ObjStatic"
    using close(1) by (auto simp: rt_timer_detach_def bindE)
  then have "stat (threads s t) \<noteq> RT_THREAD_CLOSE"
    using kinv_thread [OF inv, of t] cur(1) by (auto simp: thread_ok_def thread_base_def Let_def)
  then have "kinv_but {t} s0"
    by (rule inv_remove [OF s0 assms(2) cur(1) cur(3)])
  then show ?thesis
    using kinv_close_detached close sch inv_schedule by blast
qed

subsection \<open>Yield, sleep, control\<close>

lemma inv_yield: "rt_thread_yield s = Some (r, s') \<Longrightarrow> kinv s \<Longrightarrow> kinv s'"
  by (auto simp: rt_thread_yield_def bindE dest: inv_schedule)

lemma inv_switch_out:
  assumes "switch_out t l k s = Some (r, s')" "kinv s" "\<And>s r s'. k s = Some (r, s') \<Longrightarrow> kinv s \<Longrightarrow> kinv s'"
  shows "kinv s'"
  using assms by (auto simp: switch_out_def bindE dest: inv_schedule split: if_splits)

lemma inv_sleep_resume: "kinv s \<Longrightarrow> kinv (snd (thread_sleep_resume t s))"
  by (simp add: thread_sleep_resume_def)

text \<open>A thread whose timer starts after \<open>rt_thread_suspend\<close> is suspended: a closed one has no timer.\<close>

lemma inv_suspend_timer:
  assumes "rt_thread_suspend t s = Some (r, s1)" "start_thread_timer t time s1 = Some s2" "kinv s"
  shows "kinv s2"
  using assms(1,3)
proof (cases rule: suspend_cases)
  case ok
  then show ?thesis
    using inv_start_thread_timer [OF assms(2)] kinv_current [OF assms(3)] by simp
next
  case disorder
  have "stat (threads s t) \<noteq> RT_THREAD_CLOSE"
  proof
    assume "stat (threads s t) = RT_THREAD_CLOSE"
    then have "tm_obj (timers s (TThread t)) = ObjNull"
      using assms(3) kinv_current(1) [OF assms(3) disorder(1)] kinv_thread [of "{}" s t]
      by (auto simp: kinv_def thread_ok_def thread_base_def Let_def)
    then show False
      using assms(2) disorder by (auto simp: start_thread_timer_def rt_timer_control_def bindE)
  qed
  then show ?thesis
    using inv_start_thread_timer [OF assms(2)] assms(3) disorder kinv_current(1) by simp
qed

lemma inv_sleep_block:
  assumes "do { (_, s) \<leftarrow> rt_thread_suspend t s; s \<leftarrow> start_thread_timer t ticks s;
      switch_out t () (\<lambda>s. Some (apfst Done (thread_sleep_resume t s))) s } = Some (r, s')" "kinv s"
  shows "kinv s'"
proof -
  obtain r1 s1 s2 where "rt_thread_suspend t s = Some (r1, s1)" "start_thread_timer t ticks s1 = Some s2"
      "switch_out t () (\<lambda>s. Some (apfst Done (thread_sleep_resume t s))) s2 = Some (r, s')"
    using assms(1) by (auto simp: bindE)
  then show ?thesis
    using inv_suspend_timer assms(2) inv_sleep_resume
    by (auto elim!: inv_switch_out simp: apfst_def map_prod_def split: prod.splits) (metis snd_conv)
qed

lemma inv_sleep: "rt_thread_sleep ticks s = Some (r, s') \<Longrightarrow> kinv s \<Longrightarrow> kinv s'"
proof -
  assume "rt_thread_sleep ticks s = Some (r, s')" and inv: "kinv s"
  then obtain t where "do { (_, s) \<leftarrow> rt_thread_suspend t (upd_thread t (error_update (\<lambda>_. RT_EOK)) s);
      s \<leftarrow> start_thread_timer t ticks s;
      switch_out t () (\<lambda>s. Some (apfst Done (thread_sleep_resume t s))) s } = Some (r, s')"
    by (auto simp: rt_thread_sleep_def bindE Let_def)
  then show "kinv s'" by (rule inv_sleep_block) (simp add: inv)
qed

lemma inv_delay_until: "rt_thread_delay_until tck inc s = Some (v, r, s') \<Longrightarrow> kinv s \<Longrightarrow> kinv s'"
proof -
  assume step: "rt_thread_delay_until tck inc s = Some (v, r, s')" and inv: "kinv s"
  obtain t where t: "rt_current_thread s = Some t"
    using step by (auto simp: rt_thread_delay_until_def rt_thread_self_def bindE)
  let ?s = "upd_thread t (error_update (\<lambda>_. RT_EOK)) s"
  show "kinv s'"
  proof (cases "rt_tick s - tck < inc")
    case True
    define left_tick where "left_tick = tck + inc - rt_tick s"
    have "do { (_, s) \<leftarrow> rt_thread_suspend t ?s; s \<leftarrow> start_thread_timer t left_tick s;
      switch_out t () (\<lambda>s. Some (apfst Done (thread_sleep_resume t s))) s } = Some (r, s')"
      using step t True
      by (auto simp: rt_thread_delay_until_def rt_thread_self_def bindE Let_def left_tick_def)
    then show ?thesis by (rule inv_sleep_block) (simp add: inv)
  next
    case False
    then show ?thesis
      using step t inv by (auto simp: rt_thread_delay_until_def rt_thread_self_def bindE Let_def)
  qed
qed

lemma inv_mdelay: "rt_thread_mdelay ms s = Some (r, s') \<Longrightarrow> kinv s \<Longrightarrow> kinv s'"
  by (auto simp: rt_thread_mdelay_def dest: inv_sleep)

lemma inv_change_priority:
  assumes "change_priority t p s = Some s'" "kinv s" "th_obj (threads s t) \<noteq> ObjNull"
  shows "kinv s'"
proof -
  have inv: "kinv_but {} s" using assms(2) by (simp add: kinv_def)
  have p: "unat p < 32" using assms(1) by (auto simp: change_priority_def bindE priority_mask_Some split: if_splits)
  let ?f = "\<lambda>h. h\<lparr>current_priority := p, number_mask := 2 ^ unat p\<rparr>"
  have ok: "thread_ok s t" using inv by (simp add: kinv_thread)
  show ?thesis
  proof (cases "stat (threads s t) = RT_THREAD_READY")
    case True
    obtain s1 where s1: "rt_schedule_remove_thread t s = Some s1"
      and s': "rt_schedule_insert_thread t (upd_thread t ?f s1) = Some s'"
      using assms(1) True by (auto simp: change_priority_def bindE priority_mask_Some)
    have inv1: "kinv_but {t} s1" using inv_remove [OF s1 assms(2,3)] True by simp
    have st: "stat (threads s1 t) = RT_THREAD_READY" "rt_current_thread s1 = rt_current_thread s"
        "timer_list s1 = timer_list s"
      using s1 True by (auto simp: rt_schedule_remove_thread_def bindE Let_def split: if_splits)
    have fl: "flight_ok s1 t" using inv1 by (simp add: kinv_flight)
    have "kinv_but {t} (upd_thread t ?f s1)"
      using fl p st(1)
      by (intro kinv_upd_one [OF inv1])
        (auto simp: flight_ok_def thread_base_def live_def RT_THREAD_PRIORITY_MAX_def Let_def)
    then have "kinv_but ({t} - {t}) s'"
      using kinv_ready_tail [of "{t}" "upd_thread t ?f s1" t] ok assms(3) True st s'
      by (auto simp: thread_ok_def Let_def)
    then show ?thesis by (simp add: kinv_def)
  next
    case False
    then have s': "s' = upd_thread t ?f s"
      using assms(1) by (auto simp: change_priority_def bindE priority_mask_Some)
    have "kinv_but {} s'"
    proof (rule kinv_but_change [OF inv, where t = t])
      show "links_ok s'" "ready_ok s'" "timers_ok s'"
        using inv by (auto simp: s' kinv_but_def ready_ok_def timers_ok_def intro: links_ok_upd)
      have "place_ok (?f (threads s t))"
        using ok assms(3) False
        by (auto simp: thread_ok_def place_ok_def Let_def split: option.splits qid.splits)
      then show "if t \<in> {} then flight_ok s' t else thread_ok s' t"
        using ok assms(3) p
        by (auto simp: s' thread_ok_def thread_base_def live_def RT_THREAD_PRIORITY_MAX_def Let_def)
    qed (auto simp: s')
    then show ?thesis by (simp add: kinv_def)
  qed
qed

lemma inv_control: "rt_thread_control t cmd s = Some (r, s') \<Longrightarrow> kinv s \<Longrightarrow> kinv s'"
  by (cases cmd)
    (auto simp: rt_thread_control_def bindE dest: inv_startup inv_detach inv_delete inv_schedule
      inv_change_priority split: if_splits)

subsection \<open>The tick and the idle thread\<close>

lemma inv_tick_increase:
  "rt_tick_increase cb s = Some s' \<Longrightarrow> callback_ok cb \<Longrightarrow> kinv s \<Longrightarrow> kinv s'"
  by (auto simp: rt_tick_increase_def bindE Let_def dest!: inv_schedule inv_timer_check split: if_splits)

lemma kinv_forget:
  assumes "kinv_but {t} s" "rt_current_thread s \<noteq> Some t" "TThread t \<notin> set (timer_list s)"
  shows "kinv (upd_thread t (th_obj_update (\<lambda>_. ObjNull)) s)"
proof -
  have "flight_ok s t" using assms(1) by (simp add: kinv_flight)
  then have "kinv_but {} (upd_thread t (th_obj_update (\<lambda>_. ObjNull)) s)"
    using assms by (intro kinv_upd_one [OF assms(1)]) (auto simp: flight_ok_def thread_ok_def)
  then show ?thesis by (simp add: kinv_def)
qed

text \<open>
  The idle thread's collection of defunct threads. Cleanup functions release what the application
  attached to a thread; they leave the thread lists, timers, states and IPC objects alone.
\<close>

definition cleanup_ok :: "(tid \<Rightarrow> kernel \<Rightarrow> kernel option) \<Rightarrow> bool" where
  "cleanup_ok cl \<longleftrightarrow> (\<forall>t s s'. cl t s = Some s' \<longrightarrow>
     (\<forall>u. same_thread (threads s' u) (threads s u)) \<and> queue s' = queue s \<and>
     rt_thread_ready_priority_group s' = rt_thread_ready_priority_group s \<and>
     rt_current_thread s' = rt_current_thread s \<and> timers s' = timers s \<and> timer_list s' = timer_list s \<and>
     sems s' = sems s \<and> mutexes s' = mutexes s \<and> events s' = events s \<and> mailboxes s' = mailboxes s \<and>
     mqueues s' = mqueues s)"

lemma defunct_step:
  assumes "kinv s" "queue s Defunct = t # ts" "cleanup_ok cl" "cl t (list_remove t s) = Some s1"
    "\<And>c. rt_current_thread s = Some c \<Longrightarrow> stat (threads s c) \<noteq> RT_THREAD_CLOSE"
  shows "kinv (upd_thread t (th_obj_update (\<lambda>_. ObjNull)) s1)" "queue s1 Defunct = ts"
    "\<And>c. rt_current_thread s1 = Some c \<Longrightarrow>
       stat (threads (upd_thread t (th_obj_update (\<lambda>_. ObjNull)) s1) c) \<noteq> RT_THREAD_CLOSE"
    "stat (threads s t) = RT_THREAD_CLOSE" "tlist (threads s t) = Some Defunct"
proof -
  have inv: "kinv_but {} s" using assms(1) by (simp add: kinv_def)
  have l: "tlist (threads s t) = Some Defunct" using kinv_links [OF inv, of t Defunct] assms(2) by simp
  then have reg: "th_obj (threads s t) \<noteq> ObjNull" using kinv_registered [OF inv, of t] by simp
  have ok: "thread_ok s t" using inv by (simp add: kinv_thread)
  then show st: "stat (threads s t) = RT_THREAD_CLOSE" and "tlist (threads s t) = Some Defunct"
    using l reg by (auto simp: thread_ok_def place_ok_def Let_def)
  have "kinv_but {t} (list_remove t s)"
    using kinv_list_remove [OF inv _ reg] st by simp
  then have "kinv_but {t} s1"
    using assms(3,4) kinv_but_frame [of s1 "list_remove t s" "{t}"] unfolding cleanup_ok_def by metis
  moreover have "rt_current_thread s1 = rt_current_thread s" "timer_list s1 = timer_list s"
      "queue s1 = queue (list_remove t s)" "\<And>u. same_thread (threads s1 u) (threads (list_remove t s) u)"
    using assms(3,4) unfolding cleanup_ok_def by (metis list_remove_sel)+
  ultimately show "kinv (upd_thread t (th_obj_update (\<lambda>_. ObjNull)) s1)" "queue s1 Defunct = ts"
    "\<And>c. rt_current_thread s1 = Some c \<Longrightarrow>
       stat (threads (upd_thread t (th_obj_update (\<lambda>_. ObjNull)) s1) c) \<noteq> RT_THREAD_CLOSE"
    using ok reg st assms(2,5) l
    by (auto intro!: kinv_forget simp: thread_ok_def same_thread_def Let_def)
qed

lemma inv_defunct_execute:
  assumes "rt_defunct_execute cl s = Some s'" "kinv s" "cleanup_ok cl"
    "\<And>c. rt_current_thread s = Some c \<Longrightarrow> stat (threads s c) \<noteq> RT_THREAD_CLOSE"
  shows "kinv s'" "queue s' Defunct = []"
proof -
  have "kinv s' \<and> queue s' Defunct = []"
    using assms
  proof (induction "queue s Defunct" arbitrary: s)
    case Nil
    then show ?case by (simp add: rt_defunct_execute.simps rt_thread_defunct_dequeue_def)
  next
    case (Cons t ts)
    obtain s1 where s1: "cl t (list_remove t s) = Some s1"
      "rt_defunct_execute cl (upd_thread t (th_obj_update (\<lambda>_. ObjNull)) s1) = Some s'"
      using Cons.prems(1) Cons.hyps(2) [symmetric]
      by (subst (asm) rt_defunct_execute.simps) (auto simp: rt_thread_defunct_dequeue_def bindE)
    note d = defunct_step [OF Cons.prems(2) Cons.hyps(2) [symmetric] Cons.prems(3) s1(1) Cons.prems(4)]
    show ?case
      using Cons.hyps(1) [OF _ s1(2) d(1) Cons.prems(3)] d(2,3) by simp
  qed
  then show "kinv s'" "queue s' Defunct = []" by simp_all
qed

text \<open>Without cleanup functions the collection always ends, and frees exactly the defunct threads.\<close>

lemma defunct_execute_returns:
  assumes "kinv s" "\<And>c. rt_current_thread s = Some c \<Longrightarrow> stat (threads s c) \<noteq> RT_THREAD_CLOSE"
  shows "\<exists>s'. rt_defunct_execute (\<lambda>_. Some) s = Some s' \<and>
    (\<forall>t. threads s' t = (if t \<in> set (queue s Defunct)
       then (threads s t)\<lparr>th_obj := ObjNull, tlist := None\<rparr> else threads s t))"
  using assms
proof (induction "queue s Defunct" arbitrary: s)
  case Nil
  then show ?case by (intro exI [of _ s]) (simp add: rt_defunct_execute.simps rt_thread_defunct_dequeue_def)
next
  case (Cons t ts)
  let ?s = "upd_thread t (th_obj_update (\<lambda>_. ObjNull)) (list_remove t s)"
  have cl: "cleanup_ok (\<lambda>_. Some)" by (simp add: cleanup_ok_def)
  note d = defunct_step [OF Cons.prems(1) Cons.hyps(2) [symmetric] cl refl Cons.prems(2)]
  have "ts = queue ?s Defunct" using d(2) by simp
  have "\<And>c. rt_current_thread ?s = Some c \<Longrightarrow> stat (threads ?s c) \<noteq> RT_THREAD_CLOSE"
    using d(3) by (metis list_remove_sel upd_thread_sel(6))
  from Cons.hyps(1) [OF \<open>ts = queue ?s Defunct\<close> d(1) this]
  obtain s' where s': "rt_defunct_execute (\<lambda>_. Some) ?s = Some s'"
    "\<And>u. threads s' u = (if u \<in> set ts then (threads ?s u)\<lparr>th_obj := ObjNull, tlist := None\<rparr> else threads ?s u)"
    unfolding \<open>ts = queue ?s Defunct\<close> [symmetric] by blast
  have "t \<notin> set ts"
    using kinv_distinct [of "{}" s Defunct] Cons.prems(1) Cons.hyps(2) by (metis distinct.simps(2) kinv_def)
  moreover have "rt_defunct_execute (\<lambda>_. Some) s = Some s'"
    using s'(1) Cons.hyps(2) [symmetric]
    by (subst rt_defunct_execute.simps) (simp add: rt_thread_defunct_dequeue_def)
  ultimately show ?case
    using s'(2) Cons.hyps(2) [symmetric] by (intro exI [of _ s']) auto
qed

end
