(* ===== verification/IpcList.thy ===== *)
theory IpcList imports KOps
begin

text \<open>
  The suspend lists of the IPC objects of \<open>src/ipc.c\<close>: the helpers all objects share, and how they
  move threads.
\<close>

subsection \<open>Suspend lists\<close>

text \<open>\<open>_ipc_list_suspend\<close>: the place of the thread in the list, by the object's flag.\<close>

fun insert_prio :: "(tid \<Rightarrow> rt_thread) \<Rightarrow> tid \<Rightarrow> tid list \<Rightarrow> tid list" where
  "insert_prio th t [] = [t]"
| "insert_prio th t (x # xs) =
     (if current_priority (th t) < current_priority (th x) then t # x # xs
      else x # insert_prio th t xs)"

definition ipc_list_suspend :: "qid \<Rightarrow> tid \<Rightarrow> u8 \<Rightarrow> kernel \<Rightarrow> kernel option" where
  "ipc_list_suspend l t flag s = do {
     (_, s) \<leftarrow> rt_thread_suspend t s;
     if flag = RT_IPC_FLAG_FIFO then list_link l (\<lambda>q. q @ [t]) t s
     else if flag = RT_IPC_FLAG_PRIO then list_link l (insert_prio (threads s) t) t s
     else None
   }"

text \<open>\<open>_ipc_list_resume\<close> is only called on a list that is not empty.\<close>

definition ipc_list_resume :: "qid \<Rightarrow> kernel \<Rightarrow> kernel option" where
  "ipc_list_resume l s =
     (case queue s l of
        [] \<Rightarrow> None
      | t # _ \<Rightarrow> do { (_, s) \<leftarrow> rt_thread_resume t s; Some s })"

text \<open>\<open>_ipc_list_resume_all\<close> takes the first thread until the list is empty.\<close>

partial_function (option) ipc_list_resume_all :: "qid \<Rightarrow> kernel \<Rightarrow> kernel option" where
  "ipc_list_resume_all l s =
     (case queue s l of
        [] \<Rightarrow> Some s
      | t # _ \<Rightarrow> do {
          (_, s) \<leftarrow> rt_thread_resume t (upd_thread t (error_update (\<lambda>_. - RT_ERROR)) s);
          ipc_list_resume_all l s
        })"

definition ipc_flag_ok :: "u8 \<Rightarrow> unit option" where
  "ipc_flag_ok flag = rt_assert (flag = RT_IPC_FLAG_FIFO \<or> flag = RT_IPC_FLAG_PRIO)"

text \<open>
  \<open>_ipc_object_init\<close>: \<open>rt_list_init\<close> on the suspend list. On a list that holds threads it would cut
  them off.
\<close>

definition ipc_object_init :: "qid \<Rightarrow> kernel \<Rightarrow> kernel option" where
  "ipc_object_init l s = do { rt_assert (queue s l = []); Some s }"

text \<open>What follows \<open>rt_schedule\<close> in a call that only reports the error of its thread.\<close>

definition ipc_wait_resume :: "tid \<Rightarrow> kernel \<Rightarrow> rt_err_t \<times> kernel" where
  "ipc_wait_resume t s = (if error (threads s t) \<noteq> RT_EOK then error (threads s t) else RT_EOK, s)"

text \<open>The timeout of a blocking call: \<open>time > 0\<close> as a signed number starts the thread's timer.\<close>

definition start_timeout :: "tid \<Rightarrow> u32 \<Rightarrow> kernel \<Rightarrow> kernel option" where
  "start_timeout t time s = (if 0 < sint time then start_thread_timer t time s else Some s)"

text \<open>Resume the first thread of a suspend list, if there is one, and let the scheduler decide.\<close>

definition ipc_wake_one :: "qid \<Rightarrow> kernel \<Rightarrow> kernel option" where
  "ipc_wake_one l s =
     (if queue s l \<noteq> [] then do { s \<leftarrow> ipc_list_resume l s; rt_schedule s } else Some s)"

text \<open>
  Suspending inside the loop of a mailbox or message queue call. If no thread were ready to switch
  to, the loop would go round at once and link the suspended caller a second time: no result. (The
  idle thread is always ready.)
\<close>

definition ipc_loop_block ::
    "qid \<Rightarrow> tid \<Rightarrow> u8 \<Rightarrow> u32 \<Rightarrow> kernel \<Rightarrow> (('r, u32 \<times> u32) call \<times> kernel) option" where
  "ipc_loop_block l t flag timeout s = do {
     s \<leftarrow> ipc_list_suspend l t flag s;
     s \<leftarrow> start_timeout t timeout s;
     switch_out t (timeout, if 0 < sint timeout then rt_tick s else 0) (\<lambda>_. None) s
   }"

text \<open>What is left of the timeout when the thread runs again, in the code's mixed arithmetic.\<close>

definition remaining_timeout :: "u32 \<Rightarrow> u32 \<Rightarrow> kernel \<Rightarrow> u32" where
  "remaining_timeout timeout tick_delta s =
     (if 0 < sint timeout
      then (let left = timeout - (rt_tick s - tick_delta) in if sint left < 0 then 0 else left)
      else timeout)"

subsection \<open>How the helpers move threads\<close>

fun wait_list :: "qid \<Rightarrow> bool" where
  "wait_list (Ready p) = False"
| "wait_list Defunct = False"
| "wait_list l = True"

lemma wait_list_not_ready: "wait_list l \<Longrightarrow> l \<noteq> Ready p" "wait_list l \<Longrightarrow> l \<noteq> Defunct"
  by auto

lemma kinv_waiter:
  assumes "kinv s" "t \<in> set (queue s l)" "wait_list l"
  shows "stat (threads s t) = RT_THREAD_SUSPEND" "th_obj (threads s t) \<noteq> ObjNull"
    "tlist (threads s t) = Some l"
proof -
  have inv: "kinv_but {} s" using assms(1) by (simp add: kinv_def)
  show l: "tlist (threads s t) = Some l" using kinv_links [OF inv] assms(2) by simp
  then show n: "th_obj (threads s t) \<noteq> ObjNull" using kinv_registered [OF inv, of t] by simp
  show "stat (threads s t) = RT_THREAD_SUSPEND"
    using kinv_thread [OF inv, of t] l n assms(3)
    by (auto simp: thread_ok_def place_ok_def Let_def split: qid.splits)
qed

lemma set_insert_prio [simp]: "set (insert_prio th t xs) = insert t (set xs)"
  by (induction xs) auto

lemma length_insert_prio [simp]: "length (insert_prio th t xs) = Suc (length xs)"
  by (induction xs) auto

text \<open>The place of a thread in a suspend list.\<close>

definition wait_place :: "u8 \<Rightarrow> (tid \<Rightarrow> rt_thread) \<Rightarrow> tid \<Rightarrow> tid list \<Rightarrow> tid list" where
  "wait_place flag th t q = (if flag = RT_IPC_FLAG_FIFO then q @ [t] else insert_prio th t q)"

lemma wait_place_simps [simp]:
  "set (wait_place flag th t q) = insert t (set q)"
  "length (wait_place flag th t q) = Suc (length q)"
  by (auto simp: wait_place_def)

lemma insert_prio_cong:
  "(\<And>u. current_priority (th u) = current_priority (th' u)) \<Longrightarrow> insert_prio th t xs = insert_prio th' t xs"
  by (induction xs) auto

text \<open>The running thread enters a suspend list.\<close>

definition waiting :: "qid \<Rightarrow> tid \<Rightarrow> u8 \<Rightarrow> kernel \<Rightarrow> kernel" where
  "waiting l t flag s = upd_thread t (tlist_update (\<lambda>_. Some l))
     (suspended t s\<lparr>queue := (queue s)(l := wait_place flag (threads s) t (queue s l))\<rparr>)"

lemma ipc_suspend_running:
  assumes "kinv s" "rt_current_thread s = Some t" "stat (threads s t) = RT_THREAD_RUNNING"
    "wait_list l" "flag = RT_IPC_FLAG_FIFO \<or> flag = RT_IPC_FLAG_PRIO"
  shows "ipc_list_suspend l t flag s = Some (waiting l t flag s)" "kinv (waiting l t flag s)"
proof -
  note sus = kinv_suspend [OF assms(1-3)]
  have "kinv_but ({t} - {t}) (waiting l t flag s) \<and>
      list_link l (wait_place flag (threads s) t) t (suspended t s) = Some (waiting l t flag s)"
    by (rule kinv_link [OF sus(2), of t l "wait_place flag (threads s) t"])
      (use assms(4) in \<open>auto simp: waiting_def split: qid.splits\<close>)
  moreover have "insert_prio (threads (suspended t s)) t = insert_prio (threads s) t"
    by (rule ext, rule insert_prio_cong) simp
  moreover have "(\<lambda>q. q @ [t]) = wait_place RT_IPC_FLAG_FIFO (threads s) t"
    "insert_prio (threads s) t = wait_place RT_IPC_FLAG_PRIO (threads s) t"
    by (auto simp: wait_place_def RT_IPC_FLAG_FIFO_def RT_IPC_FLAG_PRIO_def)
  ultimately show "ipc_list_suspend l t flag s = Some (waiting l t flag s)" "kinv (waiting l t flag s)"
    using sus(1) assms(5)
    by (auto simp: ipc_list_suspend_def kinv_def RT_IPC_FLAG_FIFO_def RT_IPC_FLAG_PRIO_def)
qed

lemma inv_ipc_suspend:
  assumes "ipc_list_suspend l t flag s = Some s'" "kinv s" "wait_list l"
  shows "kinv s'" "rt_current_thread s = Some t" "stat (threads s' t) = RT_THREAD_SUSPEND"
    "th_obj (threads s' t) \<noteq> ObjNull"
proof -
  have flag: "flag = RT_IPC_FLAG_FIFO \<or> flag = RT_IPC_FLAG_PRIO"
    using assms(1) by (auto simp: ipc_list_suspend_def bindE split: if_splits)
  obtain r s1 where s1: "rt_thread_suspend t s = Some (r, s1)"
    using assms(1) by (auto simp: ipc_list_suspend_def bindE)
  then show c: "rt_current_thread s = Some t" using assms(2) by (cases rule: suspend_cases) auto
  note reg = kinv_current(1) [OF assms(2) c]
  from s1 assms(2) have "kinv s' \<and> stat (threads s' t) = RT_THREAD_SUSPEND \<and> th_obj (threads s' t) \<noteq> ObjNull"
  proof (cases rule: suspend_cases)
    case ok
    then have "s' = waiting l t flag s" "kinv s'"
      using ipc_suspend_running [OF assms(2) c _ assms(3) flag] assms(1) by auto
    then show ?thesis using reg by (simp add: waiting_def)
  next
    case disorder
    have inv: "kinv_but {} s" using assms(2) by (simp add: kinv_def)
    obtain place where pl: "list_link l place t s = Some s'" "place = (\<lambda>q. q @ [t]) \<or> place = insert_prio (threads s) t"
      using assms(1) s1 disorder(3) by (auto simp: ipc_list_suspend_def bindE split: if_splits)
    then have n: "tlist (threads s t) = None" by (simp add: list_link_eq_Some)
    then have "stat (threads s t) = RT_THREAD_SUSPEND"
      using kinv_thread [OF inv, of t] reg disorder(4) by (auto simp: thread_ok_def place_ok_def Let_def)
    moreover have "kinv_but ({t} - {t}) s'"
      by (rule kinv_link [OF kinv_launch [OF inv reg n], of t l place])
        (use assms(3) pl calculation in \<open>auto split: qid.splits\<close>)
    ultimately show ?thesis using pl(1) reg by (auto simp: kinv_def list_link_eq_Some)
  qed
  then show "kinv s'" "stat (threads s' t) = RT_THREAD_SUSPEND" "th_obj (threads s' t) \<noteq> ObjNull" by auto
qed

lemma inv_start_timeout:
  "start_timeout t time s = Some s' \<Longrightarrow> kinv s \<Longrightarrow> stat (threads s t) = RT_THREAD_SUSPEND \<Longrightarrow>
   th_obj (threads s t) \<noteq> ObjNull \<Longrightarrow> kinv s'"
  by (auto simp: start_timeout_def dest: inv_start_thread_timer split: if_splits)

text \<open>Waking the first thread of a suspend list.\<close>

lemma ipc_list_resume_eq:
  assumes "kinv s" "wait_list l" "queue s l = t # ts"
  shows "ipc_list_resume l s = Some (resumed t s)" "kinv (resumed t s)"
    "queue (resumed t s) l = ts" "th_obj (threads s t) \<noteq> ObjNull"
proof -
  note w = kinv_waiter [OF assms(1) _ assms(2), of t]
  show "ipc_list_resume l s = Some (resumed t s)" "kinv (resumed t s)"
    using kinv_resume [OF assms(1), of t] w assms(3) by (auto simp: ipc_list_resume_def)
  show "queue (resumed t s) l = ts"
    using w assms(2,3) by (subst resumed_queue) auto
  show "th_obj (threads s t) \<noteq> ObjNull" using w assms(3) by simp
qed

lemma inv_ipc_resume:
  assumes "ipc_list_resume l s = Some s'" "kinv s" "wait_list l"
  shows "kinv s'"
proof (cases "queue s l")
  case Nil
  then show ?thesis using assms(1) by (simp add: ipc_list_resume_def)
next
  case (Cons t ts)
  then show ?thesis using ipc_list_resume_eq [OF assms(2,3) Cons] assms(1) by simp
qed

lemma inv_wake_one: "ipc_wake_one l s = Some s' \<Longrightarrow> kinv s \<Longrightarrow> wait_list l \<Longrightarrow> kinv s'"
  by (auto simp: ipc_wake_one_def bindE dest: inv_ipc_resume inv_schedule split: if_splits)

lemma inv_loop_block:
  "ipc_loop_block l t flag timeout s = Some (r, s') \<Longrightarrow> kinv s \<Longrightarrow> wait_list l \<Longrightarrow> kinv s'"
  by (auto simp: ipc_loop_block_def bindE elim!: inv_switch_out
      dest!: inv_start_timeout dest: inv_ipc_suspend)

subsection \<open>Waking a whole list\<close>

text \<open>What no list operation touches.\<close>

definition ipc_frame :: "kernel \<Rightarrow> kernel \<Rightarrow> bool" where
  "ipc_frame s s' \<longleftrightarrow> sems s' = sems s \<and> mutexes s' = mutexes s \<and> events s' = events s \<and>
     mailboxes s' = mailboxes s \<and> mqueues s' = mqueues s \<and> rt_tick s' = rt_tick s \<and>
     rt_scheduler_lock_nest s' = rt_scheduler_lock_nest s \<and> rt_interrupt_nest s' = rt_interrupt_nest s \<and>
     rt_current_thread s' = rt_current_thread s"

lemma ipc_frame_refl [simp]: "ipc_frame s s"
  by (simp add: ipc_frame_def)

lemma ipc_frame_resumed: "ipc_frame s (resumed t (upd_thread t f s))"
  by (simp add: ipc_frame_def)

lemma ipc_frame_trans: "ipc_frame s s1 \<Longrightarrow> ipc_frame s1 s2 \<Longrightarrow> ipc_frame s s2"
  by (simp add: ipc_frame_def)

text \<open>
  \<open>_ipc_list_resume_all\<close> always ends: every thread of the list becomes runnable with the error
  \<open>-RT_ERROR\<close>, and no other thread and no other suspend list changes.
\<close>

lemma resume_all_spec:
  assumes "kinv s" "wait_list l"
  shows "\<exists>s'. ipc_list_resume_all l s = Some s' \<and> kinv s' \<and> queue s' l = [] \<and>
    (\<forall>t. if t \<in> set (queue s l)
         then error (threads s' t) = - RT_ERROR \<and> th_obj (threads s' t) = th_obj (threads s t) \<and>
           stat (threads s' t) = (if rt_current_thread s = Some t then RT_THREAD_RUNNING else RT_THREAD_READY)
         else threads s' t = threads s t) \<and>
    (\<forall>k. wait_list k \<longrightarrow> k \<noteq> l \<longrightarrow> queue s' k = queue s k) \<and> ipc_frame s s'"
  using assms(1)
proof (induction "queue s l" arbitrary: s)
  case Nil
  then show ?case
    by (intro exI [of _ s]) (simp add: ipc_list_resume_all.simps)
next
  case (Cons t ts)
  let ?e = "upd_thread t (error_update (\<lambda>_. - RT_ERROR)) s"
  let ?s = "resumed t ?e"
  have inve: "kinv ?e" using Cons.prems by simp
  have q: "queue ?e l = t # ts" using Cons.hyps(2) by simp
  note w = kinv_waiter [OF Cons.prems _ assms(2), of t]
  have st: "stat (threads s t) = RT_THREAD_SUSPEND" "th_obj (threads s t) \<noteq> ObjNull"
      "tlist (threads s t) = Some l"
    using w Cons.hyps(2) by (metis list.set_intros(1))+
  note r = ipc_list_resume_eq [OF inve assms(2) q]
  have res: "rt_thread_resume t ?e = Some (RT_EOK, ?s)"
    using kinv_resume [OF inve, of t] st by simp
  have "ts = queue ?s l" using r(3) by simp
  from Cons.hyps(1) [OF this r(2)] obtain s' where s': "ipc_list_resume_all l ?s = Some s'"
      "kinv s'" "queue s' l = []" "ipc_frame ?s s'"
      "\<And>k. wait_list k \<Longrightarrow> k \<noteq> l \<Longrightarrow> queue s' k = queue ?s k"
    and th: "\<And>u. if u \<in> set ts then error (threads s' u) = - RT_ERROR \<and> th_obj (threads s' u) = th_obj (threads ?s u) \<and>
           stat (threads s' u) = (if rt_current_thread ?s = Some u then RT_THREAD_RUNNING else RT_THREAD_READY)
         else threads s' u = threads ?s u"
    unfolding r(3) by blast
  have d: "t \<notin> set ts"
    using kinv_distinct [of "{}" s l] Cons.prems Cons.hyps(2) by (metis distinct.simps(2) kinv_def)
  have "ipc_list_resume_all l s = Some s'"
    using Cons.hyps(2) [symmetric] res s'(1) by (subst ipc_list_resume_all.simps) simp
  moreover have "if u \<in> set (queue s l) then error (threads s' u) = - RT_ERROR \<and> th_obj (threads s' u) = th_obj (threads s u) \<and>
        stat (threads s' u) = (if rt_current_thread s = Some u then RT_THREAD_RUNNING else RT_THREAD_READY)
      else threads s' u = threads s u" for u
    using th [of u] Cons.hyps(2) [symmetric] d by (cases "u = t") auto
  moreover have "queue s' k = queue s k" if "wait_list k" "k \<noteq> l" for k
    using s'(5) [OF that] that st(3) by (subst (asm) resumed_queue) auto
  ultimately show ?case
    using s'(2-4) ipc_frame_trans [OF ipc_frame_resumed [of s t "error_update (\<lambda>_. - RT_ERROR)"]]
    by blast
qed

lemma inv_resume_all:
  "ipc_list_resume_all l s = Some s' \<Longrightarrow> kinv s \<Longrightarrow> wait_list l \<Longrightarrow> kinv s'"
  using resume_all_spec [of s l] by auto

lemma inv_resume_all2:
  assumes "ipc_list_resume_all l s = Some s1" "ipc_list_resume_all k s1 = Some s2" "kinv s"
    "wait_list l" "wait_list k"
  shows "kinv s2"
  using inv_resume_all [OF assms(2) inv_resume_all [OF assms(1,3,4)] assms(5)] .

end
