(* ===== verification/Semaphore.thy ===== *)
theory Semaphore imports IpcList
begin

text \<open>
  The semaphores of \<open>src/ipc.c\<close>.

  The body of a call runs with interrupts disabled and is one step; a call that blocks ends its
  first step inside \<open>rt_schedule\<close> and continues with \<open>..._resume\<close>.
\<close>

subsection \<open>Semaphores\<close>

definition rt_sem_init :: "oid \<Rightarrow> u32 \<Rightarrow> u8 \<Rightarrow> kernel \<Rightarrow> (rt_err_t \<times> kernel) option" where
  "rt_sem_init i value flag s = do {
     rt_assert (value < 0x10000);
     ipc_flag_ok flag;
     s \<leftarrow> rt_object_init (sem_obj (sems s i)) s;
     s \<leftarrow> ipc_object_init (SemWait i) s;
     Some (RT_EOK, upd_sem i (\<lambda>_. \<lparr>sem_obj = ObjStatic, sem_flag = flag, sem_value = ucast value\<rparr>) s)
   }"

definition rt_sem_detach :: "oid \<Rightarrow> kernel \<Rightarrow> (rt_err_t \<times> kernel) option" where
  "rt_sem_detach i s = do {
     rt_assert (sem_obj (sems s i) = ObjStatic);
     s \<leftarrow> ipc_list_resume_all (SemWait i) s;
     Some (RT_EOK, upd_sem i (sem_obj_update (\<lambda>_. ObjNull)) s)
   }"

definition rt_sem_create ::
    "oid option \<Rightarrow> u32 \<Rightarrow> u8 \<Rightarrow> kernel \<Rightarrow> (oid option \<times> kernel) option" where
  "rt_sem_create alloc value flag s = do {
     rt_assert (value < 0x10000);
     ipc_flag_ok flag;
     not_in_interrupt s;
     (case alloc of
        None \<Rightarrow> Some (None, s)
      | Some i \<Rightarrow> do {
          s \<leftarrow> ipc_object_init (SemWait i) s;
          Some (Some i,
            upd_sem i (\<lambda>_. \<lparr>sem_obj = ObjDynamic, sem_flag = flag, sem_value = ucast value\<rparr>) s)
        })
   }"

definition rt_sem_delete :: "oid \<Rightarrow> kernel \<Rightarrow> (rt_err_t \<times> kernel) option" where
  "rt_sem_delete i s = do {
     rt_assert (sem_obj (sems s i) = ObjDynamic);
     not_in_interrupt s;
     s \<leftarrow> ipc_list_resume_all (SemWait i) s;
     Some (RT_EOK, upd_sem i (sem_obj_update (\<lambda>_. ObjNull)) s)
   }"

definition rt_sem_take ::
    "oid \<Rightarrow> u32 \<Rightarrow> kernel \<Rightarrow> ((rt_err_t, unit) call \<times> kernel) option" where
  "rt_sem_take i time s = do {
     rt_assert (sem_obj (sems s i) \<noteq> ObjNull);
     if 0 < sem_value (sems s i)
     then Some (Done RT_EOK, upd_sem i (sem_value_update (\<lambda>v. v - 1)) s)
     else if time = 0 then Some (Done (- RT_ETIMEOUT), s)
     else do {
       scheduler_available True s;
       t \<leftarrow> rt_thread_self s;
       let s = upd_thread t (error_update (\<lambda>_. RT_EOK)) s;
       s \<leftarrow> ipc_list_suspend (SemWait i) t (sem_flag (sems s i)) s;
       s \<leftarrow> start_timeout t time s;
       switch_out t () (\<lambda>s. Some (apfst Done (ipc_wait_resume t s))) s
     }
   }"

definition rt_sem_trytake :: "oid \<Rightarrow> kernel \<Rightarrow> ((rt_err_t, unit) call \<times> kernel) option" where
  "rt_sem_trytake i s = rt_sem_take i 0 s"

definition rt_sem_release :: "oid \<Rightarrow> kernel \<Rightarrow> (rt_err_t \<times> kernel) option" where
  "rt_sem_release i s = do {
     rt_assert (sem_obj (sems s i) \<noteq> ObjNull);
     if queue s (SemWait i) \<noteq> []
     then do {
       s \<leftarrow> ipc_list_resume (SemWait i) s;
       s \<leftarrow> rt_schedule s;
       Some (RT_EOK, s)
     }
     else if sem_value (sems s i) < RT_UINT16_MAX
     then Some (RT_EOK, upd_sem i (sem_value_update (\<lambda>v. v + 1)) s)
     else Some (- RT_EFULL, s)
   }"

definition rt_sem_control :: "oid \<Rightarrow> nat \<Rightarrow> u32 \<Rightarrow> kernel \<Rightarrow> (rt_err_t \<times> kernel) option" where
  "rt_sem_control i cmd arg s = do {
     rt_assert (sem_obj (sems s i) \<noteq> ObjNull);
     if cmd = RT_IPC_CMD_RESET
     then do {
       s \<leftarrow> ipc_list_resume_all (SemWait i) s;
       s \<leftarrow> rt_schedule (upd_sem i (sem_value_update (\<lambda>_. ucast arg)) s);
       Some (RT_EOK, s)
     }
     else Some (- RT_ERROR, s)
   }"

subsection \<open>The kernel invariant\<close>

lemma inv_wait_resume: "ipc_wait_resume t s = (r, s') \<Longrightarrow> kinv s \<Longrightarrow> kinv s'"
  by (auto simp: ipc_wait_resume_def split: if_splits)

text \<open>The common tail of the calls that block once.\<close>

lemma inv_block_once:
  assumes "ipc_list_suspend l t flag s = Some s1" "start_timeout t time s1 = Some s2"
    "switch_out t u (\<lambda>s. Some (apfst Done (f s))) s2 = Some (r, s')"
    "kinv s" "wait_list l" "\<And>s. kinv s \<Longrightarrow> kinv (snd (f s))"
  shows "kinv s'"
proof -
  note sus = inv_ipc_suspend [OF assms(1,4,5)]
  have "kinv s2" using inv_start_timeout [OF assms(2) sus(1,3,4)] .
  with assms(3) show ?thesis
    by (rule inv_switch_out) (use assms(6) in \<open>auto simp: apfst_def map_prod_def split: prod.splits dest: arg_cong [of _ _ snd]\<close>, metis snd_conv)
qed

lemma inv_sem_init: "rt_sem_init i v flag s = Some (r, s') \<Longrightarrow> kinv s \<Longrightarrow> kinv s'"
  by (auto simp: rt_sem_init_def ipc_object_init_def bindE dest: object_init_frame(1))

lemma inv_sem_detach: "rt_sem_detach i s = Some (r, s') \<Longrightarrow> kinv s \<Longrightarrow> kinv s'"
  by (auto simp: rt_sem_detach_def bindE dest: inv_resume_all)

lemma inv_sem_create: "rt_sem_create alloc v flag s = Some (r, s') \<Longrightarrow> kinv s \<Longrightarrow> kinv s'"
  by (auto simp: rt_sem_create_def ipc_object_init_def bindE split: option.splits)

lemma inv_sem_delete: "rt_sem_delete i s = Some (r, s') \<Longrightarrow> kinv s \<Longrightarrow> kinv s'"
  by (auto simp: rt_sem_delete_def bindE dest: inv_resume_all)

lemma inv_sem_take:
  assumes "rt_sem_take i time s = Some (r, s')" "kinv s"
  shows "kinv s'"
proof (cases "0 < sem_value (sems s i) \<or> time = 0")
  case True
  then show ?thesis using assms by (auto simp: rt_sem_take_def bindE split: if_splits)
next
  case False
  then obtain t s1 s2 where
    "ipc_list_suspend (SemWait i) t (sem_flag (sems s i)) (upd_thread t (error_update (\<lambda>_. RT_EOK)) s) = Some s1"
    "start_timeout t time s1 = Some s2"
    "switch_out t () (\<lambda>s. Some (apfst Done (ipc_wait_resume t s))) s2 = Some (r, s')"
    using assms(1) by (auto simp: rt_sem_take_def bindE Let_def)
  then show ?thesis
    by (rule inv_block_once) (use assms(2) in \<open>auto simp: ipc_wait_resume_def\<close>)
qed

lemma inv_sem_trytake: "rt_sem_trytake i s = Some (r, s') \<Longrightarrow> kinv s \<Longrightarrow> kinv s'"
  by (auto simp: rt_sem_trytake_def dest: inv_sem_take)

lemma inv_sem_release: "rt_sem_release i s = Some (r, s') \<Longrightarrow> kinv s \<Longrightarrow> kinv s'"
  by (auto simp: rt_sem_release_def bindE dest: inv_ipc_resume inv_schedule split: if_splits)

lemma inv_sem_control: "rt_sem_control i cmd arg s = Some (r, s') \<Longrightarrow> kinv s \<Longrightarrow> kinv s'"
  by (auto simp: rt_sem_control_def bindE dest!: inv_resume_all inv_schedule split: if_splits)

end
