(* ===== verification/Mutex.thy ===== *)
theory Mutex imports Semaphore
begin

text \<open>The mutexes of \<open>src/ipc.c\<close>: recursive, with priority inheritance.\<close>

definition new_mutex :: "rt_obj \<Rightarrow> rt_mutex" where
  "new_mutex obj = \<lparr>mtx_obj = obj, mtx_flag = RT_IPC_FLAG_PRIO, mtx_value = 1,
     original_priority = 0xff, hold = 0, owner = None\<rparr>"

definition rt_mutex_init :: "oid \<Rightarrow> u8 \<Rightarrow> kernel \<Rightarrow> (rt_err_t \<times> kernel) option" where
  "rt_mutex_init i flag s = do {
     s \<leftarrow> rt_object_init (mtx_obj (mutexes s i)) s;
     s \<leftarrow> ipc_object_init (MutexWait i) s;
     Some (RT_EOK, upd_mutex i (\<lambda>_. new_mutex ObjStatic) s)
   }"

definition rt_mutex_detach :: "oid \<Rightarrow> kernel \<Rightarrow> (rt_err_t \<times> kernel) option" where
  "rt_mutex_detach i s = do {
     rt_assert (mtx_obj (mutexes s i) = ObjStatic);
     s \<leftarrow> ipc_list_resume_all (MutexWait i) s;
     Some (RT_EOK, upd_mutex i (mtx_obj_update (\<lambda>_. ObjNull)) s)
   }"

definition rt_mutex_create :: "oid option \<Rightarrow> u8 \<Rightarrow> kernel \<Rightarrow> (oid option \<times> kernel) option" where
  "rt_mutex_create alloc flag s = do {
     not_in_interrupt s;
     (case alloc of
        None \<Rightarrow> Some (None, s)
      | Some i \<Rightarrow> do {
          s \<leftarrow> ipc_object_init (MutexWait i) s;
          Some (Some i, upd_mutex i (\<lambda>_. new_mutex ObjDynamic) s)
        })
   }"

definition rt_mutex_delete :: "oid \<Rightarrow> kernel \<Rightarrow> (rt_err_t \<times> kernel) option" where
  "rt_mutex_delete i s = do {
     rt_assert (mtx_obj (mutexes s i) = ObjDynamic);
     not_in_interrupt s;
     s \<leftarrow> ipc_list_resume_all (MutexWait i) s;
     Some (RT_EOK, upd_mutex i (mtx_obj_update (\<lambda>_. ObjNull)) s)
   }"

text \<open>Priority inheritance: the owner gets the priority of a more urgent waiter.\<close>

definition mutex_inherit :: "oid \<Rightarrow> tid \<Rightarrow> kernel \<Rightarrow> kernel option" where
  "mutex_inherit i t s = do {
     ow \<leftarrow> owner (mutexes s i);
     if current_priority (threads s t) < current_priority (threads s ow)
     then do {
       (_, s) \<leftarrow> rt_thread_control ow
                  (RT_THREAD_CTRL_CHANGE_PRIORITY (current_priority (threads s t))) s;
       Some s
     }
     else Some s
   }"

definition rt_mutex_take ::
    "oid \<Rightarrow> u32 \<Rightarrow> kernel \<Rightarrow> ((rt_err_t, unit) call \<times> kernel) option" where
  "rt_mutex_take i time s = do {
     scheduler_available True s;
     rt_assert (mtx_obj (mutexes s i) \<noteq> ObjNull);
     t \<leftarrow> rt_thread_self s;
     let s = upd_thread t (error_update (\<lambda>_. RT_EOK)) s;
     if owner (mutexes s i) = Some t
     then if hold (mutexes s i) < RT_UINT8_MAX
          then Some (Done RT_EOK, upd_mutex i (hold_update (\<lambda>h. h + 1)) s)
          else Some (Done (- RT_EFULL), s)
     else if 0 < mtx_value (mutexes s i)
     then let s = upd_mutex i (\<lambda>m. m\<lparr>mtx_value := mtx_value m - 1, owner := Some t,
                    original_priority := current_priority (threads s t)\<rparr>) s
          in if hold (mutexes s i) < RT_UINT8_MAX
             then Some (Done RT_EOK, upd_mutex i (hold_update (\<lambda>h. h + 1)) s)
             else Some (Done (- RT_EFULL), s)
     else if time = 0
     then Some (Done (- RT_ETIMEOUT), upd_thread t (error_update (\<lambda>_. - RT_ETIMEOUT)) s)
     else do {
       s \<leftarrow> mutex_inherit i t s;
       s \<leftarrow> ipc_list_suspend (MutexWait i) t (mtx_flag (mutexes s i)) s;
       s \<leftarrow> start_timeout t time s;
       switch_out t () (\<lambda>s. Some (apfst Done (ipc_wait_resume t s))) s
     }
   }"

definition rt_mutex_trytake :: "oid \<Rightarrow> kernel \<Rightarrow> ((rt_err_t, unit) call \<times> kernel) option" where
  "rt_mutex_trytake i s = rt_mutex_take i 0 s"

text \<open>The owner's own priority comes back when it lets go.\<close>

definition mutex_restore :: "oid \<Rightarrow> tid \<Rightarrow> kernel \<Rightarrow> kernel option" where
  "mutex_restore i t s =
     (if original_priority (mutexes s i) \<noteq> current_priority (threads s t)
      then do {
        (_, s) \<leftarrow> rt_thread_control t
                   (RT_THREAD_CTRL_CHANGE_PRIORITY (original_priority (mutexes s i))) s;
        Some s
      }
      else Some s)"

text \<open>The first waiter becomes the owner; the value stays zero.\<close>

definition mutex_hand_over :: "oid \<Rightarrow> tid \<Rightarrow> kernel \<Rightarrow> (rt_err_t \<times> kernel) option" where
  "mutex_hand_over i w s = do {
     let s = upd_mutex i (\<lambda>m. m\<lparr>owner := Some w,
               original_priority := current_priority (threads s w)\<rparr>) s;
     if hold (mutexes s i) < RT_UINT8_MAX
     then do {
       s \<leftarrow> ipc_list_resume (MutexWait i) (upd_mutex i (hold_update (\<lambda>h. h + 1)) s);
       s \<leftarrow> rt_schedule s;
       Some (RT_EOK, s)
     }
     else Some (- RT_EFULL, s)
   }"

definition rt_mutex_release :: "oid \<Rightarrow> kernel \<Rightarrow> (rt_err_t \<times> kernel) option" where
  "rt_mutex_release i s = do {
     rt_assert (mtx_obj (mutexes s i) \<noteq> ObjNull);
     in_thread_context s;
     t \<leftarrow> rt_thread_self s;
     if owner (mutexes s i) \<noteq> Some t
     then Some (- RT_ERROR, upd_thread t (error_update (\<lambda>_. - RT_ERROR)) s)
     else do {
       let s = upd_mutex i (hold_update (\<lambda>h. h - 1)) s;
       if hold (mutexes s i) \<noteq> 0 then Some (RT_EOK, s)
       else do {
         s \<leftarrow> mutex_restore i t s;
         (case queue s (MutexWait i) of
            w # _ \<Rightarrow> mutex_hand_over i w s
          | [] \<Rightarrow>
              if mtx_value (mutexes s i) < RT_UINT16_MAX
              then Some (RT_EOK, upd_mutex i (\<lambda>m. m\<lparr>mtx_value := mtx_value m + 1,
                     owner := None, original_priority := 0xff\<rparr>) s)
              else Some (- RT_EFULL, s))
       }
     }
   }"

definition rt_mutex_control :: "oid \<Rightarrow> nat \<Rightarrow> kernel \<Rightarrow> (rt_err_t \<times> kernel) option" where
  "rt_mutex_control i cmd s = do {
     rt_assert (mtx_obj (mutexes s i) \<noteq> ObjNull);
     Some (- RT_ERROR, s)
   }"

subsection \<open>The kernel invariant\<close>

lemma inv_mutex_init: "rt_mutex_init i flag s = Some (r, s') \<Longrightarrow> kinv s \<Longrightarrow> kinv s'"
  by (auto simp: rt_mutex_init_def ipc_object_init_def bindE dest: object_init_frame(1))

lemma inv_mutex_detach: "rt_mutex_detach i s = Some (r, s') \<Longrightarrow> kinv s \<Longrightarrow> kinv s'"
  by (auto simp: rt_mutex_detach_def bindE dest: inv_resume_all)

lemma inv_mutex_create: "rt_mutex_create alloc flag s = Some (r, s') \<Longrightarrow> kinv s \<Longrightarrow> kinv s'"
  by (auto simp: rt_mutex_create_def ipc_object_init_def bindE split: option.splits)

lemma inv_mutex_delete: "rt_mutex_delete i s = Some (r, s') \<Longrightarrow> kinv s \<Longrightarrow> kinv s'"
  by (auto simp: rt_mutex_delete_def bindE dest: inv_resume_all)

lemma inv_mutex_inherit: "mutex_inherit i t s = Some s' \<Longrightarrow> kinv s \<Longrightarrow> kinv s'"
  by (auto simp: mutex_inherit_def bindE dest: inv_control split: if_splits)

lemma inv_mutex_restore: "mutex_restore i t s = Some s' \<Longrightarrow> kinv s \<Longrightarrow> kinv s'"
  by (auto simp: mutex_restore_def bindE dest: inv_control split: if_splits)

lemma inv_mutex_hand_over: "mutex_hand_over i w s = Some (r, s') \<Longrightarrow> kinv s \<Longrightarrow> kinv s'"
  by (auto simp: mutex_hand_over_def bindE Let_def dest!: inv_ipc_resume inv_schedule split: if_splits)

lemma inv_mutex_take:
  assumes "rt_mutex_take i time s = Some (r, s')" "kinv s"
  shows "kinv s'"
proof -
  obtain t where t: "rt_current_thread s = Some t"
    using assms(1) by (auto simp: rt_mutex_take_def rt_thread_self_def bindE)
  show ?thesis
  proof (cases "owner (mutexes s i) = Some t \<or> 0 < mtx_value (mutexes s i) \<or> time = 0")
    case True
    then show ?thesis
      using assms t by (auto simp: rt_mutex_take_def rt_thread_self_def bindE Let_def split: if_splits)
  next
    case False
    then obtain s0 s1 s2 where
      "mutex_inherit i t (upd_thread t (error_update (\<lambda>_. RT_EOK)) s) = Some s0"
      "ipc_list_suspend (MutexWait i) t (mtx_flag (mutexes s0 i)) s0 = Some s1"
      "start_timeout t time s1 = Some s2"
      "switch_out t () (\<lambda>s. Some (apfst Done (ipc_wait_resume t s))) s2 = Some (r, s')"
      using assms(1) t by (auto simp: rt_mutex_take_def rt_thread_self_def bindE Let_def)
    moreover from this(1) have "kinv s0" by (rule inv_mutex_inherit) (simp add: assms(2))
    ultimately show ?thesis
      by (intro inv_block_once [of "MutexWait i" t _ s0 s1 time s2 "()" "ipc_wait_resume t" r s'])
        (simp_all add: ipc_wait_resume_def)
  qed
qed

lemma inv_mutex_trytake: "rt_mutex_trytake i s = Some (r, s') \<Longrightarrow> kinv s \<Longrightarrow> kinv s'"
  by (auto simp: rt_mutex_trytake_def dest: inv_mutex_take)

lemma inv_mutex_release:
  assumes "rt_mutex_release i s = Some (r, s')" "kinv s"
  shows "kinv s'"
proof -
  obtain t where t: "rt_current_thread s = Some t"
    using assms(1) by (auto simp: rt_mutex_release_def rt_thread_self_def bindE)
  let ?s = "upd_mutex i (hold_update (\<lambda>h. h - 1)) s"
  show ?thesis
  proof (cases "owner (mutexes s i) = Some t \<and> hold (mutexes ?s i) = 0")
    case False
    then show ?thesis
      using assms t by (auto simp: rt_mutex_release_def rt_thread_self_def bindE Let_def split: if_splits)
  next
    case True
    then obtain s1 where s1: "mutex_restore i t ?s = Some s1"
      "(case queue s1 (MutexWait i) of
          w # _ \<Rightarrow> mutex_hand_over i w s1
        | [] \<Rightarrow> if mtx_value (mutexes s1 i) < RT_UINT16_MAX
               then Some (RT_EOK, upd_mutex i (\<lambda>m. m\<lparr>mtx_value := mtx_value m + 1,
                     owner := None, original_priority := 0xff\<rparr>) s1)
               else Some (- RT_EFULL, s1)) = Some (r, s')"
      using assms(1) t by (auto simp: rt_mutex_release_def rt_thread_self_def bindE Let_def)
    have "kinv s1" by (rule inv_mutex_restore [OF s1(1)]) (simp add: assms(2))
    with s1(2) show ?thesis
      by (cases "queue s1 (MutexWait i)") (auto dest: inv_mutex_hand_over split: if_splits)
  qed
qed

lemma inv_mutex_control: "rt_mutex_control i cmd s = Some (r, s') \<Longrightarrow> kinv s \<Longrightarrow> kinv s'"
  by (auto simp: rt_mutex_control_def bindE)

end
