(* ===== verification/Event.thy ===== *)
theory Event imports Semaphore
begin

text \<open>The event sets of \<open>src/ipc.c\<close>.\<close>

definition RT_EVENT_FLAG_AND :: u8 where "RT_EVENT_FLAG_AND = 1"
definition RT_EVENT_FLAG_OR :: u8 where "RT_EVENT_FLAG_OR = 2"
definition RT_EVENT_FLAG_CLEAR :: u8 where "RT_EVENT_FLAG_CLEAR = 4"

definition rt_event_init :: "oid \<Rightarrow> u8 \<Rightarrow> kernel \<Rightarrow> (rt_err_t \<times> kernel) option" where
  "rt_event_init i flag s = do {
     ipc_flag_ok flag;
     s \<leftarrow> rt_object_init (ev_obj (events s i)) s;
     s \<leftarrow> ipc_object_init (EventWait i) s;
     Some (RT_EOK, upd_event i (\<lambda>_. \<lparr>ev_obj = ObjStatic, ev_flag = flag, ev_set = 0\<rparr>) s)
   }"

definition rt_event_detach :: "oid \<Rightarrow> kernel \<Rightarrow> (rt_err_t \<times> kernel) option" where
  "rt_event_detach i s = do {
     rt_assert (ev_obj (events s i) = ObjStatic);
     s \<leftarrow> ipc_list_resume_all (EventWait i) s;
     Some (RT_EOK, upd_event i (ev_obj_update (\<lambda>_. ObjNull)) s)
   }"

definition rt_event_create :: "oid option \<Rightarrow> u8 \<Rightarrow> kernel \<Rightarrow> (oid option \<times> kernel) option" where
  "rt_event_create alloc flag s = do {
     ipc_flag_ok flag;
     not_in_interrupt s;
     (case alloc of
        None \<Rightarrow> Some (None, s)
      | Some i \<Rightarrow> do {
          s \<leftarrow> ipc_object_init (EventWait i) s;
          Some (Some i, upd_event i (\<lambda>_. \<lparr>ev_obj = ObjDynamic, ev_flag = flag, ev_set = 0\<rparr>) s)
        })
   }"

definition rt_event_delete :: "oid \<Rightarrow> kernel \<Rightarrow> (rt_err_t \<times> kernel) option" where
  "rt_event_delete i s = do {
     rt_assert (ev_obj (events s i) = ObjDynamic);
     not_in_interrupt s;
     s \<leftarrow> ipc_list_resume_all (EventWait i) s;
     Some (RT_EOK, upd_event i (ev_obj_update (\<lambda>_. ObjNull)) s)
   }"

text \<open>
  Whether the set \<open>ev\<close> satisfies what a thread waits for; \<open>None\<close> when the thread's options name neither
  combination.
\<close>

definition event_match :: "rt_thread \<Rightarrow> u32 \<Rightarrow> bool option" where
  "event_match th ev =
     (if event_info th AND RT_EVENT_FLAG_AND \<noteq> 0 then Some (event_set th AND ev = event_set th)
      else if event_info th AND RT_EVENT_FLAG_OR \<noteq> 0 then Some (event_set th AND ev \<noteq> 0)
      else None)"

text \<open>Handing the events over: the thread learns which ones came, and may consume them.\<close>

definition event_deliver :: "oid \<Rightarrow> tid \<Rightarrow> kernel \<Rightarrow> kernel option" where
  "event_deliver i t s = do {
     let s = (if event_info (threads s t) AND RT_EVENT_FLAG_AND \<noteq> 0 then s
              else upd_thread t (event_set_update (\<lambda>v. v AND ev_set (events s i))) s);
     let s = (if event_info (threads s t) AND RT_EVENT_FLAG_CLEAR \<noteq> 0
              then upd_event i (ev_set_update (\<lambda>v. v AND NOT (event_set (threads s t)))) s
              else s);
     (_, s) \<leftarrow> rt_thread_resume t s;
     Some s
   }"

text \<open>
  The walk of \<open>rt_event_send\<close> over the suspended threads. The next node is read before a thread is
  resumed, so the walk visits the list as it was at the start. The result is \<open>need_schedule\<close>, or
  \<open>None\<close> for the early return with \<open>-RT_EINVAL\<close>.
\<close>

fun event_wake :: "oid \<Rightarrow> tid list \<Rightarrow> bool \<Rightarrow> kernel \<Rightarrow> (bool option \<times> kernel) option" where
  "event_wake i [] need s = Some (Some need, s)"
| "event_wake i (t # ts) need s =
     (case event_match (threads s t) (ev_set (events s i)) of
        None \<Rightarrow> Some (None, s)
      | Some hit \<Rightarrow>
          if hit then do { s \<leftarrow> event_deliver i t s; event_wake i ts True s }
          else event_wake i ts need s)"

definition rt_event_send :: "oid \<Rightarrow> u32 \<Rightarrow> kernel \<Rightarrow> (rt_err_t \<times> kernel) option" where
  "rt_event_send i bits s = do {
     rt_assert (ev_obj (events s i) \<noteq> ObjNull);
     if bits = 0 then Some (- RT_ERROR, s)
     else do {
       let s = upd_event i (ev_set_update (\<lambda>v. v OR bits)) s;
       (r, s) \<leftarrow> event_wake i (queue s (EventWait i)) False s;
       (case r of
          None \<Rightarrow> Some (- RT_EINVAL, s)
        | Some need_schedule \<Rightarrow> do {
            s \<leftarrow> (if need_schedule then rt_schedule s else Some s);
            Some (RT_EOK, s)
          })
     }
   }"

text \<open>
  The second half of \<open>rt_event_recv\<close>: the error of the thread and, without one, the value stored at
  \<open>recved\<close>.
\<close>

definition event_recv_resume :: "tid \<Rightarrow> kernel \<Rightarrow> (rt_err_t \<times> u32 option) \<times> kernel" where
  "event_recv_resume t s =
     (if error (threads s t) \<noteq> RT_EOK then ((error (threads s t), None), s)
      else ((error (threads s t), Some (event_set (threads s t))), s))"

definition rt_event_recv ::
    "oid \<Rightarrow> u32 \<Rightarrow> u8 \<Rightarrow> u32 \<Rightarrow> kernel \<Rightarrow> ((rt_err_t \<times> u32 option, unit) call \<times> kernel) option" where
  "rt_event_recv i bits option time s = do {
     rt_assert (ev_obj (events s i) \<noteq> ObjNull);
     scheduler_available True s;
     if bits = 0 then Some (Done (- RT_ERROR, None), s)
     else do {
       t \<leftarrow> rt_thread_self s;
       let s = upd_thread t (error_update (\<lambda>_. RT_EOK)) s;
       let ev = ev_set (events s i);
       rt_assert (option AND (RT_EVENT_FLAG_AND OR RT_EVENT_FLAG_OR) \<noteq> 0);
       if (if option AND RT_EVENT_FLAG_AND \<noteq> 0 then ev AND bits = bits else ev AND bits \<noteq> 0)
       then
         let s = upd_thread t (\<lambda>h. h\<lparr>event_set := ev AND bits, event_info := option\<rparr>) s;
             s = (if option AND RT_EVENT_FLAG_CLEAR \<noteq> 0
                  then upd_event i (ev_set_update (\<lambda>v. v AND NOT bits)) s else s)
         in Some (Done (error (threads s t), Some (ev AND bits)), s)
       else if time = 0
       then Some (Done (- RT_ETIMEOUT, None), upd_thread t (error_update (\<lambda>_. - RT_ETIMEOUT)) s)
       else do {
         let s = upd_thread t (\<lambda>h. h\<lparr>event_set := bits, event_info := option\<rparr>) s;
         s \<leftarrow> ipc_list_suspend (EventWait i) t (ev_flag (events s i)) s;
         s \<leftarrow> start_timeout t time s;
         switch_out t () (\<lambda>s. Some (apfst Done (event_recv_resume t s))) s
       }
     }
   }"

definition rt_event_control :: "oid \<Rightarrow> nat \<Rightarrow> kernel \<Rightarrow> (rt_err_t \<times> kernel) option" where
  "rt_event_control i cmd s = do {
     rt_assert (ev_obj (events s i) \<noteq> ObjNull);
     if cmd = RT_IPC_CMD_RESET
     then do {
       s \<leftarrow> ipc_list_resume_all (EventWait i) s;
       s \<leftarrow> rt_schedule (upd_event i (ev_set_update (\<lambda>_. 0)) s);
       Some (RT_EOK, s)
     }
     else Some (- RT_ERROR, s)
   }"

subsection \<open>The kernel invariant\<close>

lemma inv_event_init: "rt_event_init i flag s = Some (r, s') \<Longrightarrow> kinv s \<Longrightarrow> kinv s'"
  by (auto simp: rt_event_init_def ipc_object_init_def bindE dest: object_init_frame(1))

lemma inv_event_detach: "rt_event_detach i s = Some (r, s') \<Longrightarrow> kinv s \<Longrightarrow> kinv s'"
  by (auto simp: rt_event_detach_def bindE dest: inv_resume_all)

lemma inv_event_create: "rt_event_create alloc flag s = Some (r, s') \<Longrightarrow> kinv s \<Longrightarrow> kinv s'"
  by (auto simp: rt_event_create_def ipc_object_init_def bindE split: option.splits)

lemma inv_event_delete: "rt_event_delete i s = Some (r, s') \<Longrightarrow> kinv s \<Longrightarrow> kinv s'"
  by (auto simp: rt_event_delete_def bindE dest: inv_resume_all)

lemma inv_event_deliver: "event_deliver i t s = Some s' \<Longrightarrow> kinv s \<Longrightarrow> kinv s'"
  by (auto simp: event_deliver_def bindE Let_def dest!: inv_resume)

lemma inv_event_wake: "event_wake i ts need s = Some (r, s') \<Longrightarrow> kinv s \<Longrightarrow> kinv s'"
proof (induction ts arbitrary: need s)
  case (Cons t ts)
  show ?case
  proof (cases "event_match (threads s t) (ev_set (events s i)) = Some True")
    case True
    then obtain s1 where "event_deliver i t s = Some s1" "event_wake i ts True s1 = Some (r, s')"
      using Cons.prems(1) by (auto simp: bindE)
    then show ?thesis using Cons.IH inv_event_deliver Cons.prems(2) by blast
  next
    case False
    then have "s' = s \<or> event_wake i ts need s = Some (r, s')"
      using Cons.prems(1) by (auto split: option.splits)
    then show ?thesis using Cons.IH Cons.prems(2) by blast
  qed
qed simp

lemma inv_event_send:
  assumes "rt_event_send i v s = Some (r, s')" "kinv s"
  shows "kinv s'"
proof (cases "v = 0")
  case True
  then show ?thesis using assms by (auto simp: rt_event_send_def bindE)
next
  case False
  let ?s = "upd_event i (ev_set_update (\<lambda>w. w OR v)) s"
  obtain n s1 where s1: "event_wake i (queue s (EventWait i)) False ?s = Some (n, s1)"
    "(case n of None \<Rightarrow> Some (- RT_EINVAL, s1)
      | Some need \<Rightarrow> do { s \<leftarrow> (if need then rt_schedule s1 else Some s1); Some (RT_EOK, s) }) = Some (r, s')"
    using assms(1) False by (auto simp: rt_event_send_def bindE)
  then have "s' = s1 \<or> rt_schedule s1 = Some s'"
    by (cases n) (auto simp: bindE split: if_splits)
  moreover have "kinv s1" using inv_event_wake [OF s1(1)] assms(2) by simp
  ultimately show ?thesis using inv_schedule by blast
qed

lemma inv_event_recv:
  assumes "rt_event_recv i v opt time s = Some (r, s')" "kinv s"
  shows "kinv s'"
proof (cases "v = 0 \<or> time = 0 \<or>
    (if opt AND RT_EVENT_FLAG_AND \<noteq> 0 then ev_set (events s i) AND v = v else ev_set (events s i) AND v \<noteq> 0)")
  case True
  then show ?thesis
    using assms by (auto simp: rt_event_recv_def bindE Let_def split: if_splits)
next
  case False
  then obtain t s1 s2 where
    "ipc_list_suspend (EventWait i) t (ev_flag (events s i))
       (upd_thread t (\<lambda>h. h\<lparr>event_set := v, event_info := opt\<rparr>)
         (upd_thread t (error_update (\<lambda>_. RT_EOK)) s)) = Some s1"
    "start_timeout t time s1 = Some s2"
    "switch_out t () (\<lambda>s. Some (apfst Done (event_recv_resume t s))) s2 = Some (r, s')"
    using assms(1) by (auto simp: rt_event_recv_def bindE Let_def split: if_splits)
  then show ?thesis
    by (rule inv_block_once) (use assms(2) in \<open>auto simp: event_recv_resume_def\<close>)
qed

lemma inv_event_control: "rt_event_control i cmd s = Some (r, s') \<Longrightarrow> kinv s \<Longrightarrow> kinv s'"
  by (auto simp: rt_event_control_def bindE dest!: inv_resume_all inv_schedule split: if_splits)

end
