(* ===== verification/Mailbox.thy ===== *)
theory Mailbox imports Semaphore Fifo
begin

text \<open>
  The mailboxes of \<open>src/ipc.c\<close>: a ring of words with a list of waiting receivers and a list of
  waiting senders.

  A blocked call keeps two locals: what is left of its timeout, and the tick at which it fell
  asleep.
\<close>

definition new_mb :: "rt_obj \<Rightarrow> u8 \<Rightarrow> u32 list \<Rightarrow> u16 \<Rightarrow> rt_mailbox" where
  "new_mb obj flag pool sz = \<lparr>mb_obj = obj, mb_flag = flag, msg_pool = pool, mb_size = sz,
     mb_entry = 0, in_offset = 0, out_offset = 0\<rparr>"

text \<open>\<open>rt_mb_init\<close>: \<open>pool\<close> is the caller's memory; the size is narrowed to 16 bits.\<close>

definition rt_mb_init ::
    "oid \<Rightarrow> u32 list \<Rightarrow> u32 \<Rightarrow> u8 \<Rightarrow> kernel \<Rightarrow> (rt_err_t \<times> kernel) option" where
  "rt_mb_init i pool sz flag s = do {
     ipc_flag_ok flag;
     s \<leftarrow> rt_object_init (mb_obj (mailboxes s i)) s;
     s \<leftarrow> ipc_object_init (MbWait i) s;
     s \<leftarrow> ipc_object_init (MbSender i) s;
     Some (RT_EOK, upd_mb i (\<lambda>_. new_mb ObjStatic flag pool (ucast sz)) s)
   }"

definition rt_mb_detach :: "oid \<Rightarrow> kernel \<Rightarrow> (rt_err_t \<times> kernel) option" where
  "rt_mb_detach i s = do {
     rt_assert (mb_obj (mailboxes s i) = ObjStatic);
     s \<leftarrow> ipc_list_resume_all (MbWait i) s;
     s \<leftarrow> ipc_list_resume_all (MbSender i) s;
     Some (RT_EOK, upd_mb i (mb_obj_update (\<lambda>_. ObjNull)) s)
   }"

text \<open>
  \<open>rt_mb_create\<close>: \<open>alloc\<close> answers \<open>rt_object_allocate\<close>, \<open>mem\<close> answers \<open>RT_KERNEL_MALLOC\<close> for the pool: the
  words of the block, or \<open>None\<close> for a null pointer.
\<close>

definition rt_mb_create ::
    "oid option \<Rightarrow> u32 list option \<Rightarrow> u32 \<Rightarrow> u8 \<Rightarrow> kernel \<Rightarrow> (oid option \<times> kernel) option" where
  "rt_mb_create alloc mem sz flag s = do {
     ipc_flag_ok flag;
     not_in_interrupt s;
     (case alloc of
        None \<Rightarrow> Some (None, s)
      | Some i \<Rightarrow> do {
          s \<leftarrow> ipc_object_init (MbWait i) s;
          (case mem of
             None \<Rightarrow> Some (None, upd_mb i (mb_obj_update (\<lambda>_. ObjNull)) s)
           | Some pool \<Rightarrow> do {
               s \<leftarrow> ipc_object_init (MbSender i) s;
               Some (Some i, upd_mb i (\<lambda>_. new_mb ObjDynamic flag pool (ucast sz)) s)
             })
        })
   }"

definition rt_mb_delete :: "oid \<Rightarrow> kernel \<Rightarrow> (rt_err_t \<times> kernel) option" where
  "rt_mb_delete i s = do {
     rt_assert (mb_obj (mailboxes s i) = ObjDynamic);
     not_in_interrupt s;
     s \<leftarrow> ipc_list_resume_all (MbWait i) s;
     s \<leftarrow> ipc_list_resume_all (MbSender i) s;
     Some (RT_EOK, upd_mb i (mb_obj_update (\<lambda>_. ObjNull)) s)
   }"

subsection \<open>The ring\<close>

text \<open>
  Storing a word: the entry counter of a full 16-bit range is not advanced, and the call then
  reports a full mailbox after the word has been stored.
\<close>

definition mb_put :: "u32 \<Rightarrow> rt_mailbox \<Rightarrow> (bool \<times> rt_mailbox) option" where
  "mb_put v m = do {
     pool \<leftarrow> mset1 (msg_pool m) (uint (in_offset m)) v;
     let m = m\<lparr>msg_pool := pool, in_offset := in_offset m + 1\<rparr>;
     let m = (if mb_size m \<le> in_offset m then m\<lparr>in_offset := 0\<rparr> else m);
     Some (if mb_entry m < RT_UINT16_MAX then (True, m\<lparr>mb_entry := mb_entry m + 1\<rparr>)
           else (False, m))
   }"

definition mb_put_front :: "u32 \<Rightarrow> rt_mailbox \<Rightarrow> rt_mailbox option" where
  "mb_put_front v m = do {
     let m = (if 0 < out_offset m then m\<lparr>out_offset := out_offset m - 1\<rparr>
              else m\<lparr>out_offset := mb_size m - 1\<rparr>);
     pool \<leftarrow> mset1 (msg_pool m) (uint (out_offset m)) v;
     Some (m\<lparr>msg_pool := pool, mb_entry := mb_entry m + 1\<rparr>)
   }"

definition mb_get :: "rt_mailbox \<Rightarrow> (u32 \<times> rt_mailbox) option" where
  "mb_get m = do {
     v \<leftarrow> mget (msg_pool m) (uint (out_offset m));
     let m = m\<lparr>out_offset := out_offset m + 1\<rparr>;
     let m = (if mb_size m \<le> out_offset m then m\<lparr>out_offset := 0\<rparr> else m);
     Some (v, if 0 < mb_entry m then m\<lparr>mb_entry := mb_entry m - 1\<rparr> else m)
   }"

subsection \<open>Sending and receiving\<close>

definition mb_send_loop ::
    "oid \<Rightarrow> tid option \<Rightarrow> u32 \<Rightarrow> u32 \<Rightarrow> kernel \<Rightarrow> ((rt_err_t, u32 \<times> u32) call \<times> kernel) option" where
  "mb_send_loop i self v timeout s =
     (if mb_entry (mailboxes s i) = mb_size (mailboxes s i)
      then do {
        t \<leftarrow> self;
        let s = upd_thread t (error_update (\<lambda>_. RT_EOK)) s;
        if timeout = 0 then Some (Done (- RT_EFULL), s)
        else ipc_loop_block (MbSender i) t (mb_flag (mailboxes s i)) timeout s
      }
      else do {
        (counted, m) \<leftarrow> mb_put v (mailboxes s i);
        let s = upd_mb i (\<lambda>_. m) s;
        if \<not> counted then Some (Done (- RT_EFULL), s)
        else do {
          s \<leftarrow> ipc_wake_one (MbWait i) s;
          Some (Done RT_EOK, s)
        }
      })"

definition rt_mb_send_wait ::
    "oid \<Rightarrow> u32 \<Rightarrow> u32 \<Rightarrow> kernel \<Rightarrow> ((rt_err_t, u32 \<times> u32) call \<times> kernel) option" where
  "rt_mb_send_wait i v timeout s = do {
     rt_assert (mb_obj (mailboxes s i) \<noteq> ObjNull);
     scheduler_available (timeout \<noteq> 0) s;
     if mb_entry (mailboxes s i) = mb_size (mailboxes s i) \<and> timeout = 0
     then Some (Done (- RT_EFULL), s)
     else mb_send_loop i (rt_thread_self s) v timeout s
   }"

definition mb_send_resume ::
    "oid \<Rightarrow> tid \<Rightarrow> u32 \<Rightarrow> u32 \<times> u32 \<Rightarrow> kernel \<Rightarrow> ((rt_err_t, u32 \<times> u32) call \<times> kernel) option" where
  "mb_send_resume i t v l s =
     (if error (threads s t) \<noteq> RT_EOK then Some (Done (error (threads s t)), s)
      else mb_send_loop i (Some t) v (remaining_timeout (fst l) (snd l) s) s)"

definition rt_mb_send :: "oid \<Rightarrow> u32 \<Rightarrow> kernel \<Rightarrow> ((rt_err_t, u32 \<times> u32) call \<times> kernel) option" where
  "rt_mb_send i v s = rt_mb_send_wait i v 0 s"

definition rt_mb_urgent :: "oid \<Rightarrow> u32 \<Rightarrow> kernel \<Rightarrow> (rt_err_t \<times> kernel) option" where
  "rt_mb_urgent i v s = do {
     rt_assert (mb_obj (mailboxes s i) \<noteq> ObjNull);
     if mb_entry (mailboxes s i) = mb_size (mailboxes s i) then Some (- RT_EFULL, s)
     else do {
       m \<leftarrow> mb_put_front v (mailboxes s i);
       s \<leftarrow> ipc_wake_one (MbWait i) (upd_mb i (\<lambda>_. m) s);
       Some (RT_EOK, s)
     }
   }"

text \<open>A receiver returns the error and, when it received one, the word stored at \<open>*value\<close>.\<close>

definition mb_recv_loop ::
    "oid \<Rightarrow> tid option \<Rightarrow> u32 \<Rightarrow> kernel \<Rightarrow> ((rt_err_t \<times> u32 option, u32 \<times> u32) call \<times> kernel) option" where
  "mb_recv_loop i self timeout s =
     (if mb_entry (mailboxes s i) = 0
      then do {
        t \<leftarrow> self;
        let s = upd_thread t (error_update (\<lambda>_. RT_EOK)) s;
        if timeout = 0
        then Some (Done (- RT_ETIMEOUT, None), upd_thread t (error_update (\<lambda>_. - RT_ETIMEOUT)) s)
        else ipc_loop_block (MbWait i) t (mb_flag (mailboxes s i)) timeout s
      }
      else do {
        (v, m) \<leftarrow> mb_get (mailboxes s i);
        s \<leftarrow> ipc_wake_one (MbSender i) (upd_mb i (\<lambda>_. m) s);
        Some (Done (RT_EOK, Some v), s)
      })"

definition rt_mb_recv ::
    "oid \<Rightarrow> u32 \<Rightarrow> kernel \<Rightarrow> ((rt_err_t \<times> u32 option, u32 \<times> u32) call \<times> kernel) option" where
  "rt_mb_recv i timeout s = do {
     rt_assert (mb_obj (mailboxes s i) \<noteq> ObjNull);
     scheduler_available (timeout \<noteq> 0) s;
     if mb_entry (mailboxes s i) = 0 \<and> timeout = 0 then Some (Done (- RT_ETIMEOUT, None), s)
     else mb_recv_loop i (rt_thread_self s) timeout s
   }"

definition mb_recv_resume ::
    "oid \<Rightarrow> tid \<Rightarrow> u32 \<times> u32 \<Rightarrow> kernel \<Rightarrow> ((rt_err_t \<times> u32 option, u32 \<times> u32) call \<times> kernel) option" where
  "mb_recv_resume i t l s =
     (if error (threads s t) \<noteq> RT_EOK then Some (Done (error (threads s t), None), s)
      else mb_recv_loop i (Some t) (remaining_timeout (fst l) (snd l) s) s)"

definition rt_mb_control :: "oid \<Rightarrow> nat \<Rightarrow> kernel \<Rightarrow> (rt_err_t \<times> kernel) option" where
  "rt_mb_control i cmd s = do {
     rt_assert (mb_obj (mailboxes s i) \<noteq> ObjNull);
     if cmd = RT_IPC_CMD_RESET
     then do {
       s \<leftarrow> ipc_list_resume_all (MbWait i) s;
       s \<leftarrow> ipc_list_resume_all (MbSender i) s;
       s \<leftarrow> rt_schedule (upd_mb i (\<lambda>m. m\<lparr>mb_entry := 0, in_offset := 0, out_offset := 0\<rparr>) s);
       Some (RT_EOK, s)
     }
     else Some (- RT_ERROR, s)
   }"

subsection \<open>The kernel invariant\<close>

lemma inv_mb_init: "rt_mb_init i pool sz flag s = Some (r, s') \<Longrightarrow> kinv s \<Longrightarrow> kinv s'"
  by (auto simp: rt_mb_init_def ipc_object_init_def bindE dest: object_init_frame(1))

lemma inv_mb_detach: "rt_mb_detach i s = Some (r, s') \<Longrightarrow> kinv s \<Longrightarrow> kinv s'"
  by (auto simp: rt_mb_detach_def bindE dest!: inv_resume_all)

lemma inv_mb_create: "rt_mb_create alloc mem sz flag s = Some (r, s') \<Longrightarrow> kinv s \<Longrightarrow> kinv s'"
  by (auto simp: rt_mb_create_def ipc_object_init_def bindE split: option.splits)

lemma inv_mb_delete: "rt_mb_delete i s = Some (r, s') \<Longrightarrow> kinv s \<Longrightarrow> kinv s'"
  by (auto simp: rt_mb_delete_def bindE dest!: inv_resume_all)

lemma inv_mb_send_loop:
  assumes "mb_send_loop i self v timeout s = Some (r, s')" "kinv s"
  shows "kinv s'"
proof (cases "mb_entry (mailboxes s i) = mb_size (mailboxes s i)")
  case True
  then obtain t where "s' = upd_thread t (error_update (\<lambda>_. RT_EOK)) s \<or>
      ipc_loop_block (MbSender i) t (mb_flag (mailboxes s i)) timeout
        (upd_thread t (error_update (\<lambda>_. RT_EOK)) s) = Some (r, s')"
    using assms(1) by (auto simp: mb_send_loop_def bindE Let_def split: if_splits)
  then show ?thesis using assms(2) inv_loop_block by fastforce
next
  case False
  then obtain m where "s' = upd_mb i (\<lambda>_. m) s \<or> ipc_wake_one (MbWait i) (upd_mb i (\<lambda>_. m) s) = Some s'"
    using assms(1) by (auto simp: mb_send_loop_def bindE Let_def split: if_splits)
  then show ?thesis using assms(2) inv_wake_one by fastforce
qed

lemma inv_mb_send_wait: "rt_mb_send_wait i v timeout s = Some (r, s') \<Longrightarrow> kinv s \<Longrightarrow> kinv s'"
  by (auto simp: rt_mb_send_wait_def bindE dest: inv_mb_send_loop split: if_splits)

lemma inv_mb_send_resume: "mb_send_resume i t v l s = Some (r, s') \<Longrightarrow> kinv s \<Longrightarrow> kinv s'"
  by (auto simp: mb_send_resume_def dest: inv_mb_send_loop split: if_splits)

lemma inv_mb_send: "rt_mb_send i v s = Some (r, s') \<Longrightarrow> kinv s \<Longrightarrow> kinv s'"
  by (auto simp: rt_mb_send_def dest: inv_mb_send_wait)

lemma inv_mb_urgent:
  assumes "rt_mb_urgent i v s = Some (r, s')" "kinv s"
  shows "kinv s'"
proof -
  obtain m where "s' = s \<or> ipc_wake_one (MbWait i) (upd_mb i (\<lambda>_. m) s) = Some s'"
    using assms(1) by (auto simp: rt_mb_urgent_def bindE Let_def split: if_splits)
  then show ?thesis using assms(2) inv_wake_one by fastforce
qed

lemma inv_mb_recv_loop:
  assumes "mb_recv_loop i self timeout s = Some (r, s')" "kinv s"
  shows "kinv s'"
proof (cases "mb_entry (mailboxes s i) = 0")
  case True
  then obtain t where "s' = upd_thread t (error_update (\<lambda>_. - RT_ETIMEOUT)) (upd_thread t (error_update (\<lambda>_. RT_EOK)) s) \<or>
      ipc_loop_block (MbWait i) t (mb_flag (mailboxes s i)) timeout
        (upd_thread t (error_update (\<lambda>_. RT_EOK)) s) = Some (r, s')"
    using assms(1) by (auto simp: mb_recv_loop_def bindE Let_def split: if_splits)
  then show ?thesis using assms(2) inv_loop_block by fastforce
next
  case False
  then obtain m where "ipc_wake_one (MbSender i) (upd_mb i (\<lambda>_. m) s) = Some s'"
    using assms(1) by (auto simp: mb_recv_loop_def bindE Let_def)
  then show ?thesis using assms(2) inv_wake_one by fastforce
qed

lemma inv_mb_recv: "rt_mb_recv i timeout s = Some (r, s') \<Longrightarrow> kinv s \<Longrightarrow> kinv s'"
  by (auto simp: rt_mb_recv_def bindE dest: inv_mb_recv_loop split: if_splits)

lemma inv_mb_recv_resume: "mb_recv_resume i t l s = Some (r, s') \<Longrightarrow> kinv s \<Longrightarrow> kinv s'"
  by (auto simp: mb_recv_resume_def dest: inv_mb_recv_loop split: if_splits)

lemma inv_mb_control:
  assumes "rt_mb_control i cmd s = Some (r, s')" "kinv s"
  shows "kinv s'"
proof (cases "cmd = RT_IPC_CMD_RESET")
  case False
  then show ?thesis using assms by (auto simp: rt_mb_control_def bindE)
next
  case True
  then obtain s1 s2 where "ipc_list_resume_all (MbWait i) s = Some s1"
    "ipc_list_resume_all (MbSender i) s1 = Some s2"
    and sch: "rt_schedule (upd_mb i (\<lambda>m. m\<lparr>mb_entry := 0, in_offset := 0, out_offset := 0\<rparr>) s2) = Some s'"
    using assms(1) by (auto simp: rt_mb_control_def bindE)
  then have "kinv s2" using inv_resume_all2 assms(2) by fastforce
  then show ?thesis using inv_schedule [OF sch] by simp
qed

end
