(* ===== verification/MsgQueue.thy ===== *)
theory MsgQueue imports Mailbox
begin

text \<open>
  The message queues of \<open>src/ipc.c\<close>: a pool of blocks, each in the free list or in the queue, both
  singly linked through the blocks' headers.

  \<open>rt_mq_send_wait\<close> and \<open>rt_mq_urgent\<close> enable interrupts while they copy the message into the block
  they have taken from the free list, and \<open>rt_mq_recv\<close> while it copies it out; the parts before,
  between and after are definitions of their own.
\<close>

definition mq_header_size :: u32 where "mq_header_size = 4"

text \<open>The loop of \<open>rt_mq_init\<close> and \<open>rt_mq_create\<close> that chains all blocks into the free list.\<close>

definition mq_chain_free :: "nat \<Rightarrow> (nat \<Rightarrow> nat option) \<Rightarrow> (nat \<Rightarrow> nat option) \<times> nat option" where
  "mq_chain_free n nx = foldl (\<lambda>(nx, fr) k. (nx(k := fr), Some k)) (nx, None) [0..<n]"

definition new_mq ::
    "rt_obj \<Rightarrow> u8 \<Rightarrow> (nat \<Rightarrow> nat option) \<Rightarrow> (nat \<Rightarrow> u8 list) \<Rightarrow> u16 \<Rightarrow> u16 \<Rightarrow> rt_messagequeue" where
  "new_mq obj flag nx pool msz maxm =
     (let (nx, fr) = mq_chain_free (unat maxm) nx
      in \<lparr>mq_obj = obj, mq_flag = flag, mq_next = nx, mq_data = pool, msg_size = msz,
          max_msgs = maxm, mq_entry = 0, msg_queue_head = None, msg_queue_tail = None,
          msg_queue_free = fr\<rparr>)"

text \<open>
  \<open>rt_mq_init\<close>: \<open>nx\<close> and \<open>pool\<close> are what the caller's memory holds at the blocks' headers and bodies.
\<close>

definition rt_mq_init ::
    "oid \<Rightarrow> (nat \<Rightarrow> nat option) \<Rightarrow> (nat \<Rightarrow> u8 list) \<Rightarrow> u32 \<Rightarrow> u32 \<Rightarrow> u8 \<Rightarrow> kernel \<Rightarrow>
     (rt_err_t \<times> kernel) option" where
  "rt_mq_init i nx pool msz pool_size flag s = do {
     ipc_flag_ok flag;
     s \<leftarrow> rt_object_init (mq_obj (mqueues s i)) s;
     s \<leftarrow> ipc_object_init (MqWait i) s;
     let msz = (ucast (RT_ALIGN msz RT_ALIGN_SIZE) :: u16);
     let maxm = (ucast (pool_size div (ucast msz + mq_header_size)) :: u16);
     s \<leftarrow> ipc_object_init (MqSender i) s;
     Some (RT_EOK, upd_mq i (\<lambda>_. new_mq ObjStatic flag nx pool msz maxm) s)
   }"

definition rt_mq_detach :: "oid \<Rightarrow> kernel \<Rightarrow> (rt_err_t \<times> kernel) option" where
  "rt_mq_detach i s = do {
     rt_assert (mq_obj (mqueues s i) = ObjStatic);
     s \<leftarrow> ipc_list_resume_all (MqWait i) s;
     s \<leftarrow> ipc_list_resume_all (MqSender i) s;
     Some (RT_EOK, upd_mq i (mq_obj_update (\<lambda>_. ObjNull)) s)
   }"

text \<open>
  \<open>rt_mq_create\<close>: \<open>alloc\<close> answers \<open>rt_object_allocate\<close>, \<open>mem\<close> answers \<open>RT_KERNEL_MALLOC\<close> for the pool.
\<close>

definition rt_mq_create ::
    "oid option \<Rightarrow> ((nat \<Rightarrow> nat option) \<times> (nat \<Rightarrow> u8 list)) option \<Rightarrow> u32 \<Rightarrow> u32 \<Rightarrow> u8 \<Rightarrow> kernel \<Rightarrow>
     (oid option \<times> kernel) option" where
  "rt_mq_create alloc mem msz maxm flag s = do {
     ipc_flag_ok flag;
     not_in_interrupt s;
     (case alloc of
        None \<Rightarrow> Some (None, s)
      | Some i \<Rightarrow> do {
          s \<leftarrow> ipc_object_init (MqWait i) s;
          (case mem of
             None \<Rightarrow> Some (None, upd_mq i (mq_obj_update (\<lambda>_. ObjNull)) s)
           | Some (nx, pool) \<Rightarrow> do {
               s \<leftarrow> ipc_object_init (MqSender i) s;
               Some (Some i, upd_mq i (\<lambda>_. new_mq ObjDynamic flag nx pool
                       (ucast (RT_ALIGN msz RT_ALIGN_SIZE)) (ucast maxm)) s)
             })
        })
   }"

definition rt_mq_delete :: "oid \<Rightarrow> kernel \<Rightarrow> (rt_err_t \<times> kernel) option" where
  "rt_mq_delete i s = do {
     rt_assert (mq_obj (mqueues s i) = ObjDynamic);
     not_in_interrupt s;
     s \<leftarrow> ipc_list_resume_all (MqWait i) s;
     s \<leftarrow> ipc_list_resume_all (MqSender i) s;
     Some (RT_EOK, upd_mq i (mq_obj_update (\<lambda>_. ObjNull)) s)
   }"

subsection \<open>Blocks\<close>

text \<open>Take the first free block; the caller has seen that there is one.\<close>

definition mq_alloc :: "rt_messagequeue \<Rightarrow> (nat \<times> rt_messagequeue) option" where
  "mq_alloc m = do {
     b \<leftarrow> msg_queue_free m;
     Some (b, m\<lparr>msg_queue_free := mq_next m b\<rparr>)
   }"

text \<open>\<open>rt_memcpy(msg + 1, buffer, size)\<close> into the body of the block\<close>

definition mq_fill :: "nat \<Rightarrow> u8 list \<Rightarrow> rt_messagequeue \<Rightarrow> rt_messagequeue option" where
  "mq_fill b buf m = do {
     d \<leftarrow> mwrite (mq_data m b) 0 buf;
     Some (m\<lparr>mq_data := (mq_data m)(b := d)\<rparr>)
   }"

definition mq_link_tail :: "nat \<Rightarrow> rt_messagequeue \<Rightarrow> bool \<times> rt_messagequeue" where
  "mq_link_tail b m =
     (let m = (case msg_queue_tail m of
                 None \<Rightarrow> m
               | Some e \<Rightarrow> m\<lparr>mq_next := (mq_next m)(e := Some b)\<rparr>);
          m = m\<lparr>msg_queue_tail := Some b\<rparr>;
          m = (if msg_queue_head m = None then m\<lparr>msg_queue_head := Some b\<rparr> else m)
      in if mq_entry m < RT_UINT16_MAX then (True, m\<lparr>mq_entry := mq_entry m + 1\<rparr>)
         else (False, m))"

definition mq_link_head :: "nat \<Rightarrow> rt_messagequeue \<Rightarrow> bool \<times> rt_messagequeue" where
  "mq_link_head b m =
     (let m = m\<lparr>mq_next := (mq_next m)(b := msg_queue_head m)\<rparr>;
          m = m\<lparr>msg_queue_head := Some b\<rparr>;
          m = (if msg_queue_tail m = None then m\<lparr>msg_queue_tail := Some b\<rparr> else m)
      in if mq_entry m < RT_UINT16_MAX then (True, m\<lparr>mq_entry := mq_entry m + 1\<rparr>)
         else (False, m))"

definition mq_unlink_head :: "rt_messagequeue \<Rightarrow> (nat \<times> rt_messagequeue) option" where
  "mq_unlink_head m = do {
     b \<leftarrow> msg_queue_head m;
     let m = m\<lparr>msg_queue_head := mq_next m b\<rparr>;
     let m = (if msg_queue_tail m = Some b then m\<lparr>msg_queue_tail := None\<rparr> else m);
     Some (b, if 0 < mq_entry m then m\<lparr>mq_entry := mq_entry m - 1\<rparr> else m)
   }"

definition mq_free :: "nat \<Rightarrow> rt_messagequeue \<Rightarrow> rt_messagequeue" where
  "mq_free b m = m\<lparr>mq_next := (mq_next m)(b := msg_queue_free m), msg_queue_free := Some b\<rparr>"

subsection \<open>Sending and receiving\<close>

text \<open>From the free block to the end of the queue, with the copy in between.\<close>

definition mq_enqueue :: "u8 list \<Rightarrow> rt_messagequeue \<Rightarrow> (bool \<times> rt_messagequeue) option" where
  "mq_enqueue buf m = do {
     (b, m) \<leftarrow> mq_alloc m;
     m \<leftarrow> mq_fill b buf (m\<lparr>mq_next := (mq_next m)(b := None)\<rparr>);
     Some (mq_link_tail b m)
   }"

definition mq_enqueue_front :: "u8 list \<Rightarrow> rt_messagequeue \<Rightarrow> (bool \<times> rt_messagequeue) option" where
  "mq_enqueue_front buf m = do {
     (b, m) \<leftarrow> mq_alloc m;
     m \<leftarrow> mq_fill b buf m;
     Some (mq_link_head b m)
   }"

text \<open>The receiver's buffer takes as much of the message as fits.\<close>

definition mq_dequeue :: "nat \<Rightarrow> rt_messagequeue \<Rightarrow> (u8 list \<times> rt_messagequeue) option" where
  "mq_dequeue sz m = do {
     (b, m) \<leftarrow> mq_unlink_head m;
     d \<leftarrow> mread (mq_data m b) 0 (int (if unat (msg_size m) < sz then unat (msg_size m) else sz));
     Some (d, mq_free b m)
   }"

definition mq_send_loop ::
    "oid \<Rightarrow> tid option \<Rightarrow> u8 list \<Rightarrow> u32 \<Rightarrow> kernel \<Rightarrow> ((rt_err_t, u32 \<times> u32) call \<times> kernel) option" where
  "mq_send_loop i self buf timeout s =
     (if msg_queue_free (mqueues s i) = None
      then do {
        t \<leftarrow> self;
        let s = upd_thread t (error_update (\<lambda>_. RT_EOK)) s;
        if timeout = 0 then Some (Done (- RT_EFULL), s)
        else ipc_loop_block (MqSender i) t (mq_flag (mqueues s i)) timeout s
      }
      else do {
        (counted, m) \<leftarrow> mq_enqueue buf (mqueues s i);
        let s = upd_mq i (\<lambda>_. m) s;
        if \<not> counted then Some (Done (- RT_EFULL), s)
        else do {
          s \<leftarrow> ipc_wake_one (MqWait i) s;
          Some (Done RT_EOK, s)
        }
      })"

definition rt_mq_send_wait ::
    "oid \<Rightarrow> u8 list \<Rightarrow> u32 \<Rightarrow> kernel \<Rightarrow> ((rt_err_t, u32 \<times> u32) call \<times> kernel) option" where
  "rt_mq_send_wait i buf timeout s = do {
     rt_assert (mq_obj (mqueues s i) \<noteq> ObjNull);
     rt_assert (length buf \<noteq> 0);
     scheduler_available (timeout \<noteq> 0) s;
     if unat (msg_size (mqueues s i)) < length buf then Some (Done (- RT_ERROR), s)
     else if msg_queue_free (mqueues s i) = None \<and> timeout = 0 then Some (Done (- RT_EFULL), s)
     else mq_send_loop i (rt_thread_self s) buf timeout s
   }"

definition mq_send_resume ::
    "oid \<Rightarrow> tid \<Rightarrow> u8 list \<Rightarrow> u32 \<times> u32 \<Rightarrow> kernel \<Rightarrow> ((rt_err_t, u32 \<times> u32) call \<times> kernel) option" where
  "mq_send_resume i t buf l s =
     (if error (threads s t) \<noteq> RT_EOK then Some (Done (error (threads s t)), s)
      else mq_send_loop i (Some t) buf (remaining_timeout (fst l) (snd l) s) s)"

definition rt_mq_send ::
    "oid \<Rightarrow> u8 list \<Rightarrow> kernel \<Rightarrow> ((rt_err_t, u32 \<times> u32) call \<times> kernel) option" where
  "rt_mq_send i buf s = rt_mq_send_wait i buf 0 s"

definition rt_mq_urgent :: "oid \<Rightarrow> u8 list \<Rightarrow> kernel \<Rightarrow> (rt_err_t \<times> kernel) option" where
  "rt_mq_urgent i buf s = do {
     rt_assert (mq_obj (mqueues s i) \<noteq> ObjNull);
     rt_assert (length buf \<noteq> 0);
     if unat (msg_size (mqueues s i)) < length buf then Some (- RT_ERROR, s)
     else if msg_queue_free (mqueues s i) = None then Some (- RT_EFULL, s)
     else do {
       (counted, m) \<leftarrow> mq_enqueue_front buf (mqueues s i);
       let s = upd_mq i (\<lambda>_. m) s;
       if \<not> counted then Some (- RT_EFULL, s)
       else do {
         s \<leftarrow> ipc_wake_one (MqWait i) s;
         Some (RT_EOK, s)
       }
     }
   }"

definition mq_recv_loop ::
    "oid \<Rightarrow> tid option \<Rightarrow> nat \<Rightarrow> u32 \<Rightarrow> kernel \<Rightarrow>
     ((rt_err_t \<times> u8 list option, u32 \<times> u32) call \<times> kernel) option" where
  "mq_recv_loop i self sz timeout s =
     (if mq_entry (mqueues s i) = 0
      then do {
        t \<leftarrow> self;
        let s = upd_thread t (error_update (\<lambda>_. RT_EOK)) s;
        if timeout = 0
        then Some (Done (- RT_ETIMEOUT, None), upd_thread t (error_update (\<lambda>_. - RT_ETIMEOUT)) s)
        else ipc_loop_block (MqWait i) t (mq_flag (mqueues s i)) timeout s
      }
      else do {
        (d, m) \<leftarrow> mq_dequeue sz (mqueues s i);
        s \<leftarrow> ipc_wake_one (MqSender i) (upd_mq i (\<lambda>_. m) s);
        Some (Done (RT_EOK, Some d), s)
      })"

definition rt_mq_recv ::
    "oid \<Rightarrow> nat \<Rightarrow> u32 \<Rightarrow> kernel \<Rightarrow> ((rt_err_t \<times> u8 list option, u32 \<times> u32) call \<times> kernel) option" where
  "rt_mq_recv i sz timeout s = do {
     rt_assert (mq_obj (mqueues s i) \<noteq> ObjNull);
     rt_assert (sz \<noteq> 0);
     scheduler_available (timeout \<noteq> 0) s;
     if mq_entry (mqueues s i) = 0 \<and> timeout = 0 then Some (Done (- RT_ETIMEOUT, None), s)
     else mq_recv_loop i (rt_thread_self s) sz timeout s
   }"

definition mq_recv_resume ::
    "oid \<Rightarrow> tid \<Rightarrow> nat \<Rightarrow> u32 \<times> u32 \<Rightarrow> kernel \<Rightarrow>
     ((rt_err_t \<times> u8 list option, u32 \<times> u32) call \<times> kernel) option" where
  "mq_recv_resume i t sz l s =
     (if error (threads s t) \<noteq> RT_EOK then Some (Done (error (threads s t), None), s)
      else mq_recv_loop i (Some t) sz (remaining_timeout (fst l) (snd l) s) s)"

text \<open>\<open>rt_mq_control(RT_IPC_CMD_RESET)\<close> moves every queued block to the free list.\<close>

partial_function (option) mq_flush :: "rt_messagequeue \<Rightarrow> rt_messagequeue option" where
  "mq_flush m =
     (case msg_queue_head m of
        None \<Rightarrow> Some m
      | Some b \<Rightarrow>
          let m = m\<lparr>msg_queue_head := mq_next m b\<rparr>;
              m = (if msg_queue_tail m = Some b then m\<lparr>msg_queue_tail := None\<rparr> else m)
          in mq_flush (mq_free b m))"

definition rt_mq_control :: "oid \<Rightarrow> nat \<Rightarrow> kernel \<Rightarrow> (rt_err_t \<times> kernel) option" where
  "rt_mq_control i cmd s = do {
     rt_assert (mq_obj (mqueues s i) \<noteq> ObjNull);
     if cmd = RT_IPC_CMD_RESET
     then do {
       s \<leftarrow> ipc_list_resume_all (MqWait i) s;
       s \<leftarrow> ipc_list_resume_all (MqSender i) s;
       m \<leftarrow> mq_flush (mqueues s i);
       s \<leftarrow> rt_schedule (upd_mq i (\<lambda>_. m\<lparr>mq_entry := 0\<rparr>) s);
       Some (RT_EOK, s)
     }
     else Some (- RT_ERROR, s)
   }"

subsection \<open>The kernel invariant\<close>

lemma inv_mq_init: "rt_mq_init i nx pool msz psz flag s = Some (r, s') \<Longrightarrow> kinv s \<Longrightarrow> kinv s'"
  by (auto simp: rt_mq_init_def ipc_object_init_def bindE Let_def dest: object_init_frame(1))

lemma inv_mq_detach: "rt_mq_detach i s = Some (r, s') \<Longrightarrow> kinv s \<Longrightarrow> kinv s'"
  by (auto simp: rt_mq_detach_def bindE dest!: inv_resume_all)

lemma inv_mq_create: "rt_mq_create alloc mem msz maxm flag s = Some (r, s') \<Longrightarrow> kinv s \<Longrightarrow> kinv s'"
  by (auto simp: rt_mq_create_def ipc_object_init_def bindE split: option.splits)

lemma inv_mq_delete: "rt_mq_delete i s = Some (r, s') \<Longrightarrow> kinv s \<Longrightarrow> kinv s'"
  by (auto simp: rt_mq_delete_def bindE dest!: inv_resume_all)

lemma inv_mq_send_loop:
  assumes "mq_send_loop i self buf timeout s = Some (r, s')" "kinv s"
  shows "kinv s'"
proof (cases "msg_queue_free (mqueues s i) = None")
  case True
  then obtain t where "s' = upd_thread t (error_update (\<lambda>_. RT_EOK)) s \<or>
      ipc_loop_block (MqSender i) t (mq_flag (mqueues s i)) timeout
        (upd_thread t (error_update (\<lambda>_. RT_EOK)) s) = Some (r, s')"
    using assms(1) by (auto simp: mq_send_loop_def bindE Let_def split: if_splits)
  then show ?thesis using assms(2) inv_loop_block by fastforce
next
  case False
  then obtain m where "s' = upd_mq i (\<lambda>_. m) s \<or> ipc_wake_one (MqWait i) (upd_mq i (\<lambda>_. m) s) = Some s'"
    using assms(1) by (auto simp: mq_send_loop_def bindE Let_def split: if_splits)
  then show ?thesis using assms(2) inv_wake_one by fastforce
qed

lemma inv_mq_send_wait: "rt_mq_send_wait i buf timeout s = Some (r, s') \<Longrightarrow> kinv s \<Longrightarrow> kinv s'"
  by (auto simp: rt_mq_send_wait_def bindE dest: inv_mq_send_loop split: if_splits)

lemma inv_mq_send_resume: "mq_send_resume i t buf l s = Some (r, s') \<Longrightarrow> kinv s \<Longrightarrow> kinv s'"
  by (auto simp: mq_send_resume_def dest: inv_mq_send_loop split: if_splits)

lemma inv_mq_send: "rt_mq_send i buf s = Some (r, s') \<Longrightarrow> kinv s \<Longrightarrow> kinv s'"
  by (auto simp: rt_mq_send_def dest: inv_mq_send_wait)

lemma inv_mq_urgent:
  assumes "rt_mq_urgent i buf s = Some (r, s')" "kinv s"
  shows "kinv s'"
proof -
  obtain m where "s' = s \<or> s' = upd_mq i (\<lambda>_. m) s \<or> ipc_wake_one (MqWait i) (upd_mq i (\<lambda>_. m) s) = Some s'"
    using assms(1) by (auto simp: rt_mq_urgent_def bindE Let_def split: if_splits)
  then show ?thesis using assms(2) inv_wake_one by fastforce
qed

lemma inv_mq_recv_loop:
  assumes "mq_recv_loop i self sz timeout s = Some (r, s')" "kinv s"
  shows "kinv s'"
proof (cases "mq_entry (mqueues s i) = 0")
  case True
  then obtain t where "s' = upd_thread t (error_update (\<lambda>_. - RT_ETIMEOUT)) (upd_thread t (error_update (\<lambda>_. RT_EOK)) s) \<or>
      ipc_loop_block (MqWait i) t (mq_flag (mqueues s i)) timeout
        (upd_thread t (error_update (\<lambda>_. RT_EOK)) s) = Some (r, s')"
    using assms(1) by (auto simp: mq_recv_loop_def bindE Let_def split: if_splits)
  then show ?thesis using assms(2) inv_loop_block by fastforce
next
  case False
  then obtain m where "ipc_wake_one (MqSender i) (upd_mq i (\<lambda>_. m) s) = Some s'"
    using assms(1) by (auto simp: mq_recv_loop_def bindE Let_def)
  then show ?thesis using assms(2) inv_wake_one by fastforce
qed

lemma inv_mq_recv: "rt_mq_recv i sz timeout s = Some (r, s') \<Longrightarrow> kinv s \<Longrightarrow> kinv s'"
  by (auto simp: rt_mq_recv_def bindE dest: inv_mq_recv_loop split: if_splits)

lemma inv_mq_recv_resume: "mq_recv_resume i t sz l s = Some (r, s') \<Longrightarrow> kinv s \<Longrightarrow> kinv s'"
  by (auto simp: mq_recv_resume_def dest: inv_mq_recv_loop split: if_splits)

lemma inv_mq_control:
  assumes "rt_mq_control i cmd s = Some (r, s')" "kinv s"
  shows "kinv s'"
proof (cases "cmd = RT_IPC_CMD_RESET")
  case False
  then show ?thesis using assms by (auto simp: rt_mq_control_def bindE)
next
  case True
  then obtain s1 s2 m where "ipc_list_resume_all (MqWait i) s = Some s1"
    "ipc_list_resume_all (MqSender i) s1 = Some s2"
    and sch: "rt_schedule (upd_mq i (\<lambda>_. m) s2) = Some s'"
    using assms(1) by (auto simp: rt_mq_control_def bindE)
  then have "kinv s2" using inv_resume_all2 assms(2) by fastforce
  then show ?thesis using inv_schedule [OF sch] by simp
qed

end
