(* ===== verification/KernelSteps.thy ===== *)
theory KernelSteps imports Mutex Event MsgQueue
begin

text \<open>
  The kernel as a whole: its states are those reached from an empty kernel by any sequence of calls,
  interrupts and ticks, in any order. One step is one call, or the part of a blocking call up to the
  point where its caller is switched out, or from there on. Priority inheritance, time-outs and
  object deletion interleave freely.
\<close>

subsection \<open>Steps\<close>

text \<open>
  The calls a thread, an interrupt handler or a timeout function can make. The arguments are
  arbitrary; a call that stops in an assertion makes no step. Allocated objects are fresh.
\<close>

inductive kcall :: "kernel \<Rightarrow> kernel \<Rightarrow> bool" where
  k_enter_critical: "kcall s (rt_enter_critical s)"
| k_exit_critical: "rt_exit_critical s = Some s' \<Longrightarrow> kcall s s'"
| k_interrupt_enter: "kcall s (rt_interrupt_enter s)"
| k_interrupt_leave: "kcall s (rt_interrupt_leave s)"
| k_schedule: "rt_schedule s = Some s' \<Longrightarrow> kcall s s'"
| k_tick_set: "kcall s (rt_tick_set v s)"
| k_timer_init: "rt_timer_init (TUser n) time per s = Some s' \<Longrightarrow> kcall s s'"
| k_timer_create: "rt_timer_create (Some (TUser n)) time per s = Some (q, s') \<Longrightarrow>
    tm_obj (timers s (TUser n)) = ObjNull \<Longrightarrow> kcall s s'"
| k_timer_detach: "rt_timer_detach (TUser n) s = Some (r, s') \<Longrightarrow> kcall s s'"
| k_timer_delete: "rt_timer_delete (TUser n) s = Some (r, s') \<Longrightarrow> kcall s s'"
| k_timer_start: "rt_timer_start (TUser n) s = Some (r, s') \<Longrightarrow> kcall s s'"
| k_timer_stop: "rt_timer_stop (TUser n) s = Some (r, s') \<Longrightarrow> kcall s s'"
| k_timer_control: "rt_timer_control (TUser n) cmd v s = Some (r, v', s') \<Longrightarrow> kcall s s'"
| k_thread_init: "rt_thread_init t p ticks s = Some (r, s') \<Longrightarrow> kcall s s'"
| k_thread_create: "rt_thread_create alloc stack p ticks s = Some (q, s') \<Longrightarrow>
    (\<And>t. alloc = Some t \<Longrightarrow> th_obj (threads s t) = ObjNull) \<Longrightarrow> kcall s s'"
| k_thread_startup: "rt_thread_startup t s = Some (r, s') \<Longrightarrow> kcall s s'"
| k_thread_detach: "rt_thread_detach t s = Some (r, s') \<Longrightarrow> kcall s s'"
| k_thread_delete: "rt_thread_delete t s = Some (r, s') \<Longrightarrow> kcall s s'"
| k_thread_exit: "thread_exit s = Some s' \<Longrightarrow> kcall s s'"
| k_thread_yield: "rt_thread_yield s = Some (r, s') \<Longrightarrow> kcall s s'"
| k_thread_sleep: "rt_thread_sleep time s = Some (c, s') \<Longrightarrow> kcall s s'"
| k_thread_delay_until: "rt_thread_delay_until v inc s = Some (v', c, s') \<Longrightarrow> kcall s s'"
| k_thread_sleep_resume: "thread_sleep_resume t s = (r, s') \<Longrightarrow> kcall s s'"
| k_thread_control: "rt_thread_control t ctl s = Some (r, s') \<Longrightarrow> kcall s s'"
| k_thread_suspend: "rt_thread_suspend t s = Some (r, s') \<Longrightarrow> kcall s s'"
| k_thread_resume: "rt_thread_resume t s = Some (r, s') \<Longrightarrow> kcall s s'"
| k_sem_init: "rt_sem_init i v flag s = Some (r, s') \<Longrightarrow> kcall s s'"
| k_sem_detach: "rt_sem_detach i s = Some (r, s') \<Longrightarrow> kcall s s'"
| k_sem_create: "rt_sem_create alloc v flag s = Some (q, s') \<Longrightarrow> kcall s s'"
| k_sem_delete: "rt_sem_delete i s = Some (r, s') \<Longrightarrow> kcall s s'"
| k_sem_take: "rt_sem_take i time s = Some (c, s') \<Longrightarrow> kcall s s'"
| k_sem_release: "rt_sem_release i s = Some (r, s') \<Longrightarrow> kcall s s'"
| k_sem_control: "rt_sem_control i k v s = Some (r, s') \<Longrightarrow> kcall s s'"
| k_mutex_init: "rt_mutex_init i flag s = Some (r, s') \<Longrightarrow> kcall s s'"
| k_mutex_detach: "rt_mutex_detach i s = Some (r, s') \<Longrightarrow> kcall s s'"
| k_mutex_create: "rt_mutex_create alloc flag s = Some (q, s') \<Longrightarrow> kcall s s'"
| k_mutex_delete: "rt_mutex_delete i s = Some (r, s') \<Longrightarrow> kcall s s'"
| k_mutex_take: "rt_mutex_take i time s = Some (c, s') \<Longrightarrow> kcall s s'"
| k_mutex_release: "rt_mutex_release i s = Some (r, s') \<Longrightarrow> kcall s s'"
| k_mutex_control: "rt_mutex_control i k s = Some (r, s') \<Longrightarrow> kcall s s'"
| k_event_init: "rt_event_init i flag s = Some (r, s') \<Longrightarrow> kcall s s'"
| k_event_detach: "rt_event_detach i s = Some (r, s') \<Longrightarrow> kcall s s'"
| k_event_create: "rt_event_create alloc flag s = Some (q, s') \<Longrightarrow> kcall s s'"
| k_event_delete: "rt_event_delete i s = Some (r, s') \<Longrightarrow> kcall s s'"
| k_event_send: "rt_event_send i v s = Some (r, s') \<Longrightarrow> kcall s s'"
| k_event_recv: "rt_event_recv i v opt time s = Some (e, s') \<Longrightarrow> kcall s s'"
| k_event_control: "rt_event_control i k s = Some (r, s') \<Longrightarrow> kcall s s'"
| k_mb_init: "rt_mb_init i pool v flag s = Some (r, s') \<Longrightarrow> kcall s s'"
| k_mb_detach: "rt_mb_detach i s = Some (r, s') \<Longrightarrow> kcall s s'"
| k_mb_create: "rt_mb_create alloc mem v flag s = Some (q, s') \<Longrightarrow> kcall s s'"
| k_mb_delete: "rt_mb_delete i s = Some (r, s') \<Longrightarrow> kcall s s'"
| k_mb_send_wait: "rt_mb_send_wait i v time s = Some (w, s') \<Longrightarrow> kcall s s'"
| k_mb_urgent: "rt_mb_urgent i v s = Some (r, s') \<Longrightarrow> kcall s s'"
| k_mb_recv: "rt_mb_recv i time s = Some (rw, s') \<Longrightarrow> kcall s s'"
| k_mb_control: "rt_mb_control i k s = Some (r, s') \<Longrightarrow> kcall s s'"
| k_mq_init: "rt_mq_init i nx blocks v v' flag s = Some (r, s') \<Longrightarrow> kcall s s'"
| k_mq_detach: "rt_mq_detach i s = Some (r, s') \<Longrightarrow> kcall s s'"
| k_mq_create: "rt_mq_create alloc qmem v v' flag s = Some (q, s') \<Longrightarrow> kcall s s'"
| k_mq_delete: "rt_mq_delete i s = Some (r, s') \<Longrightarrow> kcall s s'"
| k_mq_send_wait: "rt_mq_send_wait i buf time s = Some (w, s') \<Longrightarrow> kcall s s'"
| k_mq_urgent: "rt_mq_urgent i buf s = Some (r, s') \<Longrightarrow> kcall s s'"
| k_mq_recv: "rt_mq_recv i sz time s = Some (qw, s') \<Longrightarrow> kcall s s'"
| k_mq_control: "rt_mq_control i k s = Some (r, s') \<Longrightarrow> kcall s s'"
| k_mb_send_resume: "mb_send_resume i t v l s = Some (w, s') \<Longrightarrow> kcall s s'"
| k_mb_recv_resume: "mb_recv_resume i t l s = Some (rw, s') \<Longrightarrow> kcall s s'"
| k_mq_send_resume: "mq_send_resume i t buf l s = Some (w, s') \<Longrightarrow> kcall s s'"
| k_mq_recv_resume: "mq_recv_resume i t sz l s = Some (qw, s') \<Longrightarrow> kcall s s'"
| k_scheduler_start: "rt_system_scheduler_start s = Some s' \<Longrightarrow> rt_current_thread s = None \<Longrightarrow>
    kcall s s'"
| k_defunct_execute: "rt_defunct_execute cl s = Some s' \<Longrightarrow> cleanup_ok cl \<Longrightarrow>
    (\<And>c. rt_current_thread s = Some c \<Longrightarrow> stat (threads s c) \<noteq> RT_THREAD_CLOSE) \<Longrightarrow> kcall s s'"

text \<open>
  Timeout functions of drivers act on the kernel only through calls. The tick runs them from the
  timer interrupt.
\<close>

definition acts_by_calls :: "(nat \<Rightarrow> kernel \<Rightarrow> kernel option) \<Rightarrow> bool" where
  "acts_by_calls cb \<longleftrightarrow> (\<forall>n s s'. cb n s = Some s' \<longrightarrow> kcall\<^sup>*\<^sup>* s s')"

inductive kstep :: "(nat \<Rightarrow> kernel \<Rightarrow> kernel option) \<Rightarrow> kernel \<Rightarrow> kernel \<Rightarrow> bool" for cb where
  k_call: "kcall s s' \<Longrightarrow> kstep cb s s'"
| k_tick: "rt_tick_increase cb s = Some s' \<Longrightarrow> kstep cb s s'"

subsection \<open>The invariant is kept\<close>

lemma inv_timer_init_user: "rt_timer_init (TUser n) time per s = Some s' \<Longrightarrow> kinv s \<Longrightarrow> kinv s'"
proof -
  assume step: "rt_timer_init (TUser n) time per s = Some s'" and inv: "kinv s"
  then obtain s1 where s1: "rt_object_init (tm_obj (timers s (TUser n))) s = Some s1"
    "timer_init (TUser n) time per (upd_timer (TUser n) (tm_obj_update (\<lambda>_. ObjStatic)) s1) = Some s'"
    by (auto simp: rt_timer_init_def bindE Let_def)
  note o = object_init_frame(1) [OF s1(1) inv]
  have un: "TUser n \<notin> set (timer_list s1)" using s1(2) by (auto simp: timer_init_def bindE)
  have "kinv (upd_timer (TUser n) (tm_obj_update (\<lambda>_. ObjStatic)) s1)"
    using kinv_retime [OF o, of n] un by simp
  then have "kinv (upd_timer (TUser n) (\<lambda>m. m\<lparr>activated := False, periodic := per, timeout_tick := 0,
      tm_init_tick := time\<rparr>) (upd_timer (TUser n) (tm_obj_update (\<lambda>_. ObjStatic)) s1))"
    by (rule kinv_retime) (simp add: un)
  then show "kinv s'" using s1(2) by (auto simp: timer_init_def bindE)
qed

lemma inv_timer_create_user:
  assumes "rt_timer_create (Some (TUser n)) time per s = Some (q, s')" "kinv s"
    "tm_obj (timers s (TUser n)) = ObjNull"
  shows "kinv s'"
proof -
  have s1: "timer_init (TUser n) time per (upd_timer (TUser n) (tm_obj_update (\<lambda>_. ObjDynamic)) s) = Some s'"
    using assms(1) by (auto simp: rt_timer_create_def bindE)
  have un: "TUser n \<notin> set (timer_list s)" using s1 by (auto simp: timer_init_def bindE)
  have "kinv (upd_timer (TUser n) (tm_obj_update (\<lambda>_. ObjDynamic)) s)"
    using kinv_retime [OF assms(2), of n] un by simp
  then have "kinv (upd_timer (TUser n) (\<lambda>m. m\<lparr>activated := False, periodic := per, timeout_tick := 0,
      tm_init_tick := time\<rparr>) (upd_timer (TUser n) (tm_obj_update (\<lambda>_. ObjDynamic)) s))"
    by (rule kinv_retime) (simp add: un)
  then show ?thesis using s1 by (auto simp: timer_init_def bindE)
qed

lemma inv_sleep_resume': "thread_sleep_resume t s = (r, s') \<Longrightarrow> kinv s \<Longrightarrow> kinv s'"
  using inv_sleep_resume [of s t] by simp

lemma inv_scheduler_start:
  assumes "rt_system_scheduler_start s = Some s'" "kinv s" "rt_current_thread s = None"
  shows "kinv s'"
proof -
  have inv: "kinv_but {} s" using assms(2) by (simp add: kinv_def)
  obtain n p where h: "get_highest_priority_thread s = Some (n, p)"
    using assms(1) by (auto simp: rt_system_scheduler_start_def bindE)
  have "n \<in> set (queue s (Ready p))"
    using h by (auto simp: get_highest_priority_thread_def bindE Let_def split: list.splits)
  note rn = kinv_ready_thread [OF inv _ this, simplified]
  obtain s1 where s1: "rt_schedule_remove_thread n s = Some s1"
    and s': "s' = upd_thread n (\<lambda>t. t\<lparr>stat := RT_THREAD_RUNNING, yield := False\<rparr>)
      (s1\<lparr>rt_current_thread := Some n\<rparr>)"
    using assms(1) h by (auto simp: rt_system_scheduler_start_def bindE rt_schedule_remove_current)
  have s1f: "rt_current_thread s1 = None" "stat (threads s1 n) = RT_THREAD_READY" "timer_list s1 = timer_list s"
    using s1 rn(1) assms(3) by (auto simp: rt_schedule_remove_thread_def bindE Let_def split: if_splits)
  have "kinv_but {n} s1" using inv_remove [OF s1 assms(2)] rn by simp
  then have "kinv_but {n} (s1\<lparr>rt_current_thread := Some n\<rparr>)"
    using s1f(1) by (intro kinv_set_current) auto
  then have "kinv_but {n} (upd_thread n (stat_update (\<lambda>_. RT_THREAD_RUNNING)) (s1\<lparr>rt_current_thread := Some n\<rparr>))"
    using s1f(2) by (intro kinv_flight_stat) auto
  then have "kinv_but ({n} - {n}) (upd_thread n (stat_update (\<lambda>_. RT_THREAD_RUNNING)) (s1\<lparr>rt_current_thread := Some n\<rparr>))"
    using s1f rn(5) by (intro kinv_land) auto
  then have "kinv_but {} (upd_thread n (yield_update (\<lambda>_. False))
      (upd_thread n (stat_update (\<lambda>_. RT_THREAD_RUNNING)) (s1\<lparr>rt_current_thread := Some n\<rparr>)))"
    by simp
  moreover have "s' = upd_thread n (yield_update (\<lambda>_. False))
      (upd_thread n (stat_update (\<lambda>_. RT_THREAD_RUNNING)) (s1\<lparr>rt_current_thread := Some n\<rparr>))"
    by (simp add: s' upd_thread_def)
  ultimately show ?thesis by (simp add: kinv_def)
qed

lemmas kcall_invs =
    inv_control inv_delay_until inv_delete inv_detach inv_event_control inv_event_create
    inv_event_delete inv_event_detach inv_event_init inv_event_recv inv_event_send inv_exit
    inv_exit_critical inv_mb_control inv_mb_create inv_mb_delete inv_mb_detach inv_mb_init
    inv_mb_recv inv_mb_recv_resume inv_mb_send_resume inv_mb_send_wait inv_mb_urgent
    inv_mq_control inv_mq_create inv_mq_delete inv_mq_detach inv_mq_init inv_mq_recv
    inv_mq_recv_resume inv_mq_send_resume inv_mq_send_wait inv_mq_urgent inv_mutex_control
    inv_mutex_create inv_mutex_delete inv_mutex_detach inv_mutex_init inv_mutex_release
    inv_mutex_take inv_resume inv_rt_thread_init inv_schedule inv_sem_control inv_sem_create
    inv_sem_delete inv_sem_detach inv_sem_init inv_sem_release inv_sem_take inv_sleep
    inv_sleep_resume' inv_startup inv_suspend inv_timer_control_user inv_timer_create_user
    inv_timer_delete_user inv_timer_detach_user inv_timer_init_user inv_timer_start_user
    inv_timer_stop inv_yield

lemma kcall_kinv: "kcall s s' \<Longrightarrow> kinv s \<Longrightarrow> kinv s'"
proof (induction rule: kcall.induct)
  case k_thread_create
  show ?case by (rule inv_thread_create [OF k_thread_create(1,3,2)])
next
  case k_defunct_execute
  show ?case by (rule inv_defunct_execute(1) [OF k_defunct_execute(1,4,2,3)])
next
  case k_scheduler_start
  show ?case by (rule inv_scheduler_start [OF k_scheduler_start(1,3,2)])
next
  case k_timer_create
  show ?case by (rule inv_timer_create_user [OF k_timer_create(1,3,2)])
qed (simp_all add: rt_enter_critical_def rt_interrupt_enter_def rt_interrupt_leave_def rt_tick_set_def,
  (erule (1) kcall_invs)+)

lemma kcalls_kinv: "kcall\<^sup>*\<^sup>* s s' \<Longrightarrow> kinv s \<Longrightarrow> kinv s'"
  by (induction rule: rtranclp_induct) (auto intro: kcall_kinv)

lemma acts_by_calls_ok: "acts_by_calls cb \<Longrightarrow> callback_ok cb"
  unfolding acts_by_calls_def callback_ok_def using kcalls_kinv by blast

lemma kstep_kinv: "kstep cb s s' \<Longrightarrow> acts_by_calls cb \<Longrightarrow> kinv s \<Longrightarrow> kinv s'"
  by (erule kstep.cases) (auto intro: kcall_kinv inv_tick_increase acts_by_calls_ok)

text \<open>
  At power-on no object is registered, every list is empty and no thread runs; the memory that
  objects will occupy may hold anything.
\<close>

definition power_on :: "kernel \<Rightarrow> bool" where
  "power_on s \<longleftrightarrow> rt_current_thread s = None \<and> rt_thread_ready_priority_group s = 0 \<and>
     timer_list s = [] \<and> (\<forall>l. queue s l = []) \<and>
     (\<forall>t. th_obj (threads s t) = ObjNull \<and> tlist (threads s t) = None) \<and>
     (\<forall>m. tm_obj (timers s m) = ObjNull) \<and>
     (\<forall>i. sem_obj (sems s i) = ObjNull \<and> mtx_obj (mutexes s i) = ObjNull \<and> ev_obj (events s i) = ObjNull \<and>
        mb_obj (mailboxes s i) = ObjNull \<and> mq_obj (mqueues s i) = ObjNull)"

inductive reachable :: "(nat \<Rightarrow> kernel \<Rightarrow> kernel option) \<Rightarrow> kernel \<Rightarrow> bool" for cb where
  start: "power_on s \<Longrightarrow> reachable cb s"
| step: "reachable cb s \<Longrightarrow> kstep cb s s' \<Longrightarrow> reachable cb s'"

lemma power_on_kinv: "power_on s \<Longrightarrow> kinv s"
  unfolding kinv_def power_on_def
  by (intro kinv_butI) (auto simp: links_ok_def ready_ok_def timers_ok_def thread_ok_def)

lemma reachable_kinv: "reachable cb s \<Longrightarrow> acts_by_calls cb \<Longrightarrow> kinv s"
  by (induction rule: reachable.induct) (auto intro: power_on_kinv kstep_kinv)

subsection \<open>What holds in every reachable state\<close>


text \<open>A small system, booted: threads 1 and 3 of priority 10, thread 2 of priority 20, a
  semaphore and a mutex.\<close>

definition zero_thread :: rt_thread where
  "zero_thread = \<lparr>th_obj = ObjNull, tlist = None, error = 0, stat = RT_THREAD_INIT, yield = False,
     current_priority = 0, number_mask = 0, event_set = 0, event_info = 0, init_tick = 0,
     remaining_tick = 0\<rparr>"

definition zero_kernel :: kernel where
  "zero_kernel = \<lparr>threads = (\<lambda>_. zero_thread), queue = (\<lambda>_. []), rt_thread_ready_priority_group = 0,
     rt_scheduler_lock_nest = 0, rt_interrupt_nest = 0, rt_current_thread = None,
     rt_current_priority = 0, rt_tick = 0,
     timers = (\<lambda>_. \<lparr>tm_obj = ObjNull, activated = False, periodic = False, tm_init_tick = 0, timeout_tick = 0\<rparr>),
     timer_list = [], expired = [],
     sems = (\<lambda>_. \<lparr>sem_obj = ObjNull, sem_flag = 0, sem_value = 0\<rparr>),
     mutexes = (\<lambda>_. new_mutex ObjNull),
     events = (\<lambda>_. \<lparr>ev_obj = ObjNull, ev_flag = 0, ev_set = 0\<rparr>),
     mailboxes = (\<lambda>_. new_mb ObjNull 0 [] 0),
     mqueues = (\<lambda>_. new_mq ObjNull 0 (\<lambda>_. None) (\<lambda>_. []) 0 0)\<rparr>"

definition booting :: "kernel option" where
  "booting = do {
     (_, s) \<leftarrow> rt_thread_init 1 10 5 zero_kernel;
     (_, s) \<leftarrow> rt_thread_startup 1 s;
     (_, s) \<leftarrow> rt_thread_init 2 20 5 s;
     (_, s) \<leftarrow> rt_thread_startup 2 s;
     (_, s) \<leftarrow> rt_thread_init 3 10 5 s;
     (_, s) \<leftarrow> rt_thread_startup 3 s;
     (_, s) \<leftarrow> rt_sem_init 0 1 1 s;
     (_, s) \<leftarrow> rt_mutex_init 0 1 s;
     Some s
   }"

definition booted :: kernel where
  "booted = the (booting \<bind> rt_system_scheduler_start)"

lemma power_on_zero: "power_on zero_kernel"
  by (simp add: power_on_def zero_kernel_def zero_thread_def new_mutex_def new_mb_def new_mq_def Let_def
      split: prod.split)

lemma reachable_call: "reachable cb s \<Longrightarrow> kcall s s' \<Longrightarrow> reachable cb s'"
  by (blast intro: reachable.step kstep.k_call)

lemma booting_runs: "map_option rt_current_thread booting = Some None"
  "booting \<bind> rt_system_scheduler_start \<noteq> None"
  by code_simp+

lemma booting_reachable:
  assumes "booting = Some s"
  shows "reachable cb s"
proof -
  obtain x1 x2 x3 x4 x5 x6 x7 x8 where
    "rt_thread_init 1 10 5 zero_kernel = Some x1" "rt_thread_startup 1 (snd x1) = Some x2"
    "rt_thread_init 2 20 5 (snd x2) = Some x3" "rt_thread_startup 2 (snd x3) = Some x4"
    "rt_thread_init 3 10 5 (snd x4) = Some x5" "rt_thread_startup 3 (snd x5) = Some x6"
    "rt_sem_init 0 1 1 (snd x6) = Some x7" "rt_mutex_init 0 1 (snd x7) = Some x8" "s = snd x8"
    using assms by (simp only: booting_def bindE split_def option.inject) blast
  then have "kcall zero_kernel (snd x1)" "kcall (snd x1) (snd x2)" "kcall (snd x2) (snd x3)"
    "kcall (snd x3) (snd x4)" "kcall (snd x4) (snd x5)" "kcall (snd x5) (snd x6)"
    "kcall (snd x6) (snd x7)" "kcall (snd x7) s"
    by (metis kcall.intros prod.collapse)+
  then show ?thesis
    using reachable.start [OF power_on_zero, of cb] reachable_call by metis
qed

lemma booted_reachable: "reachable cb booted"
proof -
  obtain s where s: "booting = Some s" "rt_current_thread s = None"
    using booting_runs(1) by auto
  have "rt_system_scheduler_start s = Some booted"
    using booting_runs(2) unfolding booted_def s(1) bind.bind_lunit by simp
  then show ?thesis
    using booting_reachable [OF s(1)] s(2) by (blast intro: reachable_call k_scheduler_start)
qed

lemma acts_by_calls_skip: "acts_by_calls (\<lambda>_. Some)"
  by (simp add: acts_by_calls_def)


end
