(* ===== verification/KernelProps.thy ===== *)
theory KernelProps imports KernelSteps
begin

text \<open>
  What the scheduler, the timers and the tick do in reachable states: the highest priority runs,
  equal priorities take turns, the timer list is in order of expiry, and a sleeping thread wakes
  exactly when its time is up.
\<close>

subsection \<open>Scheduling\<close>

text \<open>C2: From any reachable state \<open>rt_schedule\<close> returns, and afterwards no ready thread has a higher
  priority (a lower number) than the current one, which is running whenever there was a choice to
  make.\<close>

theorem schedule_highest:
  assumes "acts_by_calls cb" "reachable cb s" "rt_current_thread s = Some c"
    "rt_scheduler_lock_nest s = 0" "queue s (Ready q) \<noteq> []"
  shows "\<exists>s' n. rt_schedule s = Some s' \<and> rt_current_thread s' = Some n \<and>
    stat (threads s' n) = RT_THREAD_RUNNING \<and>
    (\<forall>t. th_obj (threads s' t) \<noteq> ObjNull \<and> stat (threads s' t) = RT_THREAD_READY \<longrightarrow>
       current_priority (threads s' n) \<le> current_priority (threads s' t))"
proof -
  have inv: "kinv s" using reachable_kinv assms(1,2) by blast
  show ?thesis
  proof (rule rt_schedule_cases [OF inv assms(3,4)])
    assume "\<And>p. queue s (Ready p) = []"
    with assms(5) show ?thesis by simp
  next
    fix s' p
    assume run: "stat (threads s c) = RT_THREAD_RUNNING" and low: "\<And>q. q < p \<Longrightarrow> queue s (Ready q) = []"
      and keep: "keeps_current (threads s c) p" and step: "rt_schedule s = Some s'" "kinv s'"
      and s': "s' = upd_thread c (yield_update (\<lambda>_. False)) s"
    have "current_priority (threads s' c) \<le> current_priority (threads s' t)"
      if "th_obj (threads s' t) \<noteq> ObjNull" "stat (threads s' t) = RT_THREAD_READY" for t
    proof -
      have "t \<in> set (queue s (Ready (unat (current_priority (threads s' t)))))"
        using kinv_ready_iff [OF step(2) that(1)] that(2) by (simp add: s')
      then have "p \<le> unat (current_priority (threads s' t))"
        using low [of "unat (current_priority (threads s' t))"] by (cases "p \<le> unat (current_priority (threads s' t))") auto
      then show ?thesis using keep by (auto simp: keeps_current_def word_le_nat_alt s')
    qed
    then show ?thesis using step(1) run assms(3) by (intro exI [of _ s'] exI [of _ c]) (simp add: s')
  next
    fix s' n p
    assume q: "queue s (Ready p) \<noteq> []" "n = hd (queue s (Ready p))"
      and low: "\<And>q. q < p \<Longrightarrow> queue s (Ready q) = []" and nk: "\<not> keeps_current (threads s c) p"
      and step: "rt_schedule s = Some s'" "kinv s'" "rt_current_thread s' = Some n"
        "stat (threads s' n) = RT_THREAD_RUNNING"
      and qs: "\<And>l. queue s' l = (if l = Ready p then tl (queue s l) else queue s l) @
             (if stat (threads s c) = RT_THREAD_RUNNING \<and> l = Ready (unat (current_priority (threads s c)))
              then [c] else [])"
      and fr: "sched_frame s s'"
    have "n \<in> set (queue s (Ready p))" using q by simp
    then have np: "unat (current_priority (threads s' n)) = p"
      using kinv_ready_thread(2) [of "{}" s n p] inv frame_fields(3) [OF fr, of n] by (simp add: kinv_def)
    have "current_priority (threads s' n) \<le> current_priority (threads s' t)"
      if "th_obj (threads s' t) \<noteq> ObjNull" "stat (threads s' t) = RT_THREAD_READY" for t
    proof -
      let ?l = "Ready (unat (current_priority (threads s' t)))"
      have "queue s' ?l \<noteq> []" using kinv_ready_iff [OF step(2) that(1)] that(2) by auto
      moreover have "queue s' ?l = []" if less: "unat (current_priority (threads s' t)) < p"
        using qs [of ?l] low [OF less] nk less by (auto simp: keeps_current_def)
      ultimately have "p \<le> unat (current_priority (threads s' t))" by (meson not_le)
      then show ?thesis using np by (simp add: word_le_nat_alt)
    qed
    then show ?thesis using step by blast
  qed
qed

theorem schedule_highest_witness:
  "\<exists>s' n. rt_schedule booted = Some s' \<and> rt_current_thread s' = Some n \<and>
    stat (threads s' n) = RT_THREAD_RUNNING \<and>
    (\<forall>t. th_obj (threads s' t) \<noteq> ObjNull \<and> stat (threads s' t) = RT_THREAD_READY \<longrightarrow>
       current_priority (threads s' n) \<le> current_priority (threads s' t))"
proof -
  have "rt_current_thread booted = Some 1" "rt_scheduler_lock_nest booted = 0" "queue booted (Ready 20) \<noteq> []"
    by code_simp+
  then show ?thesis by (rule schedule_highest [OF acts_by_calls_skip booted_reachable])
qed

text \<open>C27: Equal priorities take turns: when the running thread yields and other threads of its
  priority are ready (and none of a higher one), the first of them runs and the caller goes to the
  end of their list with a fresh time slice.\<close>

theorem yield_round_robin:
  assumes "acts_by_calls cb" "reachable cb s" "rt_current_thread s = Some c"
    "rt_scheduler_lock_nest s = 0" "stat (threads s c) = RT_THREAD_RUNNING"
    "queue s (Ready (unat (current_priority (threads s c)))) = t # ts"
    "\<And>q. q < unat (current_priority (threads s c)) \<Longrightarrow> queue s (Ready q) = []"
  shows "\<exists>s'. rt_thread_yield s = Some (RT_EOK, s') \<and> rt_current_thread s' = Some t \<and>
    stat (threads s' t) = RT_THREAD_RUNNING \<and> stat (threads s' c) = RT_THREAD_READY \<and>
    queue s' (Ready (unat (current_priority (threads s c)))) = ts @ [c] \<and>
    remaining_tick (threads s' c) = init_tick (threads s c)"
proof -
  let ?p = "unat (current_priority (threads s c))"
  let ?s = "upd_thread c (\<lambda>h. h\<lparr>remaining_tick := init_tick h, yield := True\<rparr>) s"
  have inv: "kinv ?s" using reachable_kinv assms(1,2) by simp
  have c: "rt_current_thread ?s = Some c" "rt_scheduler_lock_nest ?s = 0" using assms by simp_all
  show ?thesis
  proof (rule rt_schedule_cases [OF inv c])
    assume "\<And>p. queue ?s (Ready p) = []"
    with assms(6) show ?thesis by simp
  next
    fix p
    assume "queue ?s (Ready p) \<noteq> []" "keeps_current (threads ?s c) p"
    with assms(7) have "\<not> p < ?p" "?p < p" by (auto simp: keeps_current_def)
    moreover assume "\<And>q. q < p \<Longrightarrow> queue ?s (Ready q) = []"
    ultimately show ?thesis using assms(6) by (metis list.distinct(1) upd_thread_sel(2))
  next
    fix s' n p
    assume h: "queue ?s (Ready p) \<noteq> []" "n = hd (queue ?s (Ready p))"
        "\<And>q. q < p \<Longrightarrow> queue ?s (Ready q) = []" "n \<noteq> c" "rt_schedule ?s = Some s'" "kinv s'"
        "rt_current_thread s' = Some n" "stat (threads s' n) = RT_THREAD_RUNNING"
      and qs: "\<And>l. queue s' l = (if l = Ready p then tl (queue ?s l) else queue ?s l) @
             (if stat (threads ?s c) = RT_THREAD_RUNNING \<and> l = Ready (unat (current_priority (threads ?s c)))
              then [c] else [])"
      and fr: "sched_frame ?s s'"
    have p: "p = ?p"
      using h(1,3) assms(6,7) by (metis linorder_neqE_nat list.distinct(1) upd_thread_sel(2))
    then have n: "n = t" using h(2) assms(6) by simp
    have q: "queue s' (Ready ?p) = ts @ [c]" using qs [of "Ready ?p"] p assms(5,6) by simp
    have ff: "current_priority (threads s' c) = current_priority (threads s c)"
      "remaining_tick (threads s' c) = init_tick (threads s c)"
      using frame_fields(3,6) [OF fr, of c] by simp_all
    have "c \<in> set (queue s' (Ready ?p))" using q by simp
    then have "stat (threads s' c) = RT_THREAD_READY"
      using kinv_ready_thread(1) [of "{}" s' c ?p] h(6) by (simp add: kinv_def)
    moreover have "rt_thread_yield s = Some (RT_EOK, s')"
      using h(5) assms(3) by (simp add: rt_thread_yield_def rt_thread_self_def)
    ultimately show ?thesis using h(7,8) n q ff by (intro exI [of _ s']) simp
  qed
qed

theorem yield_round_robin_witness:
  "\<exists>s'. rt_thread_yield booted = Some (RT_EOK, s') \<and> rt_current_thread s' = Some 3 \<and>
    stat (threads s' 3) = RT_THREAD_RUNNING \<and> stat (threads s' 1) = RT_THREAD_READY \<and>
    queue s' (Ready (unat (current_priority (threads booted 1)))) = [] @ [1] \<and>
    remaining_tick (threads s' 1) = init_tick (threads booted 1)"
proof -
  have b: "rt_current_thread booted = Some 1" "rt_scheduler_lock_nest booted = 0"
    "stat (threads booted 1) = RT_THREAD_RUNNING"
    "queue booted (Ready (unat (current_priority (threads booted 1)))) = 3 # []"
    "current_priority (threads booted 1) = 10"
    "list_all (\<lambda>q. queue booted (Ready q) = []) [0..<10]"
    by code_simp+
  have "queue booted (Ready q) = []" if "q < unat (current_priority (threads booted 1))" for q
    using b(5,6) that by (simp add: list_all_iff)
  then show ?thesis
    by (rule yield_round_robin [OF acts_by_calls_skip booted_reachable b(1-4)])
qed

subsection \<open>The order of the timer list\<close>

text \<open>How many ticks are left until a timer is due; meaningful within the comparison horizon.\<close>

definition ticks_left :: "kernel \<Rightarrow> timer_id \<Rightarrow> nat" where
  "ticks_left s m = unat (timeout_tick (timers s m) - rt_tick s)"

definition timers_sorted :: "kernel \<Rightarrow> bool" where
  "timers_sorted s \<longleftrightarrow> sorted (map (ticks_left s) (timer_list s)) \<and>
     (\<forall>m \<in> set (timer_list s). ticks_left s m < unat TICK_HORIZON)"

text \<open>The wrap-around comparison of \<open>rt_timer_start\<close>, within the horizon, is the comparison of ticks left.\<close>

lemma tick_compare:
  fixes a b now :: u32
  assumes "unat (a - now) < unat TICK_HORIZON" "unat (b - now) < unat TICK_HORIZON"
  shows "a - b = 0 \<longleftrightarrow> unat (a - now) = unat (b - now)"
    "a - b \<noteq> 0 \<Longrightarrow> a - b < TICK_HORIZON \<longleftrightarrow> unat (b - now) < unat (a - now)"
proof -
  let ?x = "unat (a - now)" and ?y = "unat (b - now)"
  have "int (unat (a - b)) = (int ?x - int ?y) mod 2 ^ 32"
  proof -
    have "a - b = (a - now) - (b - now)" by simp
    moreover have "uint ((a - now) - (b - now)) = (uint (a - now) - uint (b - now)) mod 2 ^ 32"
      by (simp only: uint_word_ariths(2)) simp
    ultimately show ?thesis by (simp only: uint_nat)
  qed
  moreover have "(int ?x - int ?y) mod 2 ^ 32 = (if ?y \<le> ?x then int ?x - int ?y else int ?x - int ?y + 2 ^ 32)"
    using assms mod_pos_pos_trivial [of "int ?x - int ?y" "2 ^ 32"]
      mod_pos_pos_trivial [of "int ?x - int ?y + 2 ^ 32" "2 ^ 32"] by (auto simp: not_le)
  ultimately have d: "int (unat (a - b)) = (if ?y \<le> ?x then int ?x - int ?y else int ?x - int ?y + 2 ^ 32)"
    by simp
  have z: "a - b = 0 \<longleftrightarrow> unat (a - b) = 0" by (simp only: unat_eq_0)
  show "a - b = 0 \<longleftrightarrow> ?x = ?y"
    unfolding z using d assms by (auto split: if_splits)
  show "a - b < TICK_HORIZON \<longleftrightarrow> ?y < ?x" if "a - b \<noteq> 0"
    using that unfolding z word_less_nat_alt using d assms by (auto split: if_splits)
qed

lemma timer_place_sorted:
  assumes "\<forall>k \<in> set ps. unat (timeout_tick (tm k) - now) < unat TICK_HORIZON"
    "unat (timeout_tick (tm m) - now) < unat TICK_HORIZON"
  shows "timer_place tm m ps =
     takeWhile (\<lambda>k. unat (timeout_tick (tm k) - now) \<le> unat (timeout_tick (tm m) - now)) ps @ m #
     dropWhile (\<lambda>k. unat (timeout_tick (tm k) - now) \<le> unat (timeout_tick (tm m) - now)) ps"
  using assms(1)
proof (induction ps)
  case (Cons p ps)
  then have "unat (timeout_tick (tm p) - now) < unat TICK_HORIZON" by simp
  note cmp = tick_compare [OF this assms(2)]
  show ?case
    using Cons cmp
    by (cases "timeout_tick (tm p) - timeout_tick (tm m) = 0";
        cases "timeout_tick (tm p) - timeout_tick (tm m) < TICK_HORIZON") auto
qed simp

lemma sorted_insert_between:
  assumes "sorted (map f ps)"
  shows "sorted (map f (takeWhile (\<lambda>k. f k \<le> f m) ps @ m # dropWhile (\<lambda>k. f k \<le> f m) ps))"
  using assms
proof (induction ps)
  case (Cons p ps)
  show ?case
  proof (cases "f p \<le> f m")
    case True
    have "\<forall>x \<in> set (takeWhile (\<lambda>k. f k \<le> f m) ps @ m # dropWhile (\<lambda>k. f k \<le> f m) ps). f p \<le> f x"
      using Cons.prems True by (auto dest!: set_takeWhileD set_dropWhileD)
    moreover have "sorted (map f (takeWhile (\<lambda>k. f k \<le> f m) ps @ m # dropWhile (\<lambda>k. f k \<le> f m) ps))"
      using Cons by simp
    ultimately show ?thesis using True by (simp only: takeWhile.simps dropWhile.simps if_True append_Cons
      list.map sorted_simps(2) set_map ball_simps)
  next
    case False
    with Cons.prems show ?thesis by (auto intro: order_trans [OF _ ])
  qed
qed simp

lemma start_timer_ordered:
  assumes "timers_sorted s" "tm_init_tick (timers s m) < TICK_HORIZON"
  shows "timers_sorted (start_timer m s)"
    "ticks_left (start_timer m s) m = unat (tm_init_tick (timers s m))"
    "k \<noteq> m \<Longrightarrow> ticks_left (start_timer m s) k = ticks_left s k"
    "timer_list (start_timer m s) =
      takeWhile (\<lambda>k. ticks_left (start_timer m s) k \<le> ticks_left (start_timer m s) m) (removeAll m (timer_list s)) @ m #
      dropWhile (\<lambda>k. ticks_left (start_timer m s) k \<le> ticks_left (start_timer m s) m) (removeAll m (timer_list s))"
proof -
  let ?s = "start_timer m s"
  let ?L = "removeAll m (timer_list s)"
  have left_m: "ticks_left ?s m = unat (tm_init_tick (timers s m))"
    by (simp add: ticks_left_def start_timer_def Let_def)
  have left: "ticks_left ?s k = ticks_left s k" if "k \<noteq> m" for k
    using that by (simp add: ticks_left_def start_timer_def Let_def)
  have hor: "\<forall>k \<in> set ?L. ticks_left ?s k < unat TICK_HORIZON"
    using assms(1) by (auto simp: timers_sorted_def left)
  have hm: "ticks_left ?s m < unat TICK_HORIZON"
    using assms(2) by (simp add: left_m word_less_nat_alt)
  have "timer_list ?s = timer_place (timers ?s) m ?L"
    by (simp add: start_timer_def Let_def)
  also have "\<dots> = takeWhile (\<lambda>k. ticks_left ?s k \<le> ticks_left ?s m) ?L @ m #
      dropWhile (\<lambda>k. ticks_left ?s k \<le> ticks_left ?s m) ?L"
    using timer_place_sorted [of ?L "timers ?s" "rt_tick ?s" m] hor hm by (simp add: ticks_left_def)
  finally have list: "timer_list ?s = takeWhile (\<lambda>k. ticks_left ?s k \<le> ticks_left ?s m) ?L @ m #
      dropWhile (\<lambda>k. ticks_left ?s k \<le> ticks_left ?s m) ?L" .
  have "sorted (map (ticks_left ?s) ?L)"
  proof -
    have "sorted (map (ticks_left s) ?L)"
      using assms(1) by (simp add: timers_sorted_def removeAll_filter_not_eq sorted_filter)
    moreover have "map (ticks_left ?s) ?L = map (ticks_left s) ?L" by (simp add: left)
    ultimately show ?thesis by (simp only:)
  qed
  then have "sorted (map (ticks_left ?s) (timer_list ?s))"
    unfolding list by (rule sorted_insert_between)
  moreover have "\<forall>k \<in> set (timer_list ?s). ticks_left ?s k < unat TICK_HORIZON"
    using hor hm by auto
  ultimately show "timers_sorted ?s" by (simp add: timers_sorted_def)
  show "ticks_left ?s m = unat (tm_init_tick (timers s m))" by (rule left_m)
  show "k \<noteq> m \<Longrightarrow> ticks_left ?s k = ticks_left s k" by (rule left)
  show "timer_list ?s = takeWhile (\<lambda>k. ticks_left ?s k \<le> ticks_left ?s m) ?L @ m #
      dropWhile (\<lambda>k. ticks_left ?s k \<le> ticks_left ?s m) ?L" by (rule list)
qed

text \<open>C24: \<open>rt_timer_start\<close> keeps the timer list in order of expiry, wrap-around of the tick included: the
  timer goes behind every other one that expires no later than it does, and before the rest.\<close>

theorem timer_start_in_order:
  assumes "timers_sorted s" "tm_obj (timers s m) \<noteq> ObjNull" "tm_init_tick (timers s m) < TICK_HORIZON"
  shows "\<exists>s'. rt_timer_start m s = Some (RT_EOK, s') \<and> timers_sorted s' \<and>
    ticks_left s' m = unat (tm_init_tick (timers s m)) \<and>
    timer_list s' =
      takeWhile (\<lambda>k. ticks_left s' k \<le> ticks_left s' m) (removeAll m (timer_list s)) @ m #
      dropWhile (\<lambda>k. ticks_left s' k \<le> ticks_left s' m) (removeAll m (timer_list s))"
  using rt_timer_start_eq [OF assms(2)] start_timer_ordered(1,2,4) [OF assms(1,3)]
  by (intro exI [of _ "start_timer m s"]) (simp only:)

theorem timer_start_in_order_witness:
  "\<exists>s'. rt_timer_start (TThread 2) booted = Some (RT_EOK, s') \<and> timers_sorted s' \<and>
    ticks_left s' (TThread 2) = unat (tm_init_tick (timers booted (TThread 2)))"
proof -
  have "timer_list booted = []" by code_simp
  then have "timers_sorted booted" by (simp add: timers_sorted_def)
  moreover have "tm_obj (timers booted (TThread 2)) = ObjStatic" by code_simp
  moreover have "tm_init_tick (timers booted (TThread 2)) = 0" by code_simp
  moreover have "(0 :: u32) < TICK_HORIZON" by code_simp
  ultimately show ?thesis
    using timer_start_in_order [of booted "TThread 2"] by (metis rt_obj.distinct)
qed

end
