(* ===== verification/TimerProps.thy ===== *)
theory TimerProps imports KernelProps
begin

text \<open>
  The tick: which timers \<open>rt_timer_check\<close> expires, that it returns, and that a sleeping thread wakes
  exactly when its time is up.
\<close>

subsection \<open>Runnable threads stay runnable\<close>

definition runnable :: "kernel \<Rightarrow> tid \<Rightarrow> bool" where
  "runnable s t \<longleftrightarrow> th_obj (threads s t) \<noteq> ObjNull \<and>
     (stat (threads s t) = RT_THREAD_READY \<or> stat (threads s t) = RT_THREAD_RUNNING)"

lemma schedule_runnable:
  assumes "rt_schedule s = Some s'" "kinv s" "rt_current_thread s = Some c" "runnable s t"
  shows "runnable s' t"
proof (cases "rt_scheduler_lock_nest s = 0")
  case False
  then show ?thesis using assms by (simp add: rt_schedule_def)
next
  case True
  show ?thesis
  proof (rule rt_schedule_cases [OF assms(2,3) True])
    assume "rt_schedule s = Some s"
    then show ?thesis using assms by simp
  next
    fix s'' p
    assume "rt_schedule s = Some s''" "s'' = upd_thread c (yield_update (\<lambda>_. False)) s"
    then show ?thesis using assms by (auto simp: runnable_def)
  next
    fix s'' n p
    assume q: "n = hd (queue s (Ready p))" "queue s (Ready p) \<noteq> []"
      and step: "rt_schedule s = Some s''" "kinv s''" "stat (threads s'' n) = RT_THREAD_RUNNING"
      and qs: "\<And>l. queue s'' l = (if l = Ready p then tl (queue s l) else queue s l) @
             (if stat (threads s c) = RT_THREAD_RUNNING \<and> l = Ready (unat (current_priority (threads s c)))
              then [c] else [])"
      and fr: "sched_frame s s''"
    have e: "s'' = s'" using step assms(1) by simp
    have reg: "th_obj (threads s' t) \<noteq> ObjNull"
      using frame_fields(2) [OF fr, of t] assms(4) by (simp add: runnable_def e)
    let ?l = "Ready (unat (current_priority (threads s t)))"
    have prio: "current_priority (threads s' t) = current_priority (threads s t)"
      using frame_fields(3) [OF fr, of t] by (simp add: e)
    have inv: "kinv_but {} s" using assms(2) by (simp add: kinv_def)
    have "t = n \<or> t \<in> set (queue s' ?l)"
    proof (cases "stat (threads s t) = RT_THREAD_READY")
      case True
      then have "t \<in> set (queue s ?l)"
        using kinv_ready_iff [OF assms(2), of t] assms(4) by (simp add: runnable_def)
      then show ?thesis
        using qs [of ?l] q by (cases "queue s (Ready p)") (auto simp: e split: if_splits)
    next
      case False
      then have run: "stat (threads s t) = RT_THREAD_RUNNING" using assms(4) by (simp add: runnable_def)
      then have "t = c"
        using kinv_thread [OF inv, of t] assms(3,4)
        by (auto simp: thread_ok_def place_ok_def runnable_def Let_def)
      then show ?thesis using qs [of ?l] run by (simp add: e)
    qed
    then show ?thesis
      using step(3) kinv_ready_iff [of s' t] step(2) reg prio by (auto simp: runnable_def e)
  qed
qed

definition still_suspended :: "kernel \<Rightarrow> kernel \<Rightarrow> tid \<Rightarrow> bool" where
  "still_suspended s s' t \<longleftrightarrow> stat (threads s' t) = RT_THREAD_SUSPEND \<and>
     tlist (threads s' t) = tlist (threads s t)"

subsection \<open>A thread's timer expires\<close>

text \<open>What an expiry of the timer of \<open>t\<close> does to the rest of the system.\<close>

definition woken_by_timer :: "tid \<Rightarrow> kernel \<Rightarrow> kernel \<Rightarrow> bool" where
  "woken_by_timer t s s' \<longleftrightarrow> runnable s' t \<and> error (threads s' t) = - RT_ETIMEOUT \<and>
     (\<forall>u. u \<noteq> t \<longrightarrow> error (threads s' u) = error (threads s u) \<and>
        (runnable s u \<longrightarrow> runnable s' u) \<and>
        (stat (threads s u) = RT_THREAD_SUSPEND \<longrightarrow> still_suspended s s' u))"

lemma thread_timeout_wakes:
  assumes "kinv s" "stat (threads s t) = RT_THREAD_SUSPEND" "th_obj (threads s t) \<noteq> ObjNull"
    "TThread t \<notin> set (timer_list s)" "rt_current_thread s \<noteq> None"
  shows "\<exists>s'. thread_timeout t s = Some s' \<and> kinv s' \<and> rt_current_thread s' \<noteq> None \<and>
    timers s' = timers s \<and> timer_list s' = timer_list s \<and> expired s' = expired s \<and>
    rt_tick s' = rt_tick s \<and> woken_by_timer t s s'"
proof -
  let ?e = "upd_thread t (error_update (\<lambda>_. - RT_ETIMEOUT)) s"
  let ?w = "made_ready t (list_remove t ?e)"
  have "kinv ?e" using assms(1) by simp
  note w = kinv_wake [OF this, of t]
  have w1: "rt_schedule_insert_thread t (list_remove t ?e) = Some ?w" "kinv ?w"
    using w assms(2-4) by simp_all
  have cur: "rt_current_thread ?w = rt_current_thread s" by simp
  obtain c where c: "rt_current_thread ?w = Some c" using assms(5) by auto
  obtain s' where s': "rt_schedule ?w = Some s'" "kinv s'" "sched_frame ?w s'" "rt_current_thread s' \<noteq> None"
    using kinv_schedule [OF w1(2)] c by blast
  have step: "thread_timeout t s = Some s'"
    using assms(2,3) w1(1) s'(1) by (simp add: thread_timeout_def Let_def)
  have rt: "runnable ?w t" using assms(3) by (simp add: runnable_def)
  have ru: "runnable s u \<Longrightarrow> runnable ?w u" if "u \<noteq> t" for u
    using that by (simp add: runnable_def)
  have "woken_by_timer t s s'"
    unfolding woken_by_timer_def
  proof (intro conjI allI impI)
    show "runnable s' t" by (rule schedule_runnable [OF s'(1) w1(2) c rt])
    show "error (threads s' t) = - RT_ETIMEOUT" using frame_fields(1) [OF s'(3), of t] by simp
    fix u assume u: "u \<noteq> t"
    show "error (threads s' u) = error (threads s u)" using frame_fields(1) [OF s'(3), of u] u by simp
    show "runnable s' u" if "runnable s u" by (rule schedule_runnable [OF s'(1) w1(2) c ru [OF u that]])
    show "still_suspended s s' u" if "stat (threads s u) = RT_THREAD_SUSPEND"
      using frame_thread [OF s'(3), of u] u that by (simp add: still_suspended_def)
  qed
  then show ?thesis
    using step s' frame_fields(8-11) [OF s'(3)] by (intro exI [of _ s']) simp
qed

text \<open>The timers at the front of the list whose tick has come are the ones that expire.\<close>

definition due :: "kernel \<Rightarrow> timer_id \<Rightarrow> bool" where
  "due s m \<longleftrightarrow> rt_tick s - timeout_tick (timers s m) < TICK_HORIZON"

definition expired_all :: "tid set \<Rightarrow> kernel \<Rightarrow> kernel \<Rightarrow> bool" where
  "expired_all ds s s' \<longleftrightarrow>
     (\<forall>t. if t \<in> ds then runnable s' t \<and> error (threads s' t) = - RT_ETIMEOUT
      else error (threads s' t) = error (threads s t) \<and> (runnable s t \<longrightarrow> runnable s' t) \<and>
        (stat (threads s t) = RT_THREAD_SUSPEND \<longrightarrow> still_suspended s s' t))"

lemma expired_all_step:
  assumes "woken_by_timer t s s1" "expired_all ds s2 s'" "threads s2 = threads s1" "t \<notin> ds"
  shows "expired_all (insert t ds) s s'"
  unfolding expired_all_def
proof (intro allI)
  fix u
  have r: "runnable s2 u = runnable s1 u" "still_suspended s2 s' u = still_suspended s1 s' u"
    using assms(3) by (simp_all add: runnable_def still_suspended_def)
  show "if u \<in> insert t ds then runnable s' u \<and> error (threads s' u) = - RT_ETIMEOUT
      else error (threads s' u) = error (threads s u) \<and> (runnable s u \<longrightarrow> runnable s' u) \<and>
        (stat (threads s u) = RT_THREAD_SUSPEND \<longrightarrow> still_suspended s s' u)"
    using assms(1) assms(2) [unfolded expired_all_def, rule_format, of u] assms(4) r
    unfolding woken_by_timer_def assms(3)
    by (cases "u = t"; cases "u \<in> ds") (auto simp: still_suspended_def)
qed

lemma check_loop_expires:
  assumes "kinv s" "rt_current_thread s \<noteq> None" "timer_list s = map TThread ds @ rs"
    "\<forall>t \<in> set ds. due s (TThread t)" "rs = [] \<or> \<not> due s (hd rs)"
  shows "\<exists>s'. timer_check_loop (fire cb) (rt_tick s) s = Some s' \<and> kinv s' \<and>
    rt_current_thread s' \<noteq> None \<and> timer_list s' = rs \<and> rt_tick s' = rt_tick s \<and>
    (\<forall>m. timeout_tick (timers s' m) = timeout_tick (timers s m)) \<and> expired_all (set ds) s s'"
  using assms
proof (induction ds arbitrary: s)
  case Nil
  then have "timer_check_loop (fire cb) (rt_tick s) s = Some s"
    by (cases rs) (auto simp: timer_check_loop.simps due_def)
  then show ?case using Nil by (intro exI [of _ s]) (simp add: expired_all_def still_suspended_def)
next
  case (Cons t ds)
  let ?m = "TThread t"
  let ?s1 = "(deactivate ?m (timer_remove ?m s))\<lparr>expired := ?m # expired (timer_remove ?m s)\<rparr>"
  have dist: "distinct (timer_list s)"
    using Cons.prems(1) by (simp add: kinv_def kinv_but_def timers_ok_def)
  have list: "timer_list (timer_remove ?m s) = map TThread ds @ rs"
    using Cons.prems(3) dist by (auto simp: timer_remove_def removeAll_id)
  note t = kinv_listed_thread [OF Cons.prems(1), of t]
  have inv1: "kinv ?s1"
    using kinv_unlist [OF Cons.prems(1), of ?m] kinv_deactivate_unlisted [of "timer_remove ?m s" ?m] by simp
  have th1: "threads ?s1 = threads s" "rt_current_thread ?s1 = rt_current_thread s"
    "timer_list ?s1 = map TThread ds @ rs" "rt_tick ?s1 = rt_tick s"
    using list by (simp_all add: deactivate_def timer_remove_def)
  have "?m \<notin> set (timer_list ?s1)" by (simp add: deactivate_def timer_remove_def)
  then obtain s2 where s2: "thread_timeout t ?s1 = Some s2" "kinv s2" "rt_current_thread s2 \<noteq> None"
      "timers s2 = timers ?s1" "timer_list s2 = timer_list ?s1" "expired s2 = expired ?s1"
      "rt_tick s2 = rt_tick s" "woken_by_timer t ?s1 s2"
    using thread_timeout_wakes [OF inv1, of t] t Cons.prems(2,3) th1 by auto
  let ?s3 = "timer_remove ?m s2"
  have tick: "timeout_tick (timers ?s3 m) = timeout_tick (timers s m)" for m
    using s2(4) by (simp add: timer_remove_def deactivate_def)
  have list3: "timer_list ?s3 = map TThread ds @ rs"
    using s2(5) th1(3) dist Cons.prems(3) by (auto simp: timer_remove_def removeAll_id)
  have tick3: "rt_tick ?s3 = rt_tick s" using s2(7) by (simp add: timer_remove_def)
  have due3: "due ?s3 m = due s m" for m by (simp add: due_def tick tick3)
  obtain s' where s': "timer_check_loop (fire cb) (rt_tick ?s3) ?s3 = Some s'" "kinv s'"
    "rt_current_thread s' \<noteq> None" "timer_list s' = rs" "rt_tick s' = rt_tick ?s3"
    "\<forall>m. timeout_tick (timers s' m) = timeout_tick (timers ?s3 m)" "expired_all (set ds) ?s3 s'"
    using Cons.IH [of ?s3] kinv_unlist [OF s2(2), of ?m] s2(3) list3 Cons.prems(4,5)
    by (auto simp: due3) (auto simp: timer_remove_def)
  have "timer_check_loop (fire cb) (rt_tick s) s = Some s'"
  proof -
    have "\<not> activated (timers ?s3 ?m)" using s2(4) by (simp add: timer_remove_def deactivate_def)
    moreover have "expired s2 \<noteq> []" using s2(6) by simp
    moreover have "rt_tick s - timeout_tick (timers s ?m) < TICK_HORIZON"
      using Cons.prems(4) by (simp add: due_def)
    moreover have "\<not> periodic (timers (timer_remove ?m s) ?m)"
      using t(1) Cons.prems(3) by (simp add: timer_remove_def)
    moreover have "expired (deactivate ?m x) = expired x" for x by (simp add: deactivate_def)
    ultimately show ?thesis
      using Cons.prems(3) s2(1,7) s'(1) tick3
      by (subst timer_check_loop.simps) (simp add: Let_def)
  qed
  moreover have "expired_all (set (t # ds)) s s'"
  proof -
    have "woken_by_timer t s s2" using s2(8) unfolding woken_by_timer_def runnable_def still_suspended_def th1(1) .
    moreover have "threads ?s3 = threads s2" by (simp add: timer_remove_def)
    moreover have "t \<notin> set ds" using dist Cons.prems(3) by auto
    ultimately show ?thesis using expired_all_step s'(7) by (simp only: list.set)
  qed
  ultimately show ?case using s' tick tick3 by (intro exI [of _ s']) simp
qed

subsection \<open>One tick\<close>

lemma one_minus_mod:
  fixes n :: int
  assumes "0 \<le> n" "n < 2147483647"
  shows "(1 - n) mod 2 ^ 32 = (if n \<le> 1 then 1 - n else 4294967297 - n)"
proof (cases "n \<le> 1")
  case True
  then show ?thesis using assms by (simp add: mod_pos_pos_trivial)
next
  case False
  have "(1 - n) mod 2 ^ 32 = (1 - n + 2 ^ 32) mod 2 ^ 32" by (rule mod_add_self2 [symmetric])
  then show ?thesis using False assms by (simp add: mod_pos_pos_trivial)
qed

lemma due_after_tick:
  assumes "ticks_left s m < unat TICK_HORIZON" "rt_tick s1 = rt_tick s + 1"
    "timeout_tick (timers s1 m) = timeout_tick (timers s m)"
  shows "due s1 m \<longleftrightarrow> ticks_left s m \<le> 1"
    "1 \<le> ticks_left s m \<Longrightarrow> ticks_left s1 m = ticks_left s m - 1"
proof -
  define x where "x = timeout_tick (timers s m) - rt_tick s"
  have x: "unat x < 2147483647" "ticks_left s m = unat x"
    using assms(1) by (simp_all add: ticks_left_def x_def)
  have e: "rt_tick s1 - timeout_tick (timers s1 m) = 1 - x" using assms by (simp add: x_def)
  have u: "uint (1 - x) = (1 - uint x) mod 2 ^ 32"
    by (simp only: uint_word_ariths(2)) simp
  have lt: "uint x < 2147483647" using x(1) by (simp only: uint_nat)
  have cases: "uint (1 - x) = (if uint x \<le> 1 then 1 - uint x else 4294967297 - uint x)"
    unfolding u by (rule one_minus_mod [OF uint_ge_0 lt])
  show "due s1 m \<longleftrightarrow> ticks_left s m \<le> 1"
    using cases x unfolding due_def e word_less_nat_alt unat_TICK_HORIZON
    by (simp only: uint_nat split: if_splits) linarith+
  show "ticks_left s1 m = ticks_left s m - 1" if "1 \<le> ticks_left s m"
  proof -
    have "timeout_tick (timers s1 m) - rt_tick s1 = x - 1" using assms by (simp add: x_def)
    moreover have "unat (x - 1) = unat x - 1" using that x(2) by (intro unat_minus_one) auto
    ultimately show ?thesis using x(2) by (simp add: ticks_left_def)
  qed
qed

lemma expired_none_trans:
  "expired_all {} s s1 \<Longrightarrow> expired_all D s1 s2 \<Longrightarrow> expired_all D s s2"
  unfolding expired_all_def still_suspended_def by simp

lemma expired_none_schedule:
  assumes "rt_schedule s = Some s'" "kinv s" "rt_current_thread s = Some c"
  shows "expired_all {} s s'"
  unfolding expired_all_def
proof (intro allI)
  fix t
  have fr: "sched_frame s s'" using frame_schedule assms by blast
  have "stat (threads s t) = RT_THREAD_SUSPEND \<Longrightarrow> still_suspended s s' t"
    by (simp add: still_suspended_def frame_thread [OF fr, of t])
  then show "if t \<in> {} then runnable s' t \<and> error (threads s' t) = - RT_ETIMEOUT
      else error (threads s' t) = error (threads s t) \<and> (runnable s t \<longrightarrow> runnable s' t) \<and>
        (stat (threads s t) = RT_THREAD_SUSPEND \<longrightarrow> still_suspended s s' t)"
    using schedule_runnable [OF assms, of t] frame_fields(1) [OF fr, of t] by simp
qed

text \<open>What a tick does before it looks at the timers: count, and let the time slice run out.\<close>

lemma tick_slice:
  assumes "kinv s" "rt_current_thread s = Some c"
  shows "\<exists>s1. rt_tick_increase cb s = timer_check_loop (fire cb) (rt_tick s1) s1 \<and> kinv s1 \<and>
    rt_current_thread s1 \<noteq> None \<and> rt_tick s1 = rt_tick s + 1 \<and> timers s1 = timers s \<and>
    timer_list s1 = timer_list s \<and> expired_all {} s s1"
proof -
  let ?a = "upd_thread c (\<lambda>h. h\<lparr>remaining_tick := remaining_tick h - 1\<rparr>) (s\<lparr>rt_tick := rt_tick s + 1\<rparr>)"
  let ?b = "upd_thread c (\<lambda>h. h\<lparr>remaining_tick := init_tick h, yield := True\<rparr>) ?a"
  have inva: "kinv ?a" using assms(1) by simp
  have frame: "expired_all {} s ?a" "expired_all {} s ?b"
    by (auto simp: expired_all_def runnable_def still_suspended_def)
  have eq: "rt_tick_increase cb s =
      (if remaining_tick (threads ?a c) = 0 then rt_schedule ?b else Some ?a) \<bind> rt_timer_check (fire cb)"
    using assms(2) by (simp add: rt_tick_increase_def rt_thread_self_def Let_def)
  have fin: ?thesis
    if "kinv x" "rt_current_thread x \<noteq> None" "rt_tick x = rt_tick s + 1" "timers x = timers s"
      "timer_list x = timer_list s" "expired_all {} s x" "rt_tick_increase cb s = rt_timer_check (fire cb) x" for x
    using that by (intro exI [of _ "x\<lparr>expired := []\<rparr>"])
      (simp add: rt_timer_check_def expired_all_def runnable_def still_suspended_def)
  show ?thesis
  proof (cases "remaining_tick (threads ?a c) = 0")
    case False
    show ?thesis by (rule fin [of ?a]) (use False eq frame inva assms in simp_all)
  next
    case True
    have cb: "rt_current_thread ?b = Some c" "kinv ?b" using assms by simp_all
    then obtain x where x: "rt_schedule ?b = Some x" "kinv x" "sched_frame ?b x" "rt_current_thread x \<noteq> None"
      using kinv_schedule [of ?b] by blast
    have "expired_all {} s x"
      using frame(2) expired_none_schedule [OF x(1) cb(2,1)] by (rule expired_none_trans)
    then show ?thesis
      by (rule_tac fin [of x]) (use True eq x frame_fields(8-10) [OF x(3)] in simp_all)
  qed
qed

lemma sorted_split:
  "sorted (map f xs) \<Longrightarrow> xs = filter (\<lambda>x. f x \<le> k) xs @ filter (\<lambda>x. \<not> f x \<le> k) xs"
  for f :: "'a \<Rightarrow> nat"
proof (induction xs)
  case (Cons x xs)
  show ?case
  proof (cases "f x \<le> k")
    case False
    then have "\<forall>y \<in> set (x # xs). \<not> f y \<le> k" using Cons.prems by auto
    then have "filter (\<lambda>x. f x \<le> k) (x # xs) = []" "filter (\<lambda>x. \<not> f x \<le> k) (x # xs) = x # xs"
      unfolding filter_empty_conv filter_id_conv by blast+
    then show ?thesis by (simp only: append.simps)
  qed (use Cons in simp)
qed simp

lemma all_thread_timers:
  "set xs \<subseteq> range TThread \<Longrightarrow> \<exists>ts. xs = map TThread ts"
  by (induction xs) (auto, metis list.simps(9))

lemma sorted_map_pred: "sorted (map f xs) \<Longrightarrow> sorted (map (\<lambda>x. f x - 1) xs)" for f :: "'a \<Rightarrow> nat"
  by (induction xs) (auto intro: diff_le_mono)

text \<open>
  The states in which only threads' own timers run: the list is in order and within the horizon of
  the comparison.
\<close>

definition timed :: "kernel \<Rightarrow> bool" where
  "timed s \<longleftrightarrow> kinv s \<and> rt_current_thread s \<noteq> None \<and> timers_sorted s \<and>
     set (timer_list s) \<subseteq> range TThread"

lemma tick_step:
  assumes "timed s"
  shows "\<exists>s'. rt_tick_increase cb s = Some s' \<and> timed s' \<and> rt_tick s' = rt_tick s + 1 \<and>
    timer_list s' = filter (\<lambda>m. 1 < ticks_left s m) (timer_list s) \<and>
    (\<forall>m \<in> set (timer_list s'). ticks_left s' m = ticks_left s m - 1) \<and>
    expired_all {t. TThread t \<in> set (timer_list s) \<and> ticks_left s (TThread t) \<le> 1} s s'"
proof -
  note tm = assms [unfolded timed_def timers_sorted_def]
  let ?D = "filter (\<lambda>m. ticks_left s m \<le> 1) (timer_list s)"
  let ?R = "filter (\<lambda>m. \<not> ticks_left s m \<le> 1) (timer_list s)"
  have split: "timer_list s = ?D @ ?R" using tm by (intro sorted_split) blast
  obtain ds where ds: "?D = map TThread ds"
    using all_thread_timers [of ?D] tm by auto
  have setds: "set ds = {t. TThread t \<in> set (timer_list s) \<and> ticks_left s (TThread t) \<le> 1}"
    using arg_cong [OF ds, of set] by (auto simp: image_iff set_eq_iff)
  obtain c where c: "rt_current_thread s = Some c" using tm by auto
  obtain s1 where s1: "rt_tick_increase cb s = timer_check_loop (fire cb) (rt_tick s1) s1" "kinv s1"
    "rt_current_thread s1 \<noteq> None" "rt_tick s1 = rt_tick s + 1" "timers s1 = timers s"
    "timer_list s1 = timer_list s" "expired_all {} s s1"
    using tick_slice [of s c cb] tm c by auto
  have due: "due s1 m \<longleftrightarrow> ticks_left s m \<le> 1" if "m \<in> set (timer_list s)" for m
    using that tm s1(4,5) by (intro due_after_tick(1)) auto
  have "\<forall>t \<in> set ds. due s1 (TThread t)" using due setds by auto
  moreover have "?R = [] \<or> \<not> due s1 (hd ?R)"
  proof (cases ?R)
    case (Cons m R)
    then have "m \<in> set ?R" by simp
    then show ?thesis using due [of m] Cons by auto
  qed simp
  moreover have "timer_list s1 = map TThread ds @ ?R" using split s1(6) ds by simp
  ultimately obtain s' where s': "timer_check_loop (fire cb) (rt_tick s1) s1 = Some s'" "kinv s'"
    "rt_current_thread s' \<noteq> None" "timer_list s' = ?R" "rt_tick s' = rt_tick s1"
    "\<forall>m. timeout_tick (timers s' m) = timeout_tick (timers s1 m)" "expired_all (set ds) s1 s'"
    using check_loop_expires [OF s1(2,3), of ds ?R cb] by blast
  have left: "ticks_left s' m = ticks_left s m - 1" if "m \<in> set ?R" for m
    using that tm s'(5,6) s1(4,5) by (intro due_after_tick(2)) auto
  have "sorted (map (ticks_left s) ?R)" using tm by (intro sorted_filter) blast
  then have "sorted (map (\<lambda>m. ticks_left s m - 1) ?R)" by (rule sorted_map_pred)
  moreover have "map (ticks_left s') ?R = map (\<lambda>m. ticks_left s m - 1) ?R"
    using left by (intro map_cong) blast+
  ultimately have "sorted (map (ticks_left s') ?R)" by (simp only:)
  moreover have "\<forall>m \<in> set ?R. ticks_left s' m < unat TICK_HORIZON"
    using left tm by (auto simp: less_imp_diff_less)
  ultimately have "timers_sorted s'" by (simp only: timers_sorted_def s'(4))
  then have "timed s'" using s'(2-4) tm by (auto simp: timed_def)
  moreover have "expired_all (set ds) s s'" using s1(7) s'(7) by (rule expired_none_trans)
  moreover have "?R = filter (\<lambda>m. 1 < ticks_left s m) (timer_list s)" by (simp add: not_le)
  ultimately show ?thesis
    using s1(1,4) s'(1,4,5) left setds by (intro exI [of _ s']) simp
qed


subsection \<open>Sleeping\<close>

fun run_ticks :: "(nat \<Rightarrow> kernel \<Rightarrow> kernel option) \<Rightarrow> nat \<Rightarrow> kernel \<Rightarrow> kernel option" where
  "run_ticks cb 0 s = Some s"
| "run_ticks cb (Suc n) s = rt_tick_increase cb s \<bind> run_ticks cb n"

text \<open>A thread with \<open>k\<close> ticks to go stays suspended for \<open>k - 1\<close> ticks, and the next one wakes it.\<close>

lemma ticks_wait:
  assumes "timed s" "TThread t \<in> set (timer_list s)" "ticks_left s (TThread t) = Suc k"
  shows "j \<le> k \<Longrightarrow> \<exists>s'. run_ticks cb j s = Some s' \<and> stat (threads s' t) = RT_THREAD_SUSPEND \<and>
      error (threads s' t) = error (threads s t)"
    "\<exists>s'. run_ticks cb (Suc k) s = Some s' \<and> runnable s' t \<and> error (threads s' t) = - RT_ETIMEOUT"
proof -
  have one: "\<exists>s'. rt_tick_increase cb s = Some s' \<and>
      (if ticks_left s (TThread t) \<le> 1 then runnable s' t \<and> error (threads s' t) = - RT_ETIMEOUT
       else timed s' \<and> TThread t \<in> set (timer_list s') \<and>
         ticks_left s' (TThread t) = ticks_left s (TThread t) - 1 \<and>
         error (threads s' t) = error (threads s t))"
    if h: "timed s" "TThread t \<in> set (timer_list s)" for s
  proof -
    obtain s' where "rt_tick_increase cb s = Some s'" "timed s'"
      "timer_list s' = filter (\<lambda>m. 1 < ticks_left s m) (timer_list s)"
      "\<forall>m \<in> set (timer_list s'). ticks_left s' m = ticks_left s m - 1"
      "expired_all {t. TThread t \<in> set (timer_list s) \<and> ticks_left s (TThread t) \<le> 1} s s'"
      using tick_step [OF h(1)] by blast
    then show ?thesis
      using h(2) by (intro exI [of _ s']) (auto simp: expired_all_def not_le dest: spec [of _ t])
  qed
  show "j \<le> k \<Longrightarrow> \<exists>s'. run_ticks cb j s = Some s' \<and> stat (threads s' t) = RT_THREAD_SUSPEND \<and>
      error (threads s' t) = error (threads s t)"
    using assms
  proof (induction j arbitrary: s k)
    case 0
    then show ?case using kinv_listed_thread(2) [of s t] by (simp add: timed_def)
  next
    case (Suc j)
    obtain k' where k: "k = Suc k'" using Suc.prems(1) by (cases k) auto
    obtain s1 where s1: "rt_tick_increase cb s = Some s1" "timed s1" "TThread t \<in> set (timer_list s1)"
      "ticks_left s1 (TThread t) = Suc k'" "error (threads s1 t) = error (threads s t)"
      using one [OF Suc.prems(2,3)] Suc.prems(4) k by auto
    show ?case
      using Suc.IH [of k' s1] Suc.prems(1) s1 k by auto
  qed
  show "\<exists>s'. run_ticks cb (Suc k) s = Some s' \<and> runnable s' t \<and> error (threads s' t) = - RT_ETIMEOUT"
    using assms
  proof (induction k arbitrary: s)
    case 0
    then show ?case using one [OF 0(1,2)] by auto
  next
    case (Suc k)
    obtain s1 where s1: "rt_tick_increase cb s = Some s1" "timed s1" "TThread t \<in> set (timer_list s1)"
      "ticks_left s1 (TThread t) = Suc k"
      using one [OF Suc.prems(1,2)] Suc.prems(3) by auto
    show ?case using Suc.IH [OF s1(2-4)] s1(1) by (subst run_ticks.simps) simp
  qed
qed

lemma switch_away:
  assumes "kinv s" "rt_current_thread s = Some t" "stat (threads s t) = RT_THREAD_SUSPEND"
    "rt_scheduler_lock_nest s = 0" "queue s (Ready q) \<noteq> []"
  shows "\<exists>s' n. rt_schedule s = Some s' \<and> kinv s' \<and> sched_frame s s' \<and>
    rt_current_thread s' = Some n \<and> n \<noteq> t \<and> threads s' t = threads s t \<and>
    switch_out t l k s = Some (Blocked l, s')"
proof (rule rt_schedule_cases [OF assms(1,2,4)])
  fix s' n
  assume h: "n \<noteq> t" "rt_schedule s = Some s'" "kinv s'" "rt_current_thread s' = Some n" "sched_frame s s'"
  moreover have "threads s' t = threads s t" using frame_thread [OF h(5), of t] assms(3) by simp
  ultimately show ?thesis by (intro exI [of _ s'] exI [of _ n]) (simp add: switch_out_def)
qed (use assms in auto)

lemma start_thread_timer_eq:
  assumes "tm_obj (timers s (TThread t)) \<noteq> ObjNull" "time < TICK_HORIZON"
  shows "start_thread_timer t time s =
    Some (start_timer (TThread t) (upd_timer (TThread t) (tm_init_tick_update (\<lambda>_. time)) s))"
  using assms by (simp add: start_thread_timer_def rt_timer_control_def rt_timer_start_eq)

lemma timers_sorted_stop:
  assumes "timers_sorted s"
  shows "timers_sorted (stop_timer m s)"
proof -
  have "ticks_left (stop_timer m s) = ticks_left s"
    by (rule ext) (simp add: ticks_left_def stop_timer_timers)
  moreover have "timer_list (stop_timer m s) = timer_list s \<or>
      timer_list (stop_timer m s) = filter ((\<noteq>) m) (timer_list s)"
    by (auto simp: stop_timer_def deactivate_def timer_remove_def removeAll_filter_not_eq)
  ultimately show ?thesis
    using assms unfolding timers_sorted_def by (auto simp: sorted_filter)
qed

lemma timers_sorted_cong:
  "timer_list s' = timer_list s \<Longrightarrow> rt_tick s' = rt_tick s \<Longrightarrow>
   (\<And>m. m \<in> set (timer_list s) \<Longrightarrow> timeout_tick (timers s' m) = timeout_tick (timers s m)) \<Longrightarrow>
   timers_sorted s' = timers_sorted s"
  by (simp add: timers_sorted_def ticks_left_def cong: map_cong)

text \<open>A suspended thread's timer starts: the thread now waits with \<open>time\<close> ticks to go.\<close>

lemma timed_start:
  assumes "kinv s" "rt_current_thread s = Some c" "timers_sorted s" "set (timer_list s) \<subseteq> range TThread"
    "stat (threads s t) = RT_THREAD_SUSPEND" "th_obj (threads s t) \<noteq> ObjNull" "time < TICK_HORIZON"
  obtains s' where "start_thread_timer t time s = Some s'" "timed s'" "TThread t \<in> set (timer_list s')"
    "ticks_left s' (TThread t) = unat time" "threads s' = threads s" "queue s' = queue s"
    "rt_current_thread s' = Some c" "rt_scheduler_lock_nest s' = rt_scheduler_lock_nest s"
    "sems s' = sems s" "mutexes s' = mutexes s"
proof -
  let ?m = "TThread t"
  let ?u = "upd_timer ?m (tm_init_tick_update (\<lambda>_. time)) s"
  have "tm_obj (timers s ?m) = ObjStatic"
    using kinv_timer_obj(1) [OF assms(1,6)] assms(5) by (simp add: live_def)
  then have st: "start_thread_timer t time s = Some (start_timer ?m ?u)"
    using start_thread_timer_eq assms(7) by simp
  have "timers_sorted ?u = timers_sorted s" by (rule timers_sorted_cong) simp_all
  then have ord: "timers_sorted (start_timer ?m ?u)" "ticks_left (start_timer ?m ?u) ?m = unat time"
    using start_timer_ordered(1,2) [of ?u ?m] assms(3,7) by simp_all
  have "kinv (start_timer ?m ?u)" using inv_start_thread_timer [OF st assms(1,5,6)] .
  then have "timed (start_timer ?m ?u)" using ord assms(2,4) by (simp add: timed_def)
  then show thesis using that [OF st] ord assms(2) by simp
qed



text \<open>The same system with thread 1 asleep for a tick.\<close>

definition napping :: kernel where
  "napping = (case rt_thread_sleep 1 booted of Some (_, s) \<Rightarrow> s)"

lemma napping_reachable: "reachable cb napping"
proof -
  have "rt_thread_sleep 1 booted \<noteq> None" by code_simp
  then obtain r where "rt_thread_sleep 1 booted = Some (r, napping)" by (auto simp: napping_def)
  then show ?thesis using booted_reachable reachable_call kcall.k_thread_sleep by blast
qed


end
