(* ===== verification/WaitFrame.thy ===== *)
theory WaitFrame imports TimerProps
begin

text \<open>
  What the other calls of the kernel can do to one IPC object: nothing to its fields, and to its
  suspend list only that threads leave it. An invariant between an object and its waiters then has
  to be checked for the object's own operations alone.
\<close>

subsection \<open>The frame of a suspend list\<close>

fun object_same :: "qid \<Rightarrow> kernel \<Rightarrow> kernel \<Rightarrow> bool" where
  "object_same (SemWait i) s s' = (sems s' i = sems s i)"
| "object_same (MutexWait i) s s' = (mutexes s' i = mutexes s i)"
| "object_same (EventWait i) s s' = (events s' i = events s i)"
| "object_same (MbWait i) s s' = (mailboxes s' i = mailboxes s i)"
| "object_same (MbSender i) s s' = (mailboxes s' i = mailboxes s i)"
| "object_same (MqWait i) s s' = (mqueues s' i = mqueues s i)"
| "object_same (MqSender i) s s' = (mqueues s' i = mqueues s i)"
| "object_same _ s s' = True"

definition wframe :: "qid \<Rightarrow> kernel \<Rightarrow> kernel \<Rightarrow> bool" where
  "wframe l s s' \<longleftrightarrow> wait_list l \<and> object_same l s s' \<and> set (queue s' l) \<subseteq> set (queue s l)"

lemma object_same_cong:
  "sems s' = sems s \<Longrightarrow> mutexes s' = mutexes s \<Longrightarrow> events s' = events s \<Longrightarrow>
   mailboxes s' = mailboxes s \<Longrightarrow> mqueues s' = mqueues s \<Longrightarrow> object_same l s0 s' = object_same l s0 s"
  by (cases l) simp_all

lemma object_same_refl [simp]: "object_same l s s"
  by (cases l) simp_all

lemma object_same_trans: "object_same l s s1 \<Longrightarrow> object_same l s1 s2 \<Longrightarrow> object_same l s s2"
  by (cases l) simp_all

lemma wframe_refl: "wait_list l \<Longrightarrow> wframe l s s"
  by (simp add: wframe_def)

lemma wframe_trans: "wframe l s s1 \<Longrightarrow> wframe l s1 s2 \<Longrightarrow> wframe l s s2"
  unfolding wframe_def using object_same_trans by blast

lemma wframe_wait: "wframe l s s' \<Longrightarrow> wait_list l" "wframe l s s' \<Longrightarrow> l \<noteq> Ready p" "wframe l s s' \<Longrightarrow> l \<noteq> Defunct"
  by (auto simp: wframe_def)

lemma wframe_cong:
  "sems s' = sems s \<Longrightarrow> mutexes s' = mutexes s \<Longrightarrow> events s' = events s \<Longrightarrow>
   mailboxes s' = mailboxes s \<Longrightarrow> mqueues s' = mqueues s \<Longrightarrow> queue s' = queue s \<Longrightarrow>
   wframe l s0 s' = wframe l s0 s"
  using object_same_cong [of s' s l s0] by (simp add: wframe_def)

lemma wframe_simps [simp]:
  "wframe l s0 (upd_thread t f s) = wframe l s0 s"
  "wframe l s0 (upd_timer m g s) = wframe l s0 s"
  "wframe l s0 (s\<lparr>rt_thread_ready_priority_group := v\<rparr>) = wframe l s0 s"
  "wframe l s0 (s\<lparr>rt_scheduler_lock_nest := n\<rparr>) = wframe l s0 s"
  "wframe l s0 (s\<lparr>rt_interrupt_nest := k\<rparr>) = wframe l s0 s"
  "wframe l s0 (s\<lparr>rt_current_thread := c\<rparr>) = wframe l s0 s"
  "wframe l s0 (s\<lparr>rt_current_priority := p\<rparr>) = wframe l s0 s"
  "wframe l s0 (s\<lparr>rt_tick := v\<rparr>) = wframe l s0 s"
  "wframe l s0 (s\<lparr>timers := x\<rparr>) = wframe l s0 s"
  "wframe l s0 (s\<lparr>timer_list := xs\<rparr>) = wframe l s0 s"
  "wframe l s0 (s\<lparr>expired := xs\<rparr>) = wframe l s0 s"
  by (rule wframe_cong; simp)+

text \<open>An update of another object.\<close>

lemma wframe_upd [simp]:
  "l \<noteq> SemWait i \<Longrightarrow> wframe l s0 (upd_sem i f1 s) = wframe l s0 s"
  "l \<noteq> MutexWait i \<Longrightarrow> wframe l s0 (upd_mutex i f2 s) = wframe l s0 s"
  "l \<noteq> EventWait i \<Longrightarrow> wframe l s0 (upd_event i f3 s) = wframe l s0 s"
  "l \<noteq> MbWait i \<Longrightarrow> l \<noteq> MbSender i \<Longrightarrow> wframe l s0 (upd_mb i f4 s) = wframe l s0 s"
  "l \<noteq> MqWait i \<Longrightarrow> l \<noteq> MqSender i \<Longrightarrow> wframe l s0 (upd_mq i f5 s) = wframe l s0 s"
  by (cases l; simp add: wframe_def)+

lemma wf_list_remove [intro]: "wframe l s0 s \<Longrightarrow> wframe l s0 (list_remove t s)"
proof -
  assume w: "wframe l s0 s"
  have "object_same l s0 (list_remove t s) = object_same l s0 s"
    by (rule object_same_cong) simp_all
  moreover have "set (queue (list_remove t s) l) \<subseteq> set (queue s l)"
    by (auto dest: set_remove1_subset [THEN subsetD] split: if_splits)
  ultimately show ?thesis using w by (auto simp: wframe_def)
qed

lemma wf_list_link:
  "list_link k place t s = Some s' \<Longrightarrow> wframe l s0 s \<Longrightarrow> k \<noteq> l \<Longrightarrow> wframe l s0 s'"
  by (cases l) (auto simp: list_link_def bindE wframe_def)

subsection \<open>Scheduler, timers, threads\<close>

lemma wf_insert_thread: "rt_schedule_insert_thread t s = Some s' \<Longrightarrow> wframe l s0 s \<Longrightarrow> wframe l s0 s'"
  by (auto simp: rt_schedule_insert_thread_def bindE Let_def dest: wframe_wait(2) dest!: wf_list_link split: if_splits)

lemma wf_remove_thread: "rt_schedule_remove_thread t s = Some s' \<Longrightarrow> wframe l s0 s \<Longrightarrow> wframe l s0 s'"
  by (auto simp: rt_schedule_remove_thread_def bindE Let_def split: if_splits)

lemma wf_schedule: "rt_schedule s = Some s' \<Longrightarrow> wframe l s0 s \<Longrightarrow> wframe l s0 s'"
  by (auto simp: rt_schedule_def bindE Let_def elim!: wf_remove_thread wf_insert_thread split: if_splits)

lemma wf_scheduler_start: "rt_system_scheduler_start s = Some s' \<Longrightarrow> wframe l s0 s \<Longrightarrow> wframe l s0 s'"
  by (auto simp: rt_system_scheduler_start_def bindE Let_def dest!: wf_remove_thread)

lemma wf_exit_critical: "rt_exit_critical s = Some s' \<Longrightarrow> wframe l s0 s \<Longrightarrow> wframe l s0 s'"
  by (auto simp: rt_exit_critical_def Let_def elim!: wf_schedule split: if_splits)

lemma wf_object_init: "rt_object_init obj s = Some s' \<Longrightarrow> wframe l s0 s \<Longrightarrow> wframe l s0 s'"
  by (auto simp: rt_object_init_def rt_enter_critical_def bindE elim!: wf_exit_critical)

lemma wframe_timers [simp]:
  "wframe l s0 (timer_remove m s) = wframe l s0 s" "wframe l s0 (deactivate m s) = wframe l s0 s"
  "wframe l s0 (stop_timer m s) = wframe l s0 s" "wframe l s0 (start_timer m s) = wframe l s0 s"
  by (rule wframe_cong; simp add: timer_remove_def deactivate_def)+

lemma wf_timer_ops:
  "rt_timer_init m time per s = Some s' \<Longrightarrow> wframe l s0 s \<Longrightarrow> wframe l s0 s'"
  "rt_timer_create m' time per s = Some (q, s') \<Longrightarrow> wframe l s0 s \<Longrightarrow> wframe l s0 s'"
  "rt_timer_detach m s = Some (r, s') \<Longrightarrow> wframe l s0 s \<Longrightarrow> wframe l s0 s'"
  "rt_timer_delete m s = Some (r, s') \<Longrightarrow> wframe l s0 s \<Longrightarrow> wframe l s0 s'"
  "rt_timer_start m s = Some (r, s') \<Longrightarrow> wframe l s0 s \<Longrightarrow> wframe l s0 s'"
  "rt_timer_stop m s = Some (r, s') \<Longrightarrow> wframe l s0 s \<Longrightarrow> wframe l s0 s'"
  "rt_timer_control m cmd v s = Some (r, v', s') \<Longrightarrow> wframe l s0 s \<Longrightarrow> wframe l s0 s'"
  by (auto simp: rt_timer_init_def rt_timer_create_def timer_init_def rt_timer_detach_def rt_timer_delete_def
      rt_timer_start_Some rt_timer_stop_Some rt_timer_control_def bindE Let_def
      dest!: wf_object_init split: option.splits timer_ctrl.splits)

lemma wf_suspend: "rt_thread_suspend t s = Some (r, s') \<Longrightarrow> wframe l s0 s \<Longrightarrow> wframe l s0 s'"
  by (auto simp: rt_thread_suspend_def rt_timer_stop_Some bindE Let_def
      dest!: wf_remove_thread split: if_splits)

lemma wf_resume: "rt_thread_resume t s = Some (r, s') \<Longrightarrow> wframe l s0 s \<Longrightarrow> wframe l s0 s'"
  by (auto simp: rt_thread_resume_def rt_timer_stop_Some bindE Let_def
      dest!: wf_insert_thread split: if_splits)

lemma wf_timeout: "thread_timeout t s = Some s' \<Longrightarrow> wframe l s0 s \<Longrightarrow> wframe l s0 s'"
  by (auto simp: thread_timeout_def bindE Let_def dest!: wf_insert_thread wf_schedule)

lemma wf_thread_init: "thread_init t p ticks s = Some s' \<Longrightarrow> wframe l s0 s \<Longrightarrow> wframe l s0 s'"
  by (auto simp: thread_init_def bindE Let_def elim!: wf_timer_ops)

lemma wf_enqueue_defunct:
  "rt_thread_defunct_enqueue t s = Some s' \<Longrightarrow> wframe l s0 s \<Longrightarrow> wframe l s0 s'"
  using wframe_wait(3) wf_list_link by (fastforce simp: rt_thread_defunct_enqueue_def)

lemma wf_close: "thread_close t s = Some s' \<Longrightarrow> wframe l s0 s \<Longrightarrow> wframe l s0 s'"
  by (auto simp: thread_close_def bindE Let_def
      dest!: wf_remove_thread wf_timer_ops wf_enqueue_defunct split: if_splits)

lemma wf_startup: "rt_thread_startup t s = Some (r, s') \<Longrightarrow> wframe l s0 s \<Longrightarrow> wframe l s0 s'"
  by (auto simp: rt_thread_startup_def bindE Let_def dest!: wf_resume wf_schedule split: if_splits)

lemma wf_change_priority: "change_priority t p s = Some s' \<Longrightarrow> wframe l s0 s \<Longrightarrow> wframe l s0 s'"
  by (auto simp: change_priority_def bindE dest!: wf_remove_thread wf_insert_thread split: if_splits)

lemma wf_start_thread_timer: "start_thread_timer t time s = Some s' \<Longrightarrow> wframe l s0 s \<Longrightarrow> wframe l s0 s'"
  by (auto simp: start_thread_timer_def bindE dest!: wf_timer_ops)

lemma wf_switch_out:
  "switch_out t u k s = Some (r, s') \<Longrightarrow> (\<And>s r s'. k s = Some (r, s') \<Longrightarrow> wframe l s0 s \<Longrightarrow> wframe l s0 s') \<Longrightarrow>
   wframe l s0 s \<Longrightarrow> wframe l s0 s'"
  by (auto simp: switch_out_def bindE dest!: wf_schedule split: if_splits)

lemma wf_sleep_resume: "thread_sleep_resume t s = (r, s') \<Longrightarrow> wframe l s0 s \<Longrightarrow> wframe l s0 s'"
  by (auto simp: thread_sleep_resume_def split: if_splits)

lemma wf_thread_ops:
  "rt_thread_init t p ticks s = Some (r, s') \<Longrightarrow> wframe l s0 s \<Longrightarrow> wframe l s0 s'"
  "rt_thread_create alloc stk p ticks s = Some (q, s') \<Longrightarrow> wframe l s0 s \<Longrightarrow> wframe l s0 s'"
  "rt_thread_detach t s = Some (r, s') \<Longrightarrow> wframe l s0 s \<Longrightarrow> wframe l s0 s'"
  "rt_thread_delete t s = Some (r, s') \<Longrightarrow> wframe l s0 s \<Longrightarrow> wframe l s0 s'"
  "thread_exit s = Some s' \<Longrightarrow> wframe l s0 s \<Longrightarrow> wframe l s0 s'"
  "rt_thread_yield s = Some (r, s') \<Longrightarrow> wframe l s0 s \<Longrightarrow> wframe l s0 s'"
  by (auto simp: rt_thread_init_def rt_thread_create_def rt_thread_detach_def rt_thread_delete_def thread_exit_def
      rt_thread_yield_def bindE Let_def split: option.splits if_splits
      dest!: wf_object_init wf_thread_init wf_close wf_remove_thread wf_timer_ops wf_enqueue_defunct wf_schedule)

lemma wf_thread_control: "rt_thread_control t cmd s = Some (r, s') \<Longrightarrow> wframe l s0 s \<Longrightarrow> wframe l s0 s'"
  by (auto simp: rt_thread_control_def bindE split: thread_ctrl.splits if_splits
      dest!: wf_change_priority wf_startup wf_thread_ops wf_schedule)

lemma wf_sleep: "rt_thread_sleep time s = Some (r, s') \<Longrightarrow> wframe l s0 s \<Longrightarrow> wframe l s0 s'"
  by (auto simp: rt_thread_sleep_def bindE Let_def apfst_def map_prod_def split: prod.splits
      dest!: wf_suspend wf_start_thread_timer elim!: wf_switch_out wf_sleep_resume)

lemma wf_delay_until: "rt_thread_delay_until v inc s = Some (v', r, s') \<Longrightarrow> wframe l s0 s \<Longrightarrow> wframe l s0 s'"
  by (auto simp: rt_thread_delay_until_def bindE Let_def apfst_def map_prod_def split: prod.splits if_splits
      dest!: wf_suspend wf_start_thread_timer elim!: wf_switch_out wf_sleep_resume)

lemma wf_defunct_execute:
  assumes "rt_defunct_execute cl s = Some s'" "cleanup_ok cl" "wframe l s0 s"
  shows "wframe l s0 s'"
proof -
  define P where "P f s s' \<longleftrightarrow> (f = cl \<longrightarrow> wframe l s0 s \<longrightarrow> wframe l s0 s')" for f s s'
  have "P cl s s'"
  proof (rule rt_defunct_execute.raw_induct [OF _ assms(1)])
    fix loop f s s'
    assume IH: "\<And>f s y. loop f s = Some y \<Longrightarrow> P f s y"
      and step: "(case rt_thread_defunct_dequeue s of (None, s) \<Rightarrow> Some s
        | (Some t, s) \<Rightarrow> f t s \<bind> (\<lambda>s. loop f (upd_thread t (th_obj_update (\<lambda>_. ObjNull)) s))) = Some s'"
    show "P f s s'"
    proof (cases "queue s Defunct")
      case Nil
      then show ?thesis using step by (auto simp: P_def rt_thread_defunct_dequeue_def)
    next
      case (Cons t ts)
      then obtain s1 where s1: "f t (list_remove t s) = Some s1"
        "loop f (upd_thread t (th_obj_update (\<lambda>_. ObjNull)) s1) = Some s'"
        using step by (auto simp: rt_thread_defunct_dequeue_def bindE)
      have "wframe l s0 s1 = wframe l s0 (list_remove t s)" if "f = cl"
        using assms(2) s1(1) that unfolding cleanup_ok_def by (intro wframe_cong) blast+
      then show ?thesis
        using IH [OF s1(2)] wf_list_remove [of l s0 s t] unfolding P_def by simp
    qed
  qed
  then show ?thesis using assms(3) by (simp add: P_def)
qed

subsection \<open>IPC objects\<close>

lemma wf_ipc_suspend: "ipc_list_suspend k t flag s = Some s' \<Longrightarrow> wframe l s0 s \<Longrightarrow> k \<noteq> l \<Longrightarrow> wframe l s0 s'"
  by (auto simp: ipc_list_suspend_def bindE dest!: wf_suspend wf_list_link split: if_splits)

lemma wf_ipc_resume: "ipc_list_resume k s = Some s' \<Longrightarrow> wframe l s0 s \<Longrightarrow> wframe l s0 s'"
  by (auto simp: ipc_list_resume_def bindE dest!: wf_resume split: list.splits)

lemma wf_resume_all:
  assumes "ipc_list_resume_all k s = Some s'" "wframe l s0 s"
  shows "wframe l s0 s'"
proof -
  define P where "P (k :: qid) s s' \<longleftrightarrow> (wframe l s0 s \<longrightarrow> wframe l s0 s')" for k s s'
  have "P k s s'"
  proof (rule ipc_list_resume_all.raw_induct [OF _ assms(1)])
    fix loop k s s'
    assume IH: "\<And>k s y. loop k s = Some y \<Longrightarrow> P k s y"
      and step: "(case queue s k of [] \<Rightarrow> Some s | t # _ \<Rightarrow>
          rt_thread_resume t (upd_thread t (error_update (\<lambda>_. - RT_ERROR)) s) \<bind> (\<lambda>(_, s). loop k s)) = Some s'"
    show "P k s s'"
    proof (cases "queue s k")
      case Nil
      then show ?thesis using step by (simp add: P_def)
    next
      case (Cons t ts)
      then obtain r s1 where s1: "rt_thread_resume t (upd_thread t (error_update (\<lambda>_. - RT_ERROR)) s) = Some (r, s1)"
        "loop k s1 = Some s'"
        using step by (auto simp: bindE)
      show ?thesis
        using IH [OF s1(2)] wf_resume [OF s1(1), of l s0] unfolding P_def by simp
    qed
  qed
  then show ?thesis using assms(2) by (simp add: P_def)
qed

lemma wf_start_timeout: "start_timeout t time s = Some s' \<Longrightarrow> wframe l s0 s \<Longrightarrow> wframe l s0 s'"
  by (auto simp: start_timeout_def dest!: wf_start_thread_timer split: if_splits)

lemma wf_wake_one: "ipc_wake_one k s = Some s' \<Longrightarrow> wframe l s0 s \<Longrightarrow> wframe l s0 s'"
  by (auto simp: ipc_wake_one_def bindE dest!: wf_ipc_resume wf_schedule split: if_splits)

lemma wf_loop_block:
  "ipc_loop_block k t flag timeout s = Some (r, s') \<Longrightarrow> wframe l s0 s \<Longrightarrow> k \<noteq> l \<Longrightarrow> wframe l s0 s'"
  by (auto simp: ipc_loop_block_def bindE dest!: wf_ipc_suspend wf_start_timeout elim!: wf_switch_out)

lemma wf_switch_wait:
  "switch_out t () (\<lambda>s. Some (apfst Done (ipc_wait_resume t s))) s = Some (r, s') \<Longrightarrow> wframe l s0 s \<Longrightarrow>
   wframe l s0 s'"
  by (erule wf_switch_out) (auto simp: ipc_wait_resume_def)

lemma wf_object_list_init: "ipc_object_init k s = Some s' \<Longrightarrow> wframe l s0 s \<Longrightarrow> wframe l s0 s'"
  by (auto simp: ipc_object_init_def bindE)

lemmas wf_helpers = wf_ipc_suspend wf_ipc_resume wf_resume_all wf_start_timeout wf_wake_one
  wf_loop_block wf_object_list_init wf_object_init wf_schedule wf_thread_control

lemma wf_sem_take:
  "rt_sem_take i time s = Some (c, s') \<Longrightarrow> wframe l s0 s \<Longrightarrow> l \<noteq> SemWait i \<Longrightarrow> wframe l s0 s'"
  by (auto simp: rt_sem_take_def bindE Let_def split: if_splits
      dest!: wf_ipc_suspend [where l = l and ?s0.0 = s0] wf_start_timeout wf_switch_wait)

lemma wf_sem_ops:
  "rt_sem_init i v flag s = Some (r, s') \<Longrightarrow> wframe l s0 s \<Longrightarrow> l \<noteq> SemWait i \<Longrightarrow> wframe l s0 s'"
  "rt_sem_detach i s = Some (r, s') \<Longrightarrow> wframe l s0 s \<Longrightarrow> l \<noteq> SemWait i \<Longrightarrow> wframe l s0 s'"
  "rt_sem_create alloc v flag s = Some (q, s') \<Longrightarrow> wframe l s0 s \<Longrightarrow>
   (\<And>i. alloc = Some i \<Longrightarrow> l \<noteq> SemWait i) \<Longrightarrow> wframe l s0 s'"
  "rt_sem_delete i s = Some (r, s') \<Longrightarrow> wframe l s0 s \<Longrightarrow> l \<noteq> SemWait i \<Longrightarrow> wframe l s0 s'"
  "rt_sem_release i s = Some (r, s') \<Longrightarrow> wframe l s0 s \<Longrightarrow> l \<noteq> SemWait i \<Longrightarrow> wframe l s0 s'"
  "rt_sem_control i k v s = Some (r, s') \<Longrightarrow> wframe l s0 s \<Longrightarrow> l \<noteq> SemWait i \<Longrightarrow> wframe l s0 s'"
  by (auto simp: rt_sem_init_def rt_sem_detach_def rt_sem_create_def rt_sem_delete_def rt_sem_release_def
      rt_sem_control_def bindE Let_def dest!: wf_helpers split: option.splits if_splits)

lemma wf_mutex_inherit: "mutex_inherit i t s = Some s' \<Longrightarrow> wframe l s0 s \<Longrightarrow> wframe l s0 s'"
  by (auto simp: mutex_inherit_def bindE dest!: wf_thread_control split: if_splits)

lemma wf_mutex_restore: "mutex_restore i t s = Some s' \<Longrightarrow> wframe l s0 s \<Longrightarrow> wframe l s0 s'"
  by (auto simp: mutex_restore_def bindE dest!: wf_thread_control split: if_splits)

lemma wf_mutex_hand_over:
  "mutex_hand_over i w s = Some (r, s') \<Longrightarrow> wframe l s0 s \<Longrightarrow> l \<noteq> MutexWait i \<Longrightarrow> wframe l s0 s'"
  by (auto simp: mutex_hand_over_def bindE Let_def dest!: wf_helpers split: if_splits)

lemma wf_mutex_take:
  "rt_mutex_take i time s = Some (c, s') \<Longrightarrow> wframe l s0 s \<Longrightarrow> l \<noteq> MutexWait i \<Longrightarrow> wframe l s0 s'"
  by (auto simp: rt_mutex_take_def bindE Let_def split: if_splits
      dest!: wf_mutex_inherit wf_ipc_suspend [where l = l and ?s0.0 = s0] wf_start_timeout wf_switch_wait)

lemma wf_mutex_ops:
  "rt_mutex_init i flag s = Some (r, s') \<Longrightarrow> wframe l s0 s \<Longrightarrow> l \<noteq> MutexWait i \<Longrightarrow> wframe l s0 s'"
  "rt_mutex_detach i s = Some (r, s') \<Longrightarrow> wframe l s0 s \<Longrightarrow> l \<noteq> MutexWait i \<Longrightarrow> wframe l s0 s'"
  "rt_mutex_create alloc flag s = Some (q, s') \<Longrightarrow> wframe l s0 s \<Longrightarrow>
   (\<And>i. alloc = Some i \<Longrightarrow> l \<noteq> MutexWait i) \<Longrightarrow> wframe l s0 s'"
  "rt_mutex_delete i s = Some (r, s') \<Longrightarrow> wframe l s0 s \<Longrightarrow> l \<noteq> MutexWait i \<Longrightarrow> wframe l s0 s'"
  "rt_mutex_control i k s = Some (r, s') \<Longrightarrow> wframe l s0 s \<Longrightarrow> wframe l s0 s'"
  by (auto simp: rt_mutex_init_def rt_mutex_detach_def rt_mutex_create_def rt_mutex_delete_def
      rt_mutex_control_def bindE Let_def dest!: wf_helpers split: option.splits)

lemma wf_mutex_release:
  assumes "rt_mutex_release i s = Some (r, s')" "wframe l s0 s" "l \<noteq> MutexWait i"
  shows "wframe l s0 s'"
proof -
  obtain t where t: "rt_current_thread s = Some t"
    using assms(1) by (auto simp: rt_mutex_release_def rt_thread_self_def bindE)
  let ?s = "upd_mutex i (hold_update (\<lambda>h. h - 1)) s"
  consider "s' = upd_thread t (error_update (\<lambda>_. - RT_ERROR)) s" | "s' = ?s"
    | s1 where "mutex_restore i t ?s = Some s1" "queue s1 (MutexWait i) = []"
        "s' = s1 \<or> (\<exists>f. s' = upd_mutex i f s1)"
    | s1 w ws where "mutex_restore i t ?s = Some s1" "queue s1 (MutexWait i) = w # ws"
        "mutex_hand_over i w s1 = Some (r, s')"
    using assms(1) t unfolding rt_mutex_release_def rt_thread_self_def bindE Let_def
    by (auto simp: bindE split: if_split_asm list.split_asm)
  then show ?thesis
    using assms(2,3) wf_mutex_restore [of i t ?s _ l s0] wf_mutex_hand_over [of i _ _ r s' l s0] by cases auto
qed

lemma wf_event_wake:
  "event_wake i ts need s = Some (r, s') \<Longrightarrow> wframe l s0 s \<Longrightarrow> l \<noteq> EventWait i \<Longrightarrow> wframe l s0 s'"
proof (induction ts arbitrary: need s)
  case (Cons t ts)
  have deliver: "event_deliver i t s = Some s1 \<Longrightarrow> wframe l s0 s1" for s1
    using Cons.prems(2,3) by (auto simp: event_deliver_def bindE Let_def dest!: wf_resume)
  show ?case
    using Cons.prems(1) Cons.IH [OF _ _ Cons.prems(3)] deliver Cons.prems(2)
    by (auto simp: bindE split: option.splits if_splits)
qed simp

lemma wf_switch_event:
  "switch_out t () (\<lambda>s. Some (apfst Done (event_recv_resume t s))) s = Some (r, s') \<Longrightarrow> wframe l s0 s \<Longrightarrow>
   wframe l s0 s'"
  by (erule wf_switch_out) (auto simp: event_recv_resume_def split: if_splits)

lemma wf_event_recv:
  "rt_event_recv i v opt time s = Some (e, s') \<Longrightarrow> wframe l s0 s \<Longrightarrow> l \<noteq> EventWait i \<Longrightarrow> wframe l s0 s'"
  by (auto simp: rt_event_recv_def bindE Let_def
      split: if_splits dest!: wf_ipc_suspend [where l = l and ?s0.0 = s0] wf_start_timeout wf_switch_event)

lemma wf_event_ops:
  "rt_event_init i flag s = Some (r, s') \<Longrightarrow> wframe l s0 s \<Longrightarrow> l \<noteq> EventWait i \<Longrightarrow> wframe l s0 s'"
  "rt_event_detach i s = Some (r, s') \<Longrightarrow> wframe l s0 s \<Longrightarrow> l \<noteq> EventWait i \<Longrightarrow> wframe l s0 s'"
  "rt_event_create alloc flag s = Some (q, s') \<Longrightarrow> wframe l s0 s \<Longrightarrow>
   (\<And>i. alloc = Some i \<Longrightarrow> l \<noteq> EventWait i) \<Longrightarrow> wframe l s0 s'"
  "rt_event_delete i s = Some (r, s') \<Longrightarrow> wframe l s0 s \<Longrightarrow> l \<noteq> EventWait i \<Longrightarrow> wframe l s0 s'"
  "rt_event_control i k s = Some (r, s') \<Longrightarrow> wframe l s0 s \<Longrightarrow> l \<noteq> EventWait i \<Longrightarrow> wframe l s0 s'"
  by (auto simp: rt_event_init_def rt_event_detach_def rt_event_create_def rt_event_delete_def
      rt_event_control_def bindE Let_def dest!: wf_helpers split: option.splits if_splits)

lemma wf_event_send:
  assumes "rt_event_send i v s = Some (r, s')" "wframe l s0 s" "l \<noteq> EventWait i"
  shows "wframe l s0 s'"
proof (cases "v = 0")
  case True
  then show ?thesis using assms by (auto simp: rt_event_send_def bindE)
next
  case False
  let ?s = "upd_event i (ev_set_update (\<lambda>w. w OR v)) s"
  obtain n s1 where s1: "event_wake i (queue s (EventWait i)) False ?s = Some (n, s1)"
    "s' = s1 \<or> rt_schedule s1 = Some s'"
    using assms(1) False by (auto simp: rt_event_send_def bindE split: option.splits if_splits)
  then show ?thesis
    using wf_event_wake [OF s1(1), of l s0] wf_schedule [of s1 s' l s0] assms(2,3) by auto
qed

lemma wf_mb_send_loop:
  assumes "mb_send_loop i self v timeout s = Some (r, s')" "wframe l s0 s" "l \<noteq> MbWait i" "l \<noteq> MbSender i"
  shows "wframe l s0 s'"
proof (cases "mb_entry (mailboxes s i) = mb_size (mailboxes s i)")
  case True
  then obtain t where "s' = upd_thread t (error_update (\<lambda>_. RT_EOK)) s \<or>
      ipc_loop_block (MbSender i) t (mb_flag (mailboxes s i)) timeout
        (upd_thread t (error_update (\<lambda>_. RT_EOK)) s) = Some (r, s')"
    using assms(1) by (auto simp: mb_send_loop_def bindE Let_def split: if_splits)
  then show ?thesis using assms(2,4) wf_loop_block [of _ t _ _ _ r s' l s0] by fastforce
next
  case False
  then obtain m where "s' = upd_mb i (\<lambda>_. m) s \<or> ipc_wake_one (MbWait i) (upd_mb i (\<lambda>_. m) s) = Some s'"
    using assms(1) by (auto simp: mb_send_loop_def bindE Let_def split: if_splits)
  then show ?thesis using assms(2-4) wf_wake_one [of _ _ s' l s0] by fastforce
qed

lemma wf_mb_recv_loop:
  assumes "mb_recv_loop i self timeout s = Some (r, s')" "wframe l s0 s" "l \<noteq> MbWait i" "l \<noteq> MbSender i"
  shows "wframe l s0 s'"
proof (cases "mb_entry (mailboxes s i) = 0")
  case True
  then obtain t where "s' = upd_thread t (error_update (\<lambda>_. - RT_ETIMEOUT)) (upd_thread t (error_update (\<lambda>_. RT_EOK)) s) \<or>
      ipc_loop_block (MbWait i) t (mb_flag (mailboxes s i)) timeout
        (upd_thread t (error_update (\<lambda>_. RT_EOK)) s) = Some (r, s')"
    using assms(1) by (auto simp: mb_recv_loop_def bindE Let_def split: if_splits)
  then show ?thesis using assms(2,3) wf_loop_block [of _ t _ _ _ r s' l s0] by fastforce
next
  case False
  then obtain m where "ipc_wake_one (MbSender i) (upd_mb i (\<lambda>_. m) s) = Some s'"
    using assms(1) by (auto simp: mb_recv_loop_def bindE Let_def)
  then show ?thesis using assms(2-4) wf_wake_one [of _ _ s' l s0] by fastforce
qed

lemma wf_mb_ops:
  assumes "wframe l s0 s" "l \<noteq> MbWait i" "l \<noteq> MbSender i"
  shows "rt_mb_init i pool v flag s = Some (r, s') \<Longrightarrow> wframe l s0 s'"
    "rt_mb_detach i s = Some (r, s') \<Longrightarrow> wframe l s0 s'"
    "rt_mb_create (Some i) mem v flag s = Some (q, s') \<Longrightarrow> wframe l s0 s'"
    "rt_mb_delete i s = Some (r, s') \<Longrightarrow> wframe l s0 s'"
    "rt_mb_send_wait i w time s = Some (c, s') \<Longrightarrow> wframe l s0 s'"
    "mb_send_resume i t w k s = Some (c, s') \<Longrightarrow> wframe l s0 s'"
    "rt_mb_urgent i w s = Some (r, s') \<Longrightarrow> wframe l s0 s'"
    "rt_mb_recv i time s = Some (d, s') \<Longrightarrow> wframe l s0 s'"
    "mb_recv_resume i t k s = Some (d, s') \<Longrightarrow> wframe l s0 s'"
    "rt_mb_control i cmd s = Some (r, s') \<Longrightarrow> wframe l s0 s'"
  using assms
  by (auto simp: rt_mb_init_def rt_mb_detach_def rt_mb_create_def rt_mb_delete_def rt_mb_send_wait_def
      mb_send_resume_def rt_mb_urgent_def rt_mb_recv_def mb_recv_resume_def rt_mb_control_def bindE Let_def
      dest!: wf_helpers [where l = l and ?s0.0 = s0] wf_mb_send_loop [where l = l and ?s0.0 = s0]
        wf_mb_recv_loop [where l = l and ?s0.0 = s0] split: option.splits if_splits)

lemma wf_mq_send_loop:
  assumes "mq_send_loop i self buf timeout s = Some (r, s')" "wframe l s0 s" "l \<noteq> MqWait i" "l \<noteq> MqSender i"
  shows "wframe l s0 s'"
proof (cases "msg_queue_free (mqueues s i) = None")
  case True
  then obtain t where "s' = upd_thread t (error_update (\<lambda>_. RT_EOK)) s \<or>
      ipc_loop_block (MqSender i) t (mq_flag (mqueues s i)) timeout
        (upd_thread t (error_update (\<lambda>_. RT_EOK)) s) = Some (r, s')"
    using assms(1) by (auto simp: mq_send_loop_def bindE Let_def split: if_splits)
  then show ?thesis using assms(2,4) wf_loop_block [of _ t _ _ _ r s' l s0] by fastforce
next
  case False
  then obtain m where "s' = upd_mq i (\<lambda>_. m) s \<or> ipc_wake_one (MqWait i) (upd_mq i (\<lambda>_. m) s) = Some s'"
    using assms(1) by (auto simp: mq_send_loop_def bindE Let_def split: if_splits)
  then show ?thesis using assms(2-4) wf_wake_one [of _ _ s' l s0] by fastforce
qed

lemma wf_mq_recv_loop:
  assumes "mq_recv_loop i self sz timeout s = Some (r, s')" "wframe l s0 s" "l \<noteq> MqWait i" "l \<noteq> MqSender i"
  shows "wframe l s0 s'"
proof (cases "mq_entry (mqueues s i) = 0")
  case True
  then obtain t where "s' = upd_thread t (error_update (\<lambda>_. - RT_ETIMEOUT)) (upd_thread t (error_update (\<lambda>_. RT_EOK)) s) \<or>
      ipc_loop_block (MqWait i) t (mq_flag (mqueues s i)) timeout
        (upd_thread t (error_update (\<lambda>_. RT_EOK)) s) = Some (r, s')"
    using assms(1) by (auto simp: mq_recv_loop_def bindE Let_def split: if_splits)
  then show ?thesis using assms(2,3) wf_loop_block [of _ t _ _ _ r s' l s0] by fastforce
next
  case False
  then obtain m where "ipc_wake_one (MqSender i) (upd_mq i (\<lambda>_. m) s) = Some s'"
    using assms(1) by (auto simp: mq_recv_loop_def bindE Let_def)
  then show ?thesis using assms(2-4) wf_wake_one [of _ _ s' l s0] by fastforce
qed

lemma wf_mq_ops:
  assumes "wframe l s0 s" "l \<noteq> MqWait i" "l \<noteq> MqSender i"
  shows "rt_mq_init i nx pool v v' flag s = Some (r, s') \<Longrightarrow> wframe l s0 s'"
    "rt_mq_detach i s = Some (r, s') \<Longrightarrow> wframe l s0 s'"
    "rt_mq_create (Some i) qmem v v' flag s = Some (q, s') \<Longrightarrow> wframe l s0 s'"
    "rt_mq_delete i s = Some (r, s') \<Longrightarrow> wframe l s0 s'"
    "rt_mq_send_wait i buf time s = Some (c, s') \<Longrightarrow> wframe l s0 s'"
    "mq_send_resume i t buf k s = Some (c, s') \<Longrightarrow> wframe l s0 s'"
    "rt_mq_urgent i buf s = Some (r, s') \<Longrightarrow> wframe l s0 s'"
    "rt_mq_recv i sz time s = Some (d, s') \<Longrightarrow> wframe l s0 s'"
    "mq_recv_resume i t sz k s = Some (d, s') \<Longrightarrow> wframe l s0 s'"
    "rt_mq_control i cmd s = Some (r, s') \<Longrightarrow> wframe l s0 s'"
  using assms
  by (auto simp: rt_mq_init_def rt_mq_detach_def rt_mq_create_def rt_mq_delete_def rt_mq_send_wait_def
      mq_send_resume_def rt_mq_urgent_def rt_mq_recv_def mq_recv_resume_def rt_mq_control_def bindE Let_def
      dest!: wf_helpers [where l = l and ?s0.0 = s0] wf_mq_send_loop [where l = l and ?s0.0 = s0]
        wf_mq_recv_loop [where l = l and ?s0.0 = s0] split: option.splits if_splits)

lemma wf_create_none:
  "rt_mb_create None mem v flag s = Some (q, s') \<Longrightarrow> s' = s"
  "rt_mq_create None qmem v v' flag s = Some (q', s') \<Longrightarrow> s' = s"
  by (auto simp: rt_mb_create_def rt_mq_create_def bindE)

subsection \<open>Every step\<close>

text \<open>The calls that work on mailbox \<open>i\<close> and those that work on message queue \<open>i\<close>.\<close>

inductive mb_call :: "oid \<Rightarrow> kernel \<Rightarrow> kernel \<Rightarrow> bool" for i s s' where
  mb_init: "rt_mb_init i pool v flag s = Some (r, s') \<Longrightarrow> mb_call i s s'"
| mb_detach: "rt_mb_detach i s = Some (r, s') \<Longrightarrow> mb_call i s s'"
| mb_create: "rt_mb_create (Some i) mem v flag s = Some (q, s') \<Longrightarrow> mb_call i s s'"
| mb_delete: "rt_mb_delete i s = Some (r, s') \<Longrightarrow> mb_call i s s'"
| mb_send: "rt_mb_send_wait i w time s = Some (c, s') \<Longrightarrow> mb_call i s s'"
| mb_send_resume: "mb_send_resume i t w k s = Some (c, s') \<Longrightarrow> mb_call i s s'"
| mb_urgent: "rt_mb_urgent i w s = Some (r, s') \<Longrightarrow> mb_call i s s'"
| mb_recv: "rt_mb_recv i time s = Some (d, s') \<Longrightarrow> mb_call i s s'"
| mb_recv_resume: "mb_recv_resume i t k s = Some (d, s') \<Longrightarrow> mb_call i s s'"
| mb_control: "rt_mb_control i cmd s = Some (r, s') \<Longrightarrow> mb_call i s s'"

inductive mq_call :: "oid \<Rightarrow> kernel \<Rightarrow> kernel \<Rightarrow> bool" for i s s' where
  mq_init: "rt_mq_init i nx pool v v' flag s = Some (r, s') \<Longrightarrow> mq_call i s s'"
| mq_detach: "rt_mq_detach i s = Some (r, s') \<Longrightarrow> mq_call i s s'"
| mq_create: "rt_mq_create (Some i) qmem v v' flag s = Some (q, s') \<Longrightarrow> mq_call i s s'"
| mq_delete: "rt_mq_delete i s = Some (r, s') \<Longrightarrow> mq_call i s s'"
| mq_send: "rt_mq_send_wait i buf time s = Some (c, s') \<Longrightarrow> mq_call i s s'"
| mq_send_resume: "mq_send_resume i t buf k s = Some (c, s') \<Longrightarrow> mq_call i s s'"
| mq_urgent: "rt_mq_urgent i buf s = Some (r, s') \<Longrightarrow> mq_call i s s'"
| mq_recv: "rt_mq_recv i sz time s = Some (d, s') \<Longrightarrow> mq_call i s s'"
| mq_recv_resume: "mq_recv_resume i t sz k s = Some (d, s') \<Longrightarrow> mq_call i s s'"
| mq_control: "rt_mq_control i cmd s = Some (r, s') \<Longrightarrow> mq_call i s s'"

lemma wf_mb_call:
  assumes "mb_call i s s'" "wframe l s0 s" "l \<noteq> MbWait i" "l \<noteq> MbSender i"
  shows "wframe l s0 s'"
  using assms(1) by cases (erule wf_mb_ops [OF assms(2-4)])+

lemma wf_mq_call:
  assumes "mq_call i s s'" "wframe l s0 s" "l \<noteq> MqWait i" "l \<noteq> MqSender i"
  shows "wframe l s0 s'"
  using assms(1) by cases (erule wf_mq_ops [OF assms(2-4)])+

text \<open>The calls that are an operation of the object that \<open>l\<close> belongs to.\<close>

inductive own_call :: "qid \<Rightarrow> kernel \<Rightarrow> kernel \<Rightarrow> bool" where
  "rt_sem_init i v flag s = Some (r, s') \<Longrightarrow> own_call (SemWait i) s s'"
| "rt_sem_detach i s = Some (r, s') \<Longrightarrow> own_call (SemWait i) s s'"
| "rt_sem_create (Some i) v flag s = Some (q, s') \<Longrightarrow> own_call (SemWait i) s s'"
| "rt_sem_delete i s = Some (r, s') \<Longrightarrow> own_call (SemWait i) s s'"
| "rt_sem_take i time s = Some (c, s') \<Longrightarrow> own_call (SemWait i) s s'"
| "rt_sem_release i s = Some (r, s') \<Longrightarrow> own_call (SemWait i) s s'"
| "rt_sem_control i k v s = Some (r, s') \<Longrightarrow> own_call (SemWait i) s s'"
| "rt_mutex_init i flag s = Some (r, s') \<Longrightarrow> own_call (MutexWait i) s s'"
| "rt_mutex_detach i s = Some (r, s') \<Longrightarrow> own_call (MutexWait i) s s'"
| "rt_mutex_create (Some i) flag s = Some (q, s') \<Longrightarrow> own_call (MutexWait i) s s'"
| "rt_mutex_delete i s = Some (r, s') \<Longrightarrow> own_call (MutexWait i) s s'"
| "rt_mutex_take i time s = Some (c, s') \<Longrightarrow> own_call (MutexWait i) s s'"
| "rt_mutex_release i s = Some (r, s') \<Longrightarrow> own_call (MutexWait i) s s'"
| own_mb_call: "mb_call i s s' \<Longrightarrow> own_call (MbWait i) s s'"
| own_mq_call: "mq_call i s s' \<Longrightarrow> own_call (MqWait i) s s'"

inductive_cases own_sem [elim!]: "own_call (SemWait i) s s'"
inductive_cases own_mutex [elim!]: "own_call (MutexWait i) s s'"
inductive_cases own_mb [elim!]: "own_call (MbWait i) s s'"
inductive_cases own_mq [elim!]: "own_call (MqWait i) s s'"

lemma own_or_frame:
  assumes w: "wframe l s s"
  shows
    "rt_sem_init i v flag s = Some (r, s') \<Longrightarrow> own_call l s s' \<or> wframe l s s'"
    "rt_sem_detach i s = Some (r, s') \<Longrightarrow> own_call l s s' \<or> wframe l s s'"
    "rt_sem_delete i s = Some (r, s') \<Longrightarrow> own_call l s s' \<or> wframe l s s'"
    "rt_sem_take i time s = Some (c, s') \<Longrightarrow> own_call l s s' \<or> wframe l s s'"
    "rt_sem_release i s = Some (r, s') \<Longrightarrow> own_call l s s' \<or> wframe l s s'"
    "rt_sem_control i k v s = Some (r, s') \<Longrightarrow> own_call l s s' \<or> wframe l s s'"
    "rt_mutex_init i flag s = Some (r, s') \<Longrightarrow> own_call l s s' \<or> wframe l s s'"
    "rt_mutex_detach i s = Some (r, s') \<Longrightarrow> own_call l s s' \<or> wframe l s s'"
    "rt_mutex_delete i s = Some (r, s') \<Longrightarrow> own_call l s s' \<or> wframe l s s'"
    "rt_mutex_take i time s = Some (c, s') \<Longrightarrow> own_call l s s' \<or> wframe l s s'"
    "rt_mutex_release i s = Some (r, s') \<Longrightarrow> own_call l s s' \<or> wframe l s s'"
  by (metis own_call.intros(1) wf_sem_ops(1) [OF _ w],
      metis own_call.intros(2) wf_sem_ops(2) [OF _ w],
      metis own_call.intros(4) wf_sem_ops(4) [OF _ w],
      metis own_call.intros(5) wf_sem_take [OF _ w],
      metis own_call.intros(6) wf_sem_ops(5) [OF _ w],
      metis own_call.intros(7) wf_sem_ops(6) [OF _ w],
      metis own_call.intros(8) wf_mutex_ops(1) [OF _ w],
      metis own_call.intros(9) wf_mutex_ops(2) [OF _ w],
      metis own_call.intros(11) wf_mutex_ops(4) [OF _ w],
      metis own_call.intros(12) wf_mutex_take [OF _ w],
      metis own_call.intros(13) wf_mutex_release [OF _ w])

lemma kcall_frame:
  assumes "kcall s s'" "l = SemWait j \<or> l = MutexWait j \<or> l = MbWait j \<or> l = MqWait j"
  shows "own_call l s s' \<or> wframe l s s'"
proof -
  have w: "wframe l s s" using assms(2) by (intro wframe_refl) auto
  have n: "l \<noteq> EventWait i" "l \<noteq> MbSender i" "l \<noteq> MqSender i" for i
    using assms(2) by auto
  have mb: "own_call l s s' \<or> wframe l s s'" if "mb_call i s s'" for i
    using wf_mb_call [OF that w _ n(2)] own_mb_call [OF that] by blast
  have mq: "own_call l s s' \<or> wframe l s s'" if "mq_call i s s'" for i
    using wf_mq_call [OF that w _ n(3)] own_mq_call [OF that] by blast
  have t: "wframe l s (rt_enter_critical s)" "wframe l s (rt_interrupt_enter s)"
    "wframe l s (rt_interrupt_leave s)" "wframe l s (rt_tick_set v s)" for v
    using w by (simp_all add: rt_enter_critical_def rt_interrupt_enter_def rt_interrupt_leave_def rt_tick_set_def)
  note ops = wf_exit_critical [OF _ w] wf_scheduler_start [OF _ w] wf_schedule [OF _ w] wf_timer_ops [OF _ w] wf_thread_ops [OF _ w]
    wf_startup [OF _ w] wf_sleep [OF _ w] wf_delay_until [OF _ w] wf_sleep_resume [OF _ w]
    wf_thread_control [OF _ w] wf_suspend [OF _ w] wf_resume [OF _ w] wf_mutex_ops(5) [OF _ w]
    wf_event_send [OF _ w n(1)] wf_event_recv [OF _ w n(1)] wf_event_ops(1,2,4-) [OF _ w n(1)]
    wf_event_ops(3) [OF _ w n(1)]
  from assms(1) show ?thesis
  proof cases
    case (k_mb_create alloc mem v flag q)
    then show ?thesis using wf_create_none(1) mb [OF mb_call.mb_create] w by (cases alloc) blast+
  next
    case (k_mq_create alloc qmem v v' flag q)
    then show ?thesis using wf_create_none(2) mq [OF mq_call.mq_create] w by (cases alloc) blast+
  next
    case (k_sem_create alloc v flag q)
    show ?thesis
    proof (cases "\<exists>i. alloc = Some i \<and> l = SemWait i")
      case True
      then show ?thesis using k_sem_create own_call.intros(3) by auto
    next
      case False
      then show ?thesis using wf_sem_ops(3) [OF k_sem_create w] by auto
    qed
  next
    case (k_mutex_create alloc flag q)
    show ?thesis
    proof (cases "\<exists>i. alloc = Some i \<and> l = MutexWait i")
      case True
      then show ?thesis using k_mutex_create own_call.intros(10) by auto
    next
      case False
      then show ?thesis using wf_mutex_ops(3) [OF k_mutex_create w] by auto
    qed
  next
    case k_defunct_execute
    then show ?thesis using wf_defunct_execute w by blast
  qed (simp add: t | erule own_or_frame [OF w] | (rule disjI2, erule ops) | (rule mb, erule mb_call.intros) | (rule mq, erule mq_call.intros))+
qed

subsection \<open>Invariants between an object and its waiters\<close>

text \<open>
  The contract of such an invariant: the object's own calls keep it (in states that satisfy the
  kernel invariant), and it depends on nothing but the object and the set of its waiters.
\<close>

locale waiter_invariant =
  fixes l :: qid and ok :: "kernel \<Rightarrow> bool"
  assumes kind: "\<exists>j. l = SemWait j \<or> l = MutexWait j \<or> l = MbWait j \<or> l = MqWait j"
    and frame: "wframe l s s' \<Longrightarrow> ok s \<Longrightarrow> ok s'"
    and own: "own_call l s s' \<Longrightarrow> kinv s \<Longrightarrow> ok s \<Longrightarrow> ok s'"
    and power: "power_on s \<Longrightarrow> ok s"
begin

lemma refl_frame: "wframe l s s"
  using kind by (auto intro: wframe_refl)

lemma call: "kcall s s' \<Longrightarrow> kinv s \<Longrightarrow> ok s \<Longrightarrow> ok s'"
  using kcall_frame own frame kind by blast

lemma calls: "kcall\<^sup>*\<^sup>* s s' \<Longrightarrow> kinv s \<Longrightarrow> ok s \<Longrightarrow> ok s'"
  by (induction rule: rtranclp_induct) (auto intro: call kcalls_kinv)

lemma timers_only: "timers_only s s' \<Longrightarrow> ok s \<Longrightarrow> ok s'"
  using frame [of s s'] refl_frame by (auto simp: timers_only_def)

lemma fire_keeps:
  "fire cb m s = Some s' \<Longrightarrow> acts_by_calls cb \<Longrightarrow> kinv s \<Longrightarrow> ok s \<Longrightarrow> ok s'"
  using calls [of s s'] frame [OF wf_timeout [OF _ refl_frame]] unfolding acts_by_calls_def
  by (cases m) auto

lemma check_loop_keeps:
  assumes "timer_check_loop (fire cb) now s = Some s'" "acts_by_calls cb" "kinv s" "ok s"
  shows "ok s'"
proof -
  define P where "P f (now :: u32) s s' \<longleftrightarrow> (f = fire cb \<longrightarrow> kinv s \<longrightarrow> ok s \<longrightarrow> ok s')" for f now s s'
  have "P (fire cb) now s s'"
  proof (rule timer_check_loop.raw_induct [OF _ assms(1)])
    fix loop f and now :: u32 and s s'
    assume IH: "\<And>f now s y. loop f now s = Some y \<Longrightarrow> P f now s y"
      and step: "(case timer_list s of [] \<Rightarrow> Some s
        | m # _ \<Rightarrow> if now - timeout_tick (timers s m) < TICK_HORIZON
            then let s = timer_remove m s; s = if periodic (timers s m) then s else deactivate m s
              in f m (s\<lparr>expired := m # expired s\<rparr>) \<bind>
                 (\<lambda>s. let current_tick = rt_tick s
                   in if expired s = [] then loop f current_tick s
                      else let s = timer_remove m s
                        in if periodic (timers s m) \<and> activated (timers s m)
                           then rt_timer_start m (deactivate m s) \<bind> (\<lambda>(_, s). loop f current_tick s)
                           else loop f current_tick s)
            else Some s) = Some s'"
    show "P f now s s'"
      unfolding P_def
    proof (intro impI)
      assume f: "f = fire cb" and inv: "kinv s" and ok: "ok s"
      show "ok s'"
      proof (cases "\<exists>m ms. timer_list s = m # ms \<and> now - timeout_tick (timers s m) < TICK_HORIZON")
        case False
        with step ok show ?thesis by (auto split: list.splits if_splits)
      next
        case True
        then obtain m ms where m: "timer_list s = m # ms" "now - timeout_tick (timers s m) < TICK_HORIZON"
          by blast
        from step [unfolded m(1) list.case f]
        show ?thesis
          by (rule timer_check_round [OF acts_by_calls_ok [OF assms(2)] inv m])
            (use IH f ok assms(2) timers_only fire_keeps in \<open>auto simp: P_def\<close>)
      qed
    qed
  qed
  then show ?thesis using assms(3,4) by (simp add: P_def)
qed

lemma tick_keeps:
  assumes "rt_tick_increase cb s = Some s'" "acts_by_calls cb" "kinv s" "ok s"
  shows "ok s'"
proof -
  obtain c where c: "rt_current_thread s = Some c"
    using assms(1) by (auto simp: rt_tick_increase_def rt_thread_self_def bindE Let_def)
  let ?a = "upd_thread c (\<lambda>h. h\<lparr>remaining_tick := remaining_tick h - 1\<rparr>) (s\<lparr>rt_tick := rt_tick s + 1\<rparr>)"
  let ?b = "upd_thread c (\<lambda>h. h\<lparr>remaining_tick := init_tick h, yield := True\<rparr>) ?a"
  obtain s2 where s2: "s2 = ?a \<or> rt_schedule ?b = Some s2"
    "timer_check_loop (fire cb) (rt_tick s2) (s2\<lparr>expired := []\<rparr>) = Some s'"
    using assms(1) c
    by (auto simp: rt_tick_increase_def rt_timer_check_def rt_thread_self_def bindE Let_def simp del: upd_thread_sel
        split: if_splits)
  have "kinv ?a" "kinv ?b" "wframe l s ?a" "wframe l s ?b" using assms(3) refl_frame by simp_all
  then have "kinv s2" "wframe l s s2" using s2(1) inv_schedule wf_schedule by blast+
  then show ?thesis
    using check_loop_keeps [OF s2(2) assms(2)] frame [of s "s2\<lparr>expired := []\<rparr>"] assms(4) by simp
qed

lemma always: "reachable cb s \<Longrightarrow> acts_by_calls cb \<Longrightarrow> ok s"
proof (induction rule: reachable.induct)
  case (step s s')
  then have "kinv s" "ok s" using reachable_kinv by auto
  with step.hyps(2) step.prems show ?case by cases (auto intro: call tick_keeps)
qed (rule power)

end

end
