(* ===== verification/SemProps.thy ===== *)
theory SemProps imports WaitFrame
begin

text \<open>
  What semaphores promise: no wake-up is lost, a token goes to the thread that waits first, and
  deleting a semaphore wakes everyone with an error.
\<close>

subsection \<open>Facts about blocking and waking\<close>

lemma suspend_object:
  assumes "ipc_list_suspend k t flag s = Some s'" "wait_list l"
  shows "object_same l s s'"
proof -
  obtain r s1 where s1: "rt_thread_suspend t s = Some (r, s1)"
    "\<exists>place. list_link k place t s1 = Some s'"
    using assms(1) by (auto simp: ipc_list_suspend_def bindE split: if_splits)
  have "object_same l s s1"
    using wf_suspend [OF s1(1) wframe_refl [OF assms(2)]] by (simp add: wframe_def)
  moreover have "object_same l s s' = object_same l s s1"
    by (rule object_same_cong) (use s1(2) in \<open>auto simp: list_link_def bindE\<close>)
  ultimately show ?thesis by simp
qed

text \<open>The common end of the calls that block once leaves the object as it is.\<close>

lemma block_object:
  assumes "ipc_list_suspend k t flag s = Some s1" "start_timeout t time s1 = Some s2"
    "switch_out t () (\<lambda>s. Some (apfst Done (ipc_wait_resume t s))) s2 = Some (r, s')" "wait_list l"
  shows "object_same l s s'"
proof -
  have "wframe l s1 s'"
    by (rule wf_switch_wait [OF assms(3) wf_start_timeout [OF assms(2) wframe_refl [OF assms(4)]]])
  then show ?thesis
    using suspend_object [OF assms(1,4)] object_same_trans by (auto simp: wframe_def)
qed

lemma resume_all_empty:
  "ipc_list_resume_all l s = Some s' \<Longrightarrow> kinv s \<Longrightarrow> wait_list l \<Longrightarrow> queue s' l = []"
  using resume_all_spec [of s l] by auto

lemma wframe_empty: "wframe l s s' \<Longrightarrow> queue s l = [] \<Longrightarrow> queue s' l = []"
  by (simp add: wframe_def)

subsection \<open>No wake-up is lost\<close>

definition sem_ok :: "oid \<Rightarrow> kernel \<Rightarrow> bool" where
  "sem_ok i s \<longleftrightarrow> sem_value (sems s i) = 0 \<or> queue s (SemWait i) = []"

lemma sem_ok_take:
  assumes "rt_sem_take i time s = Some (c, s')" "sem_ok i s"
  shows "sem_ok i s'"
proof (cases "0 < sem_value (sems s i) \<or> time = 0")
  case True
  then show ?thesis using assms by (auto simp: rt_sem_take_def bindE sem_ok_def split: if_splits)
next
  case False
  then obtain t s1 s2 where
    "ipc_list_suspend (SemWait i) t (sem_flag (sems s i)) (upd_thread t (error_update (\<lambda>_. RT_EOK)) s) = Some s1"
    "start_timeout t time s1 = Some s2"
    "switch_out t () (\<lambda>s. Some (apfst Done (ipc_wait_resume t s))) s2 = Some (c, s')"
    using assms(1) by (auto simp: rt_sem_take_def bindE Let_def)
  from block_object [OF this, of "SemWait i"] False show ?thesis
    by (simp add: sem_ok_def word_greater_zero_iff)
qed

lemma sem_ok_release:
  assumes "rt_sem_release i s = Some (r, s')" "sem_ok i s"
  shows "sem_ok i s'"
proof (cases "queue s (SemWait i) = []")
  case True
  then show ?thesis using assms by (auto simp: rt_sem_release_def bindE sem_ok_def split: if_splits)
next
  case False
  then obtain s1 where "ipc_list_resume (SemWait i) s = Some s1" "rt_schedule s1 = Some s'"
    using assms(1) by (auto simp: rt_sem_release_def bindE)
  then have "wframe (SemWait i) s s'"
    using wf_schedule wf_ipc_resume wframe_refl [of "SemWait i" s] by auto
  then show ?thesis using assms(2) False by (simp add: sem_ok_def wframe_def)
qed

lemma sem_ok_control:
  assumes "rt_sem_control i k v s = Some (r, s')" "sem_ok i s" "kinv s"
  shows "sem_ok i s'"
proof (cases "k = RT_IPC_CMD_RESET")
  case False
  then show ?thesis using assms by (auto simp: rt_sem_control_def bindE)
next
  case True
  then obtain s1 where s1: "ipc_list_resume_all (SemWait i) s = Some s1"
    "rt_schedule (upd_sem i (sem_value_update (\<lambda>_. ucast v)) s1) = Some s'"
    using assms(1) by (auto simp: rt_sem_control_def bindE)
  have "queue s1 (SemWait i) = []" using resume_all_empty [OF s1(1) assms(3)] by simp
  then have "queue s' (SemWait i) = []"
    using wframe_empty [OF wf_schedule [OF s1(2) wframe_refl], of "SemWait i"] by simp
  then show ?thesis by (simp add: sem_ok_def)
qed

lemma sem_ok_others:
  "rt_sem_init i v flag s = Some (r, s') \<Longrightarrow> sem_ok i s'"
  "rt_sem_create (Some i) v flag s = Some (q, s') \<Longrightarrow> sem_ok i s'"
  "rt_sem_detach i s = Some (r, s') \<Longrightarrow> kinv s \<Longrightarrow> sem_ok i s'"
  "rt_sem_delete i s = Some (r, s') \<Longrightarrow> kinv s \<Longrightarrow> sem_ok i s'"
  by (auto simp: rt_sem_init_def rt_sem_create_def rt_sem_detach_def rt_sem_delete_def ipc_object_init_def
      sem_ok_def bindE dest: resume_all_empty)

interpretation sem: waiter_invariant "SemWait i" "sem_ok i" for i
proof
  show "\<exists>j. SemWait i = SemWait j \<or> SemWait i = MutexWait j \<or> SemWait i = MbWait j \<or> SemWait i = MqWait j" by blast
  show "wframe (SemWait i) s s' \<Longrightarrow> sem_ok i s \<Longrightarrow> sem_ok i s'" for s s'
    by (auto simp: wframe_def sem_ok_def)
  show "own_call (SemWait i) s s' \<Longrightarrow> kinv s \<Longrightarrow> sem_ok i s \<Longrightarrow> sem_ok i s'" for s s'
    by (erule own_sem) (blast intro: sem_ok_others sem_ok_take sem_ok_release sem_ok_control)+
  show "power_on s \<Longrightarrow> sem_ok i s" for s by (simp add: power_on_def sem_ok_def)
qed

text \<open>C5: No wake-up is lost: in every state the kernel can reach, a semaphore that has tokens left has
  no waiting thread.\<close>

theorem sem_no_lost_wakeup:
  assumes "acts_by_calls cb" "reachable cb s"
  shows "sem_value (sems s i) = 0 \<or> queue s (SemWait i) = []"
  using sem.always [OF assms(2,1)] by (simp add: sem_ok_def)

text \<open>The booted system after thread 1 has taken the only token of semaphore 0 and waits for another.\<close>

definition waiting_sem :: kernel where
  "waiting_sem = (case (do { (_, s) \<leftarrow> rt_sem_take 0 0xffffffff booted; rt_sem_take 0 0xffffffff s }) of
     Some (_, s) \<Rightarrow> s)"

lemma waiting_sem_reachable: "reachable cb waiting_sem"
proof -
  have "do { (_, s) \<leftarrow> rt_sem_take 0 0xffffffff booted; rt_sem_take 0 0xffffffff s } \<noteq> None" by code_simp
  then obtain c1 s1 c where "rt_sem_take 0 0xffffffff booted = Some (c1, s1)"
    "rt_sem_take 0 0xffffffff s1 = Some (c, waiting_sem)"
    by (auto simp: waiting_sem_def bindE)
  then show ?thesis using booted_reachable reachable_call kcall.k_sem_take by blast
qed

theorem sem_no_lost_wakeup_witness:
  "sem_value (sems waiting_sem 0) = 0 \<or> queue waiting_sem (SemWait 0) = []"
  by (rule sem_no_lost_wakeup [OF acts_by_calls_skip waiting_sem_reachable])

subsection \<open>Release\<close>

lemma wake_one_spec:
  assumes "kinv s" "wait_list l" "queue s l = t # ts" "rt_current_thread s = Some c"
  shows "\<exists>s1 s'. ipc_list_resume l s = Some s1 \<and> rt_schedule s1 = Some s' \<and> kinv s' \<and> queue s' l = ts \<and>
    runnable s' t \<and> error (threads s' t) = error (threads s t) \<and> sems s' = sems s \<and> mutexes s' = mutexes s \<and>
    events s' = events s \<and> mailboxes s' = mailboxes s \<and> mqueues s' = mqueues s \<and>
    (\<forall>u. current_priority (threads s' u) = current_priority (threads s u))"
proof -
  note r = ipc_list_resume_eq [OF assms(1-3)]
  have c: "rt_current_thread (resumed t s) = Some c" using assms(4) by simp
  obtain s' where s': "rt_schedule (resumed t s) = Some s'" "kinv s'" "sched_frame (resumed t s) s'"
    using kinv_schedule [OF r(2)] c by blast
  have "runnable (resumed t s) t" using r(4) by (simp add: runnable_def)
  then have "runnable s' t" using schedule_runnable [OF s'(1) r(2) c] by blast
  moreover have "queue s' l = ts"
    using frame_queue [OF s'(3), of l] r(3) wait_list_not_ready [OF assms(2)] by simp
  moreover have "current_priority (threads s' u) = current_priority (threads s u)" for u
    using frame_fields(3) [OF s'(3), of u] by (cases "u = t") simp_all
  ultimately show ?thesis
    using r(1) s' frame_fields(1,12-16) [OF s'(3)] by simp
qed

text \<open>C12: \<open>rt_sem_release\<close> hands the token to the thread that is first in the list, which becomes runnable
  without an error and without the value ever changing; with no thread waiting it counts up, and at
  65535 it refuses with \<open>-RT_EFULL\<close> and changes nothing.\<close>

theorem sem_release_hands_over:
  assumes "acts_by_calls cb" "reachable cb s" "sem_obj (sems s i) \<noteq> ObjNull" "rt_current_thread s = Some c"
  shows "\<exists>r s'. rt_sem_release i s = Some (r, s') \<and>
    (case queue s (SemWait i) of
       t # ts \<Rightarrow> r = RT_EOK \<and> queue s' (SemWait i) = ts \<and> runnable s' t \<and>
         error (threads s' t) = error (threads s t) \<and> sems s' = sems s
     | [] \<Rightarrow> if sem_value (sems s i) < 65535
         then r = RT_EOK \<and> s' = upd_sem i (sem_value_update (\<lambda>v. v + 1)) s
         else r = - RT_EFULL \<and> s' = s)"
proof -
  have inv: "kinv s" using reachable_kinv assms(1,2) by blast
  show ?thesis
  proof (cases "queue s (SemWait i)")
    case Nil
    then show ?thesis using assms(3) by (simp add: rt_sem_release_def RT_UINT16_MAX_def)
  next
    case (Cons t ts)
    obtain s1 s' where "ipc_list_resume (SemWait i) s = Some s1" "rt_schedule s1 = Some s'"
      "queue s' (SemWait i) = ts" "runnable s' t" "error (threads s' t) = error (threads s t)" "sems s' = sems s"
      using wake_one_spec [OF inv _ Cons assms(4)] by auto
    then show ?thesis
      using assms(3) Cons by (intro exI [of _ RT_EOK] exI [of _ s']) (simp add: rt_sem_release_def)
  qed
qed

theorem sem_release_hands_over_witness:
  "\<exists>r s'. rt_sem_release 0 waiting_sem = Some (r, s') \<and> r = RT_EOK \<and> queue s' (SemWait 0) = [] \<and>
    runnable s' 1 \<and> error (threads s' 1) = error (threads waiting_sem 1) \<and> sems s' = sems waiting_sem"
proof -
  have w: "queue waiting_sem (SemWait 0) = [1]" by code_simp
  have o: "sem_obj (sems waiting_sem 0) = ObjStatic" by code_simp
  have c: "rt_current_thread waiting_sem = Some 3" by code_simp
  show ?thesis
    using sem_release_hands_over [OF acts_by_calls_skip waiting_sem_reachable _ c, of 0] w o by simp
qed

subsection \<open>Deleting a semaphore\<close>

text \<open>C13: Taking a semaphore out of the system always ends and strands nobody: every thread that waited is
  made runnable and its \<open>rt_sem_take\<close> returns \<open>-RT_ERROR\<close>, and no other thread changes.\<close>

theorem sem_detach_wakes_all:
  assumes "acts_by_calls cb" "reachable cb s" "sem_obj (sems s i) = ObjStatic"
  shows "\<exists>s'. rt_sem_detach i s = Some (RT_EOK, s') \<and> queue s' (SemWait i) = [] \<and>
    sem_obj (sems s' i) = ObjNull \<and>
    (\<forall>t. if t \<in> set (queue s (SemWait i))
         then runnable s' t \<and> fst (ipc_wait_resume t s') = - RT_ERROR
         else threads s' t = threads s t)"
proof -
  have inv: "kinv s" using reachable_kinv assms(1,2) by blast
  obtain s1 where s1: "ipc_list_resume_all (SemWait i) s = Some s1" "queue s1 (SemWait i) = []" "kinv s1"
    "\<forall>t. if t \<in> set (queue s (SemWait i))
         then error (threads s1 t) = - RT_ERROR \<and> th_obj (threads s1 t) = th_obj (threads s t) \<and>
           stat (threads s1 t) = (if rt_current_thread s = Some t then RT_THREAD_RUNNING else RT_THREAD_READY)
         else threads s1 t = threads s t"
    using resume_all_spec [OF inv, of "SemWait i"] by auto
  have reg: "th_obj (threads s t) \<noteq> ObjNull" if "t \<in> set (queue s (SemWait i))" for t
    using kinv_waiter(2) [OF inv that] by simp
  show ?thesis
    using s1 assms(3) reg
    by (intro exI [of _ "upd_sem i (sem_obj_update (\<lambda>_. ObjNull)) s1"])
      (auto simp: rt_sem_detach_def ipc_wait_resume_def runnable_def split: if_splits)
qed

theorem sem_detach_wakes_all_witness:
  "\<exists>s'. rt_sem_detach 0 waiting_sem = Some (RT_EOK, s') \<and> runnable s' 1 \<and>
    fst (ipc_wait_resume 1 s') = - RT_ERROR \<and> threads s' 2 = threads waiting_sem 2"
proof -
  have w: "queue waiting_sem (SemWait 0) = [1]" by code_simp
  have o: "sem_obj (sems waiting_sem 0) = ObjStatic" by code_simp
  obtain s' where "rt_sem_detach 0 waiting_sem = Some (RT_EOK, s')"
    "\<forall>t. if t \<in> set (queue waiting_sem (SemWait 0)) then runnable s' t \<and> fst (ipc_wait_resume t s') = - RT_ERROR
         else threads s' t = threads waiting_sem t"
    using sem_detach_wakes_all [OF acts_by_calls_skip waiting_sem_reachable o] by blast
  then show ?thesis unfolding w by (intro exI [of _ s']) (auto dest: spec [of _ 1] spec [of _ 2])
qed

subsection \<open>Waiting\<close>

text \<open>The common blocking path: the running thread enters the list \<open>l\<close>, its timer starts if the wait is bounded, another thread runs.\<close>

lemma block_once_spec:
  assumes "kinv s" "rt_current_thread s = Some t" "stat (threads s t) = RT_THREAD_RUNNING" "wait_list l"
    "flag = RT_IPC_FLAG_FIFO \<or> flag = RT_IPC_FLAG_PRIO" "rt_scheduler_lock_nest s = 0" "queue s (Ready q) \<noteq> []"
    "sint time \<le> 0 \<or> time < TICK_HORIZON"
  shows "\<exists>s1 s2 s' n. ipc_list_suspend l t flag s = Some s1 \<and> start_timeout t time s1 = Some s2 \<and>
    switch_out t u k s2 = Some (Blocked u, s') \<and> kinv s' \<and> rt_current_thread s' = Some n \<and> n \<noteq> t \<and>
    queue s' l = wait_place flag (threads s) t (queue s l) \<and>
    threads s' t = (threads s t)\<lparr>stat := RT_THREAD_SUSPEND, tlist := Some l\<rparr> \<and>
    (TThread t \<in> set (timer_list s') \<longleftrightarrow> 0 < sint time) \<and>
    (0 < sint time \<longrightarrow> timeout_tick (timers s' (TThread t)) = rt_tick s + time) \<and>
    sems s' = sems s \<and> mutexes s' = mutexes s \<and> events s' = events s \<and>
    mailboxes s' = mailboxes s \<and> mqueues s' = mqueues s \<and> rt_tick s2 = rt_tick s \<and>
    (\<forall>v. current_priority (threads s' v) = current_priority (threads s v))"
proof -
  let ?w = "waiting l t flag s"
  note w = ipc_suspend_running [OF assms(1-5)]
  have reg: "th_obj (threads s t) \<noteq> ObjNull" using kinv_current(1) [OF assms(1,2)] .
  have wth: "threads ?w t = (threads s t)\<lparr>stat := RT_THREAD_SUSPEND, tlist := Some l\<rparr>"
    by (simp add: waiting_def)
  have tm: "tm_obj (timers ?w (TThread t)) = ObjStatic"
    using kinv_timer_obj(1) [OF w(2)] wth reg by (simp add: live_def)
  have "timers_ok s" using assms(1) by (simp add: kinv_def kinv_but_def)
  then have un: "TThread t \<notin> set (timer_list ?w)"
    by (simp add: waiting_def suspended_def) (rule stop_timer_removed, simp add: timers_ok_def)
  let ?m = "TThread t"
  let ?v = "if 0 < sint time then start_timer ?m (upd_timer ?m (tm_init_tick_update (\<lambda>_. time)) ?w) else ?w"
  have st: "start_timeout t time ?w = Some ?v"
    using start_thread_timer_eq [of ?w t time] tm assms(8) by (auto simp: start_timeout_def)
  have inv: "kinv ?v"
    using inv_start_timeout [OF st w(2)] wth reg by simp
  have v: "threads ?v = threads ?w" "queue ?v = queue ?w" "rt_current_thread ?v = Some t"
    "rt_scheduler_lock_nest ?v = 0" "sems ?v = sems s" "mutexes ?v = mutexes s" "events ?v = events s"
    "mailboxes ?v = mailboxes s" "mqueues ?v = mqueues s" "rt_tick ?v = rt_tick s"
    "TThread t \<in> set (timer_list ?v) \<longleftrightarrow> 0 < sint time"
    "0 < sint time \<Longrightarrow> timeout_tick (timers ?v ?m) = rt_tick s + time"
    using assms(2,6) un by (auto simp: waiting_def) (simp add: start_timer_def Let_def)
  have "queue ?v (Ready q) \<noteq> []" using assms(4,7) unfolding v(2) by (auto simp: waiting_def)
  then obtain s' n where s': "kinv s'" "sched_frame ?v s'" "rt_current_thread s' = Some n" "n \<noteq> t"
      "threads s' t = threads ?v t" "switch_out t u k ?v = Some (Blocked u, s')"
    using switch_away [OF inv v(3) _ v(4), of q u k] wth v(1) by auto
  have "queue s' l = wait_place flag (threads s) t (queue s l)"
    using frame_queue [OF s'(2), of l] wait_list_not_ready [OF assms(4)] v(2) by (simp add: waiting_def)
  moreover have "current_priority (threads s' x) = current_priority (threads s x)" for x
    using frame_fields(3) [OF s'(2), of x] v(1) by (simp add: waiting_def)
  ultimately show ?thesis
    using w(1) st s' v wth frame_fields(8,9,12-16) [OF s'(2)]
    by (intro exI [of _ ?w] exI [of _ ?v] exI [of _ s'] exI [of _ n]) (simp del: start_timer_sel)
qed



end
