(* ===== verification/MutexProps.thy ===== *)
theory MutexProps imports SemProps
begin

text \<open>
  What mutexes promise: owner, count and value agree, a free mutex has no waiters, ownership passes
  to the first waiter, and priorities are inherited and given back.
\<close>

subsection \<open>Owner, count and value agree\<close>

definition mutex_ok :: "oid \<Rightarrow> kernel \<Rightarrow> bool" where
  "mutex_ok i s \<longleftrightarrow> mtx_obj (mutexes s i) \<noteq> ObjNull \<longrightarrow>
     (if owner (mutexes s i) = None
      then mtx_value (mutexes s i) = 1 \<and> hold (mutexes s i) = 0 \<and> queue s (MutexWait i) = []
      else mtx_value (mutexes s i) = 0 \<and> 0 < hold (mutexes s i))"

lemma mutex_ok_cong:
  "mutexes s' i = mutexes s i \<Longrightarrow> queue s' (MutexWait i) = [] \<or> queue s (MutexWait i) \<noteq> [] \<Longrightarrow>
   mutex_ok i s \<Longrightarrow> mutex_ok i s'"
  by (auto simp: mutex_ok_def split: if_splits)

lemma mutex_ok_frame: "wframe (MutexWait i) s s' \<Longrightarrow> mutex_ok i s \<Longrightarrow> mutex_ok i s'"
  by (rule mutex_ok_cong) (auto simp: wframe_def)

lemma mutex_ok_take:
  assumes "rt_mutex_take i time s = Some (c, s')" "mutex_ok i s"
  shows "mutex_ok i s'"
proof -
  obtain t where t: "rt_current_thread s = Some t" and obj: "mtx_obj (mutexes s i) \<noteq> ObjNull"
    using assms(1) by (auto simp: rt_mutex_take_def rt_thread_self_def bindE)
  let ?e = "upd_thread t (error_update (\<lambda>_. RT_EOK)) s"
  have oke: "mutex_ok i ?e" using assms(2) by (simp add: mutex_ok_def)
  show ?thesis
  proof (cases "owner (mutexes s i) = Some t \<or> 0 < mtx_value (mutexes s i) \<or> time = 0")
    case True
    have inc: "0 < (h :: u8) + 1" if "h < 0xff" for h
      using that by (simp add: word_less_nat_alt unat_word_ariths)
    consider (own) "owner (mutexes s i) = Some t" | (free) "owner (mutexes s i) \<noteq> Some t" "0 < mtx_value (mutexes s i)"
      | (busy) "owner (mutexes s i) \<noteq> Some t" "\<not> 0 < mtx_value (mutexes s i)" "time = 0"
      using True by blast
    then show ?thesis
    proof cases
      case own
      then show ?thesis using assms t obj inc
        by (auto simp: rt_mutex_take_def rt_thread_self_def bindE Let_def mutex_ok_def RT_UINT8_MAX_def split: if_splits)
    next
      case free
      then have "owner (mutexes s i) = None" "mtx_value (mutexes s i) = 1" "hold (mutexes s i) = 0"
        using assms(2) obj by (auto simp: mutex_ok_def split: if_splits)
      then show ?thesis using assms free t obj
        by (auto simp: rt_mutex_take_def rt_thread_self_def bindE Let_def mutex_ok_def RT_UINT8_MAX_def split: if_splits)
    next
      case busy
      then show ?thesis using assms t by (auto simp: rt_mutex_take_def rt_thread_self_def bindE Let_def mutex_ok_def)
    qed
  next
    case False
    then obtain s0 s1 s2 where b: "mutex_inherit i t ?e = Some s0"
      "ipc_list_suspend (MutexWait i) t (mtx_flag (mutexes s0 i)) s0 = Some s1" "start_timeout t time s1 = Some s2"
      "switch_out t () (\<lambda>s. Some (apfst Done (ipc_wait_resume t s))) s2 = Some (c, s')"
      using assms(1) t by (auto simp: rt_mutex_take_def rt_thread_self_def bindE Let_def)
    have "mutexes s0 i = mutexes s i"
      using wf_mutex_inherit [OF b(1), of "MutexWait i" ?e] wframe_refl by (simp add: wframe_def)
    moreover have "mutexes s' i = mutexes s0 i"
      using block_object [OF b(2-4), of "MutexWait i"] by simp
    ultimately show ?thesis
      using assms(2) False obj by (auto simp: mutex_ok_def split: if_splits)
  qed
qed

lemma mutex_ok_release:
  assumes "rt_mutex_release i s = Some (r, s')" "mutex_ok i s"
  shows "mutex_ok i s'"
proof -
  obtain t where t: "rt_current_thread s = Some t" and obj: "mtx_obj (mutexes s i) \<noteq> ObjNull"
    using assms(1) by (auto simp: rt_mutex_release_def rt_thread_self_def bindE)
  let ?s = "upd_mutex i (hold_update (\<lambda>h. h - 1)) s"
  show ?thesis
  proof (cases "owner (mutexes s i) = Some t \<and> hold (mutexes ?s i) = 0")
    case False
    then show ?thesis
      using assms t by (auto simp: rt_mutex_release_def rt_thread_self_def bindE Let_def mutex_ok_def word_greater_zero_iff split: if_splits)
  next
    case True
    have val: "mtx_value (mutexes s i) = 0" using assms(2) True obj by (simp add: mutex_ok_def)
    obtain s1 where s1: "mutex_restore i t ?s = Some s1"
      "(case queue s1 (MutexWait i) of
          w # _ \<Rightarrow> mutex_hand_over i w s1
        | [] \<Rightarrow> if mtx_value (mutexes s1 i) < RT_UINT16_MAX
               then Some (RT_EOK, upd_mutex i (\<lambda>m. m\<lparr>mtx_value := mtx_value m + 1,
                     owner := None, original_priority := 0xff\<rparr>) s1)
               else Some (- RT_EFULL, s1)) = Some (r, s')"
      using assms(1) t True by (auto simp: rt_mutex_release_def rt_thread_self_def bindE Let_def)
    have m: "mutexes s1 i = mutexes ?s i"
      using wf_mutex_restore [OF s1(1), of "MutexWait i" ?s] wframe_refl by (simp add: wframe_def)
    show ?thesis
    proof (cases "queue s1 (MutexWait i)")
      case Nil
      then have "s' = upd_mutex i (\<lambda>m. m\<lparr>mtx_value := mtx_value m + 1, owner := None, original_priority := 0xff\<rparr>) s1"
        using s1(2) m val by (auto simp: RT_UINT16_MAX_def split: if_splits)
      then show ?thesis using m val True Nil by (simp add: mutex_ok_def)
    next
      case (Cons w ws)
      let ?h = "upd_mutex i (hold_update (\<lambda>h. h + 1)) (upd_mutex i (\<lambda>m. m\<lparr>owner := Some w,
        original_priority := current_priority (threads s1 w)\<rparr>) s1)"
      have h0: "hold (mutexes s1 i) = 0" using m True by simp
      obtain s2 where s2: "ipc_list_resume (MutexWait i) ?h = Some s2" "rt_schedule s2 = Some s'"
        using s1(2) Cons h0 by (auto simp: mutex_hand_over_def bindE Let_def RT_UINT8_MAX_def)
      have "wframe (MutexWait i) ?h s'"
        using wf_schedule [OF s2(2) wf_ipc_resume [OF s2(1) wframe_refl]] by simp
      moreover have "mutex_ok i ?h" using h0 m val by (simp add: mutex_ok_def)
      ultimately show ?thesis by (rule mutex_ok_frame)
    qed
  qed
qed

lemma mutex_ok_others:
  "rt_mutex_init i flag s = Some (r, s') \<Longrightarrow> mutex_ok i s'"
  "rt_mutex_create (Some i) flag s = Some (q, s') \<Longrightarrow> mutex_ok i s'"
  "rt_mutex_detach i s = Some (r, s') \<Longrightarrow> mutex_ok i s'"
  "rt_mutex_delete i s = Some (r, s') \<Longrightarrow> mutex_ok i s'"
  by (auto simp: rt_mutex_init_def rt_mutex_create_def rt_mutex_detach_def rt_mutex_delete_def ipc_object_init_def
      mutex_ok_def new_mutex_def bindE)

interpretation mutex: waiter_invariant "MutexWait i" "mutex_ok i" for i
proof
  show "\<exists>j. MutexWait i = SemWait j \<or> MutexWait i = MutexWait j \<or> MutexWait i = MbWait j \<or> MutexWait i = MqWait j" by blast
  show "own_call (MutexWait i) s s' \<Longrightarrow> kinv s \<Longrightarrow> mutex_ok i s \<Longrightarrow> mutex_ok i s'" for s s'
    by (erule own_mutex) (blast intro: mutex_ok_others mutex_ok_take mutex_ok_release)+
  show "power_on s \<Longrightarrow> mutex_ok i s" for s by (simp add: power_on_def mutex_ok_def)
qed (rule mutex_ok_frame)

text \<open>C4: In every state the kernel can reach a registered mutex is either free - value one, held zero
  times, nobody waiting - or owned by exactly one thread, with value zero and a positive count.\<close>

theorem mutex_consistent:
  assumes "acts_by_calls cb" "reachable cb s" "mtx_obj (mutexes s i) \<noteq> ObjNull"
  shows "if owner (mutexes s i) = None
    then mtx_value (mutexes s i) = 1 \<and> hold (mutexes s i) = 0 \<and> queue s (MutexWait i) = []
    else mtx_value (mutexes s i) = 0 \<and> 0 < hold (mutexes s i)"
  using mutex.always [OF assms(2,1)] assms(3) unfolding mutex_ok_def by blast

text \<open>The booted system after thread 1 has taken mutex 0.\<close>

definition holding :: kernel where
  "holding = (case rt_mutex_take 0 0xffffffff booted of Some (_, s) \<Rightarrow> s)"

lemma holding_reachable: "reachable cb holding"
proof -
  have "rt_mutex_take 0 0xffffffff booted \<noteq> None" by code_simp
  then obtain c where "rt_mutex_take 0 0xffffffff booted = Some (c, holding)"
    by (auto simp: holding_def)
  then show ?thesis using booted_reachable reachable_call kcall.k_mutex_take by blast
qed

theorem mutex_consistent_witness:
  "owner (mutexes holding 0) = Some 1 \<and> mtx_value (mutexes holding 0) = 0 \<and> 0 < hold (mutexes holding 0)"
proof -
  have "owner (mutexes holding 0) = Some 1" "mtx_obj (mutexes holding 0) = ObjStatic" by code_simp+
  then show ?thesis
    using mutex_consistent [OF acts_by_calls_skip holding_reachable, of 0] by simp
qed

subsection \<open>Changing a priority\<close>

lemma change_priority_spec:
  assumes "kinv s" "th_obj (threads s t) \<noteq> ObjNull" "unat p < 32"
  shows "\<exists>s'. change_priority t p s = Some s' \<and> kinv s' \<and>
    (\<exists>l. threads s' t = (threads s t)\<lparr>current_priority := p, number_mask := 2 ^ unat p, tlist := l\<rparr>) \<and>
    (\<forall>u. u \<noteq> t \<longrightarrow> threads s' u = threads s u) \<and> (stat (threads s t) \<noteq> RT_THREAD_READY \<longrightarrow> queue s' = queue s) \<and>
    (\<forall>l. (\<forall>p. l \<noteq> Ready p) \<longrightarrow> queue s' l = queue s l) \<and> rt_current_thread s' = rt_current_thread s \<and>
    rt_scheduler_lock_nest s' = rt_scheduler_lock_nest s \<and> rt_interrupt_nest s' = rt_interrupt_nest s \<and>
    mutexes s' = mutexes s"
proof (cases "stat (threads s t) = RT_THREAD_READY")
  case True
  let ?f = "\<lambda>h. h\<lparr>current_priority := p, number_mask := 2 ^ unat p\<rparr>"
  have inv: "kinv_but {} s" using assms(1) by (simp add: kinv_def)
  obtain g where g: "rt_schedule_remove_thread t s = Some ((list_remove t s)\<lparr>rt_thread_ready_priority_group := g\<rparr>)"
    "kinv_but {t} ((list_remove t s)\<lparr>rt_thread_ready_priority_group := g\<rparr>)"
    using kinv_schedule_remove [OF inv, of t] assms(2) True by auto
  let ?s1 = "(list_remove t s)\<lparr>rt_thread_ready_priority_group := g\<rparr>"
  have "flight_ok ?s1 t" using g(2) by (simp add: kinv_flight)
  then have "kinv_but {t} (upd_thread t ?f ?s1)"
    using assms(3) True
    by (intro kinv_upd_one [OF g(2)])
      (auto simp: flight_ok_def thread_base_def live_def RT_THREAD_PRIORITY_MAX_def Let_def)
  moreover have "thread_ok s t" using inv by (simp add: kinv_thread)
  then have "TThread t \<notin> set (timer_list s)" "rt_current_thread s \<noteq> Some t" "\<And>l. tlist (threads s t) = Some l \<Longrightarrow> \<exists>q. l = Ready q"
    using True assms(2) by (auto simp: thread_ok_def place_ok_def Let_def split: qid.splits)
  moreover note kinv_ready_tail(1) [OF calculation(1), of t]
  ultimately have r: "change_priority t p s = Some (ready_tail t (upd_thread t ?f ?s1))"
    and only: "\<And>l. tlist (threads s t) = Some l \<Longrightarrow> \<exists>q. l = Ready q"
    using g(1) True assms(3) by (auto simp: change_priority_def priority_mask_Some [THEN iffD2])
  note inv_change_priority [OF r assms(1,2)]
  moreover have "queue (ready_tail t (upd_thread t ?f ?s1)) l = queue s l" if "\<forall>p. l \<noteq> Ready p" for l
    using that only by (auto simp: ready_tail_def Let_def)
  moreover have "threads (ready_tail t (upd_thread t ?f ?s1)) t =
      (threads s t)\<lparr>current_priority := p, number_mask := 2 ^ unat p, tlist := Some (Ready (unat p))\<rparr>"
    using True by (intro rt_thread.equality) (simp_all add: ready_tail_def Let_def)
  moreover have "threads (ready_tail t (upd_thread t ?f ?s1)) u = threads s u" if "u \<noteq> t" for u
    using that by (simp add: ready_tail_def Let_def)
  moreover have "rt_current_thread (ready_tail t (upd_thread t ?f ?s1)) = rt_current_thread s"
    "rt_scheduler_lock_nest (ready_tail t (upd_thread t ?f ?s1)) = rt_scheduler_lock_nest s"
    "rt_interrupt_nest (ready_tail t (upd_thread t ?f ?s1)) = rt_interrupt_nest s"
    "mutexes (ready_tail t (upd_thread t ?f ?s1)) = mutexes s"
    by (simp_all add: ready_tail_def Let_def)
  ultimately show ?thesis
    using r True by (intro exI [of _ "ready_tail t (upd_thread t ?f ?s1)"]) blast
next
  case False
  then have r: "change_priority t p s = Some (upd_thread t (\<lambda>h. h\<lparr>current_priority := p, number_mask := 2 ^ unat p\<rparr>) s)"
    using assms(3) by (simp add: change_priority_def priority_mask_Some [THEN iffD2])
  have "\<exists>l. (threads s t)\<lparr>current_priority := p, number_mask := 2 ^ unat p\<rparr> =
      (threads s t)\<lparr>current_priority := p, number_mask := 2 ^ unat p, tlist := l\<rparr>"
    by (rule exI [of _ "tlist (threads s t)"]) simp
  then show ?thesis
    using r inv_change_priority [OF r assms(1,2)]
    by (intro exI [of _ "upd_thread t (\<lambda>h. h\<lparr>current_priority := p, number_mask := 2 ^ unat p\<rparr>) s"]) auto
qed

subsection \<open>Priority inheritance\<close>

lemma inherit_spec:
  assumes "kinv s" "owner (mutexes s i) = Some ow" "th_obj (threads s ow) \<noteq> ObjNull" "ow \<noteq> t"
    "th_obj (threads s t) \<noteq> ObjNull" "queue s (Ready q) \<noteq> []"
  shows "\<exists>s'. mutex_inherit i t s = Some s' \<and> kinv s' \<and> threads s' t = threads s t \<and>
    current_priority (threads s' ow) = min (current_priority (threads s ow)) (current_priority (threads s t)) \<and>
    (\<exists>q. queue s' (Ready q) \<noteq> []) \<and> (\<forall>l. (\<forall>p. l \<noteq> Ready p) \<longrightarrow> queue s' l = queue s l) \<and>
    rt_current_thread s' = rt_current_thread s \<and> rt_scheduler_lock_nest s' = rt_scheduler_lock_nest s \<and>
    mutexes s' = mutexes s"
proof (cases "current_priority (threads s t) < current_priority (threads s ow)")
  case False
  then have "mutex_inherit i t s = Some s" using assms(2) by (simp add: mutex_inherit_def)
  then show ?thesis using False assms by (intro exI [of _ s]) (auto simp: min_def not_less)
next
  case True
  let ?p = "current_priority (threads s t)"
  have "thread_ok s t" using assms(1) by (simp add: kinv_def kinv_thread)
  then have "unat ?p < 32"
    using assms(5) by (simp add: thread_ok_def thread_base_def RT_THREAD_PRIORITY_MAX_def Let_def)
  then obtain s' l where s': "change_priority ow ?p s = Some s'" "kinv s'"
    "threads s' ow = (threads s ow)\<lparr>current_priority := ?p, number_mask := 2 ^ unat ?p, tlist := l\<rparr>"
    "\<And>u. u \<noteq> ow \<Longrightarrow> threads s' u = threads s u" "stat (threads s ow) \<noteq> RT_THREAD_READY \<Longrightarrow> queue s' = queue s"
    "\<And>l. (\<forall>p. l \<noteq> Ready p) \<Longrightarrow> queue s' l = queue s l" "rt_current_thread s' = rt_current_thread s"
    "rt_scheduler_lock_nest s' = rt_scheduler_lock_nest s" "mutexes s' = mutexes s"
    using change_priority_spec [OF assms(1,3)] by blast
  have "\<exists>q. queue s' (Ready q) \<noteq> []"
  proof (cases "stat (threads s ow) = RT_THREAD_READY")
    case True
    then have "ow \<in> set (queue s' (Ready (unat (current_priority (threads s' ow)))))"
      using kinv_ready_iff [OF s'(2), of ow] s'(3) assms(3) by simp
    then show ?thesis by (metis empty_iff empty_set)
  qed (use s'(5) assms(6) in auto)
  moreover have "mutex_inherit i t s = Some s'"
    using True assms(2,3) s'(1) by (simp add: mutex_inherit_def rt_thread_control_def)
  moreover have "current_priority (threads s' ow) = min (current_priority (threads s ow)) ?p"
    using True s'(3) by (simp add: min_absorb2 less_imp_le)
  ultimately show ?thesis using s'(2,4,6-9) assms(4) by (intro exI [of _ s']) metis
qed

text \<open>C3: Waiting for a mutex lends its owner the waiter's priority: after the call the owner runs at least
  at the priority of the thread that waits for it, which is suspended in the mutex's list; owner,
  count and value do not change.\<close>

theorem mutex_priority_inheritance:
  assumes "acts_by_calls cb" "reachable cb s" "mtx_obj (mutexes s i) \<noteq> ObjNull" "rt_current_thread s = Some t"
    "stat (threads s t) = RT_THREAD_RUNNING" "rt_scheduler_lock_nest s = 0" "rt_interrupt_nest s = 0"
    "queue s (Ready q) \<noteq> []" "mtx_flag (mutexes s i) = RT_IPC_FLAG_FIFO \<or> mtx_flag (mutexes s i) = RT_IPC_FLAG_PRIO"
    "owner (mutexes s i) = Some ow" "ow \<noteq> t" "th_obj (threads s ow) \<noteq> ObjNull"
    "time \<noteq> 0" "sint time \<le> 0 \<or> time < TICK_HORIZON"
  shows "\<exists>s' n. rt_mutex_take i time s = Some (Blocked (), s') \<and> rt_current_thread s' = Some n \<and> n \<noteq> t \<and>
    current_priority (threads s' ow) = min (current_priority (threads s ow)) (current_priority (threads s t)) \<and>
    stat (threads s' t) = RT_THREAD_SUSPEND \<and>
    set (queue s' (MutexWait i)) = insert t (set (queue s (MutexWait i))) \<and> mutexes s' = mutexes s"
proof -
  let ?e = "upd_thread t (error_update (\<lambda>_. RT_EOK)) s"
  have inv: "kinv ?e" using reachable_kinv assms(1,2) by simp
  have val: "mtx_value (mutexes s i) = 0"
    using mutex.always [OF assms(2,1), of i] assms(3,10) by (simp add: mutex_ok_def)
  have reg: "th_obj (threads ?e t) \<noteq> ObjNull" using kinv_current(1) [OF inv] assms(4) by simp
  obtain s0 q0 where s0: "mutex_inherit i t ?e = Some s0" "kinv s0" "threads s0 t = threads ?e t"
    "current_priority (threads s0 ow) = min (current_priority (threads s ow)) (current_priority (threads s t))"
    "queue s0 (Ready q0) \<noteq> []" "queue s0 (MutexWait i) = queue s (MutexWait i)" "rt_current_thread s0 = Some t"
    "rt_scheduler_lock_nest s0 = 0" "mutexes s0 = mutexes s"
    using inherit_spec [OF inv, of i ow t q] reg assms(4,6,8,10-12) by auto
  have run: "stat (threads s0 t) = RT_THREAD_RUNNING" using s0(3) assms(5) by simp
  obtain s1 s2 s' n where b: "ipc_list_suspend (MutexWait i) t (mtx_flag (mutexes s i)) s0 = Some s1"
    "start_timeout t time s1 = Some s2"
    "switch_out t () (\<lambda>s. Some (apfst Done (ipc_wait_resume t s))) s2 = Some (Blocked (), s')"
    "rt_current_thread s' = Some n" "n \<noteq> t"
    "queue s' (MutexWait i) = wait_place (mtx_flag (mutexes s i)) (threads s0) t (queue s0 (MutexWait i))"
    "threads s' t = (threads s0 t)\<lparr>stat := RT_THREAD_SUSPEND, tlist := Some (MutexWait i)\<rparr>" "mutexes s' = mutexes s0"
    "\<forall>u. current_priority (threads s' u) = current_priority (threads s0 u)"
    using block_once_spec [OF s0(2,7) run, of "MutexWait i" "mtx_flag (mutexes s i)" q0 time "()"
        "\<lambda>s. Some (apfst Done (ipc_wait_resume t s))"] s0(5,8) assms(9,14) by auto
  have "rt_mutex_take i time s = Some (Blocked (), s')"
    using s0(1,9) b(1-3) val assms(3,4,6,7,10,11,13)
    by (simp add: rt_mutex_take_def scheduler_available_def in_thread_context_def not_in_interrupt_def
        rt_interrupt_get_nest_def rt_critical_level_def rt_thread_self_def Let_def)
  then show ?thesis
    using b(4-) s0 by (intro exI [of _ s'] exI [of _ n]) simp
qed

text \<open>Thread 2, of lower priority, holds mutex 0; thread 1 runs again and then asks for it.\<close>

definition contended :: "kernel option" where
  "contended = do {
     (_, s) \<leftarrow> rt_thread_control 1 (RT_THREAD_CTRL_CHANGE_PRIORITY 30) booted;
     (_, s) \<leftarrow> rt_thread_control 3 (RT_THREAD_CTRL_CHANGE_PRIORITY 29) s;
     s \<leftarrow> rt_schedule s;
     (_, s) \<leftarrow> rt_mutex_take 0 0xffffffff s;
     (_, s) \<leftarrow> rt_thread_control 3 (RT_THREAD_CTRL_CHANGE_PRIORITY 10) s;
     rt_schedule s
   }"

definition contending :: kernel where "contending = the contended"

lemma contended_reachable:
  assumes "contended = Some s"
  shows "reachable cb s"
proof -
  obtain x1 x2 x3 x4 x5 where
    "rt_thread_control 1 (RT_THREAD_CTRL_CHANGE_PRIORITY 30) booted = Some x1"
    "rt_thread_control 3 (RT_THREAD_CTRL_CHANGE_PRIORITY 29) (snd x1) = Some x2" "rt_schedule (snd x2) = Some x3"
    "rt_mutex_take 0 0xffffffff x3 = Some x4"
    "rt_thread_control 3 (RT_THREAD_CTRL_CHANGE_PRIORITY 10) (snd x4) = Some x5" "rt_schedule (snd x5) = Some s"
    using assms unfolding contended_def bindE split_def by blast
  then have "kcall booted (snd x1)" "kcall (snd x1) (snd x2)" "kcall (snd x2) x3" "kcall x3 (snd x4)"
    "kcall (snd x4) (snd x5)" "kcall (snd x5) s"
    by (metis kcall.k_thread_control kcall.k_schedule kcall.k_mutex_take prod.collapse)+
  then show ?thesis using booted_reachable [of cb] reachable_call by metis
qed

lemma contending_reachable: "reachable cb contending"
proof -
  have "contended \<noteq> None" by code_simp
  then show ?thesis using contended_reachable by (auto simp: contending_def)
qed

theorem mutex_priority_inheritance_witness:
  "current_priority (threads contending 2) = 20 \<and>
   (\<exists>s'. rt_mutex_take 0 0xffffffff contending = Some (Blocked (), s') \<and>
      current_priority (threads s' 2) = 10 \<and> stat (threads s' 3) = RT_THREAD_SUSPEND)"
proof -
  have b: "rt_current_thread contending = Some 3" by code_simp
  have c: "stat (threads contending 3) = RT_THREAD_RUNNING" "rt_scheduler_lock_nest contending = 0"
    "rt_interrupt_nest contending = 0" "queue contending (Ready 20) \<noteq> []"
    by code_simp+
  have d: "mtx_obj (mutexes contending 0) = ObjStatic" "mtx_flag (mutexes contending 0) = RT_IPC_FLAG_PRIO"
    "owner (mutexes contending 0) = Some 2" "th_obj (threads contending 2) = ObjStatic"
    by code_simp+
  have e: "current_priority (threads contending 2) = 20" "current_priority (threads contending 3) = 10"
    by code_simp+
  show ?thesis
    using mutex_priority_inheritance [OF acts_by_calls_skip contending_reachable _ b c, of 0 2 "0xffffffff"] d e
    by auto
qed

subsection \<open>Release\<close>

lemma restore_spec:
  assumes "kinv s" "th_obj (threads s t) \<noteq> ObjNull" "stat (threads s t) = RT_THREAD_RUNNING"
    "original_priority (mutexes s i) < 32"
  shows "\<exists>s'. mutex_restore i t s = Some s' \<and> kinv s' \<and>
    current_priority (threads s' t) = original_priority (mutexes s i) \<and>
    (\<forall>u. u \<noteq> t \<longrightarrow> threads s' u = threads s u) \<and> queue s' = queue s \<and>
    rt_current_thread s' = rt_current_thread s \<and> mutexes s' = mutexes s"
proof (cases "original_priority (mutexes s i) = current_priority (threads s t)")
  case True
  then show ?thesis using assms(1) by (intro exI [of _ s]) (simp add: mutex_restore_def)
next
  case False
  have "unat (original_priority (mutexes s i)) < 32" using assms(4) by (simp add: word_less_nat_alt)
  then obtain s' l where s': "change_priority t (original_priority (mutexes s i)) s = Some s'" "kinv s'"
    "threads s' t = (threads s t)\<lparr>current_priority := original_priority (mutexes s i),
       number_mask := 2 ^ unat (original_priority (mutexes s i)), tlist := l\<rparr>"
    "\<And>u. u \<noteq> t \<Longrightarrow> threads s' u = threads s u" "queue s' = queue s" "rt_current_thread s' = rt_current_thread s"
    "mutexes s' = mutexes s"
  proof -
    have "stat (threads s t) \<noteq> RT_THREAD_READY" using assms(3) by simp
    with change_priority_spec [OF assms(1,2) \<open>unat _ < 32\<close>] that show thesis by blast
  qed
  have "mutex_restore i t s = Some s'"
    using False assms(2) s'(1) by (simp add: mutex_restore_def rt_thread_control_def)
  then show ?thesis using s' by (intro exI [of _ s']) simp
qed

text \<open>C9: When its owner lets go of a mutex for the last time, the owner gets its own priority back and the
  mutex passes directly to the thread that waits first, which becomes runnable as the new owner; the
  value never leaves zero in between. Releasing it earlier only counts down, and a thread that is not
  the owner gets \<open>-RT_ERROR\<close> and changes nothing but its own error code.\<close>

theorem mutex_release_behaviour:
  assumes "acts_by_calls cb" "reachable cb s" "mtx_obj (mutexes s i) \<noteq> ObjNull" "rt_current_thread s = Some t"
    "stat (threads s t) = RT_THREAD_RUNNING" "rt_interrupt_nest s = 0" "original_priority (mutexes s i) < 32"
  shows "if owner (mutexes s i) \<noteq> Some t
    then rt_mutex_release i s = Some (- RT_ERROR, upd_thread t (error_update (\<lambda>_. - RT_ERROR)) s)
    else if hold (mutexes s i) \<noteq> 1
    then rt_mutex_release i s = Some (RT_EOK, upd_mutex i (hold_update (\<lambda>h. h - 1)) s)
    else \<exists>s'. rt_mutex_release i s = Some (RT_EOK, s') \<and>
      current_priority (threads s' t) = original_priority (mutexes s i) \<and>
      (case queue s (MutexWait i) of
         w # ws \<Rightarrow> owner (mutexes s' i) = Some w \<and> hold (mutexes s' i) = 1 \<and> mtx_value (mutexes s' i) = 0 \<and>
           original_priority (mutexes s' i) = current_priority (threads s w) \<and>
           queue s' (MutexWait i) = ws \<and> runnable s' w \<and> error (threads s' w) = error (threads s w)
       | [] \<Rightarrow> owner (mutexes s' i) = None \<and> hold (mutexes s' i) = 0 \<and> mtx_value (mutexes s' i) = 1)"
proof -
  have inv: "kinv s" and ok: "mutex_ok i s" using reachable_kinv mutex.always assms(1,2) by blast+
  have ctx: "in_thread_context s = Some ()"
    using assms(4,6) by (simp add: in_thread_context_def not_in_interrupt_def rt_interrupt_get_nest_def)
  show ?thesis
  proof (cases "owner (mutexes s i) = Some t \<and> hold (mutexes s i) = 1")
    case False
    then show ?thesis
      using assms(3,4) ctx by (auto simp: rt_mutex_release_def rt_thread_self_def Let_def)
  next
    case True
    let ?s = "upd_mutex i (hold_update (\<lambda>h. h - 1)) s"
    have reg: "th_obj (threads s t) \<noteq> ObjNull" using kinv_current(1) [OF inv assms(4)] .
    have val: "mtx_value (mutexes s i) = 0" using ok True assms(3) by (simp add: mutex_ok_def)
    obtain s1 where s1: "mutex_restore i t ?s = Some s1" "kinv s1"
      "current_priority (threads s1 t) = original_priority (mutexes s i)"
      "\<And>u. u \<noteq> t \<Longrightarrow> threads s1 u = threads s u" "queue s1 = queue s" "rt_current_thread s1 = Some t"
      "mutexes s1 = mutexes ?s"
      using restore_spec [of ?s t i] inv reg assms(4,5,7) by auto
    have rel: "rt_mutex_release i s = (case queue s (MutexWait i) of
            w # _ \<Rightarrow> mutex_hand_over i w s1
          | [] \<Rightarrow>
              if mtx_value (mutexes s1 i) < RT_UINT16_MAX
              then Some (RT_EOK, upd_mutex i (\<lambda>m. m\<lparr>mtx_value := mtx_value m + 1,
                     owner := None, original_priority := 0xff\<rparr>) s1)
              else Some (- RT_EFULL, s1))"
      using assms(3,4) ctx True s1(1,5) by (simp add: rt_mutex_release_def rt_thread_self_def Let_def)
    show ?thesis
    proof (cases "queue s (MutexWait i)")
      case Nil
      then show ?thesis using rel True s1 val by (simp add: RT_UINT16_MAX_def)
    next
      case (Cons w ws)
      let ?h = "upd_mutex i (hold_update (\<lambda>h. h + 1)) (upd_mutex i (\<lambda>m. m\<lparr>owner := Some w,
          original_priority := current_priority (threads s1 w)\<rparr>) s1)"
      have "stat (threads s w) = RT_THREAD_SUSPEND" using kinv_waiter(1) [OF inv, of w "MutexWait i"] Cons by simp
      then have wt: "w \<noteq> t" using assms(5) by auto
      obtain s2 s' where s': "ipc_list_resume (MutexWait i) ?h = Some s2" "rt_schedule s2 = Some s'"
        "queue s' (MutexWait i) = ws" "runnable s' w" "error (threads s' w) = error (threads ?h w)" "mutexes s' = mutexes ?h"
        "\<forall>u. current_priority (threads s' u) = current_priority (threads ?h u)"
        using wake_one_spec [of ?h "MutexWait i" w ws t] s1(2,5,6) Cons by auto
      have "rt_mutex_release i s = Some (RT_EOK, s')"
        using rel Cons s'(1,2) s1(7) True by (simp add: mutex_hand_over_def Let_def RT_UINT8_MAX_def)
      then show ?thesis using s' s1 True Cons wt val by (auto intro!: exI [of _ s'])
    qed
  qed
qed

text \<open>Thread 3 waits for the mutex of thread 2, which runs at the inherited priority.\<close>

definition inherited :: kernel where
  "inherited = (case rt_mutex_take 0 0xffffffff contending of Some (_, s) \<Rightarrow> s)"

lemma inherited_reachable: "reachable cb inherited"
proof -
  have "rt_mutex_take 0 0xffffffff contending \<noteq> None" by code_simp
  then obtain c where "rt_mutex_take 0 0xffffffff contending = Some (c, inherited)"
    by (auto simp: inherited_def)
  then show ?thesis using contending_reachable reachable_call kcall.k_mutex_take by blast
qed

theorem mutex_release_behaviour_witness:
  "current_priority (threads inherited 2) = 10 \<and>
   (\<exists>s'. rt_mutex_release 0 inherited = Some (RT_EOK, s') \<and> current_priority (threads s' 2) = 20 \<and>
      owner (mutexes s' 0) = Some 3 \<and> runnable s' 3)"
proof -
  have a: "rt_current_thread inherited = Some 2" "stat (threads inherited 2) = RT_THREAD_RUNNING"
    "rt_interrupt_nest inherited = 0" "current_priority (threads inherited 2) = 10"
    by code_simp+
  have b: "mtx_obj (mutexes inherited 0) = ObjStatic" "owner (mutexes inherited 0) = Some 2"
    "hold (mutexes inherited 0) = 1" "original_priority (mutexes inherited 0) = 20"
    by code_simp+
  have q: "queue inherited (MutexWait 0) = [3]" by code_simp
  show ?thesis
    using mutex_release_behaviour [OF acts_by_calls_skip inherited_reachable _ a(1-3), of 0] a(4) b q by auto
qed

end
