(* ===== verification/EventProps.thy ===== *)
theory EventProps imports MutexProps
begin

text \<open>What event sets promise: a send wakes exactly the threads whose condition holds.\<close>

subsection \<open>Sets of events as words\<close>

definition sub_events :: "u32 \<Rightarrow> u32 \<Rightarrow> bool" where
  "sub_events a b \<longleftrightarrow> a AND b = a"

lemma sub_events_bits: "sub_events a b \<longleftrightarrow> (\<forall>n. bit a n \<longrightarrow> bit b n)"
proof
  show "sub_events a b \<Longrightarrow> \<forall>n. bit a n \<longrightarrow> bit b n" by (metis bit_and_iff sub_events_def)
  show "\<forall>n. bit a n \<longrightarrow> bit b n \<Longrightarrow> sub_events a b"
    unfolding sub_events_def by (rule bit_word_eqI) (auto simp: bit_and_iff)
qed

lemma sub_events_simps [simp]: "sub_events a a" "sub_events (a AND b) a" "sub_events (a AND b) b" "sub_events a (a OR b)"
  by (auto simp: sub_events_bits bit_simps)

lemma sub_events_trans: "sub_events a b \<Longrightarrow> sub_events b c \<Longrightarrow> sub_events a c"
  by (simp add: sub_events_bits)

text \<open>With fewer events a condition that failed still fails.\<close>

lemma event_match_mono:
  assumes "event_match h ev = Some False" "sub_events ev' ev"
  shows "event_match h ev' = Some False"
proof (cases "event_info h AND RT_EVENT_FLAG_AND \<noteq> 0")
  case True
  then have "\<not> sub_events (event_set h) ev" using assms(1) by (simp add: event_match_def sub_events_def)
  then have "\<not> sub_events (event_set h) ev'" using assms(2) sub_events_trans by blast
  then show ?thesis using True by (simp add: event_match_def sub_events_def)
next
  case False
  then have o: "event_info h AND RT_EVENT_FLAG_OR \<noteq> 0" "event_set h AND ev = 0"
    using assms(1) by (auto simp: event_match_def split: if_splits)
  have "event_set h AND ev' = 0"
  proof (rule bit_word_eqI)
    fix n assume "n < LENGTH(32)"
    have "\<not> bit (event_set h AND ev) n" using o(2) by simp
    then show "bit (event_set h AND ev') n = bit 0 n"
      using assms(2) by (auto simp: sub_events_bits bit_simps)
  qed
  then show ?thesis using False o(1) by (simp add: event_match_def)
qed

subsection \<open>Delivery\<close>

text \<open>What a woken thread finds: all the events it waits for, or those of them that came.\<close>

definition received :: "rt_thread \<Rightarrow> rt_thread \<Rightarrow> u32 \<Rightarrow> bool" where
  "received h h' ev \<longleftrightarrow>
     (if event_info h AND RT_EVENT_FLAG_AND \<noteq> 0 then event_set h' = event_set h \<and> sub_events (event_set h) ev
      else event_set h' \<noteq> 0 \<and> sub_events (event_set h') (event_set h) \<and> sub_events (event_set h') ev)"

lemma event_deliver_spec:
  assumes "kinv s" "queue s (EventWait i) = pre @ t # ts" "event_match (threads s t) (ev_set (events s i)) = Some True"
  shows "\<exists>s'. event_deliver i t s = Some s' \<and> kinv s' \<and> queue s' (EventWait i) = pre @ ts \<and>
    rt_current_thread s' = rt_current_thread s \<and> sub_events (ev_set (events s' i)) (ev_set (events s i)) \<and>
    runnable s' t \<and> error (threads s' t) = error (threads s t) \<and>
    received (threads s t) (threads s' t) (ev_set (events s i)) \<and> (\<forall>u. u \<noteq> t \<longrightarrow> threads s' u = threads s u)"
proof -
  let ?ev = "ev_set (events s i)"
  let ?s1 = "if event_info (threads s t) AND RT_EVENT_FLAG_AND \<noteq> 0 then s
    else upd_thread t (event_set_update (\<lambda>v. v AND ?ev)) s"
  let ?s2 = "if event_info (threads ?s1 t) AND RT_EVENT_FLAG_CLEAR \<noteq> 0
    then upd_event i (ev_set_update (\<lambda>v. v AND NOT (event_set (threads ?s1 t)))) ?s1 else ?s1"
  have inv: "kinv ?s2" using assms(1) by simp
  note w = kinv_waiter [OF assms(1), of t "EventWait i"]
  have t: "stat (threads ?s2 t) = RT_THREAD_SUSPEND" "th_obj (threads ?s2 t) \<noteq> ObjNull"
    "tlist (threads ?s2 t) = Some (EventWait i)"
    using w assms(2) by auto
  note r = kinv_resume [OF inv t(2,1)]
  have d: "event_deliver i t s = Some (resumed t ?s2)"
    using r(1) by (simp add: event_deliver_def Let_def)
  have q2: "queue ?s2 (EventWait i) = pre @ t # ts" using assms(2) by simp
  have "distinct (pre @ t # ts)"
    using kinv_distinct [of "{}" s "EventWait i"] assms(1,2) by (simp add: kinv_def)
  then have "queue (resumed t ?s2) (EventWait i) = pre @ ts"
    using q2 t(3) by (subst resumed_queue) (auto simp: remove1_append)
  moreover have "runnable (resumed t ?s2) t" using t(2) by (simp add: runnable_def)
  moreover have "received (threads s t) (threads (resumed t ?s2) t) ?ev"
  proof (cases "event_info (threads s t) AND RT_EVENT_FLAG_AND \<noteq> 0")
    case True
    then show ?thesis using assms(3) by (simp add: received_def event_match_def sub_events_def)
  next
    case False
    then show ?thesis using assms(3) by (simp add: received_def event_match_def split: if_splits)
  qed
  moreover have "sub_events (ev_set (events (resumed t ?s2) i)) ?ev" by auto
  ultimately show ?thesis using d r(2) by (intro exI [of _ "resumed t ?s2"]) auto
qed

text \<open>The walk over the waiting threads: the woken ones \<open>W\<close> and the ones that stay.\<close>

lemma event_wake_spec:
  assumes "kinv s" "queue s (EventWait i) = pre @ ts"
    "\<forall>t \<in> set ts. event_match (threads s t) 0 \<noteq> None"
  shows "\<exists>s' W. event_wake i ts need s = Some (Some (need \<or> W \<noteq> {}), s') \<and> kinv s' \<and> W \<subseteq> set ts \<and>
    queue s' (EventWait i) = pre @ filter (\<lambda>t. t \<notin> W) ts \<and> rt_current_thread s' = rt_current_thread s \<and>
    sub_events (ev_set (events s' i)) (ev_set (events s i)) \<and>
    (\<forall>t \<in> W. runnable s' t \<and> error (threads s' t) = error (threads s t) \<and>
       received (threads s t) (threads s' t) (ev_set (events s i))) \<and>
    (\<forall>t. t \<notin> W \<longrightarrow> threads s' t = threads s t) \<and>
    (\<forall>t \<in> set ts - W. event_match (threads s' t) (ev_set (events s' i)) = Some False)"
  using assms
proof (induction ts arbitrary: pre need s)
  case Nil
  then show ?case by (intro exI [of _ s] exI [of _ "{}"]) simp
next
  case (Cons t ts)
  let ?ev = "ev_set (events s i)"
  have dist: "distinct (pre @ t # ts)"
    using kinv_distinct [of "{}" s "EventWait i"] Cons.prems(1,2) by (simp add: kinv_def)
  have "event_match (threads s t) ?ev \<noteq> None"
    using Cons.prems(3) by (auto simp: event_match_def split: if_splits)
  then consider (hit) "event_match (threads s t) ?ev = Some True" | (miss) "event_match (threads s t) ?ev = Some False"
    by (metis (full_types) not_None_eq)
  then show ?case
  proof cases
    case hit
    obtain s1 where s1: "event_deliver i t s = Some s1" "kinv s1" "queue s1 (EventWait i) = pre @ ts"
      "rt_current_thread s1 = rt_current_thread s" "sub_events (ev_set (events s1 i)) ?ev" "runnable s1 t"
      "error (threads s1 t) = error (threads s t)" "received (threads s t) (threads s1 t) ?ev"
      "\<And>u. u \<noteq> t \<Longrightarrow> threads s1 u = threads s u"
      using event_deliver_spec [OF Cons.prems(1,2) hit] by blast
    have "\<forall>u \<in> set ts. event_match (threads s1 u) 0 \<noteq> None"
    proof
      fix u assume u: "u \<in> set ts"
      then have "threads s1 u = threads s u" using s1(9) [of u] dist by auto
      then show "event_match (threads s1 u) 0 \<noteq> None" using Cons.prems(3) u by simp
    qed
    from Cons.IH [OF s1(2,3) this, of True] obtain s' W where w: "event_wake i ts True s1 = Some (Some True, s')"
      "kinv s'" "W \<subseteq> set ts" "queue s' (EventWait i) = pre @ filter (\<lambda>t. t \<notin> W) ts"
      "rt_current_thread s' = rt_current_thread s1" "sub_events (ev_set (events s' i)) (ev_set (events s1 i))"
      "\<And>t. t \<in> W \<Longrightarrow> runnable s' t \<and> error (threads s' t) = error (threads s1 t) \<and>
         received (threads s1 t) (threads s' t) (ev_set (events s1 i))"
      "\<And>t. t \<notin> W \<Longrightarrow> threads s' t = threads s1 t"
      "\<And>t. t \<in> set ts - W \<Longrightarrow> event_match (threads s' t) (ev_set (events s' i)) = Some False"
      by auto
    have tW: "t \<notin> W" using w(3) dist by auto
    have "received (threads s u) (threads s' u) ?ev" if "u \<in> W" for u
    proof -
      have "threads s1 u = threads s u" using s1(9) [of u] that tW by blast
      then have "received (threads s u) (threads s' u) (ev_set (events s1 i))" using w(7) [OF that] by simp
      then show ?thesis using s1(5) sub_events_trans by (auto simp: received_def split: if_splits)
    qed
    moreover have "error (threads s1 u) = error (threads s u)" for u using s1(7) s1(9) [of u] by (cases "u = t") auto
    moreover have "runnable s' t" using s1(6) w(8) [OF tW] by (simp add: runnable_def)
    moreover have "filter (\<lambda>u. u \<notin> insert t W) (t # ts) = filter (\<lambda>u. u \<notin> W) ts"
      using dist by (auto intro: filter_cong)
    ultimately show ?thesis
      using hit s1 w tW dist sub_events_trans by (intro exI [of _ s'] exI [of _ "insert t W"]) auto
  next
    case miss
    have "queue s (EventWait i) = (pre @ [t]) @ ts" using Cons.prems(2) by simp
    from Cons.IH [OF Cons.prems(1) this, of need] Cons.prems(3) obtain s' W where w:
      "event_wake i ts need s = Some (Some (need \<or> W \<noteq> {}), s')"
      "kinv s'" "W \<subseteq> set ts" "queue s' (EventWait i) = (pre @ [t]) @ filter (\<lambda>t. t \<notin> W) ts"
      "rt_current_thread s' = rt_current_thread s" "sub_events (ev_set (events s' i)) ?ev"
      "\<forall>t \<in> W. runnable s' t \<and> error (threads s' t) = error (threads s t) \<and>
         received (threads s t) (threads s' t) ?ev" "\<forall>t. t \<notin> W \<longrightarrow> threads s' t = threads s t"
      "\<forall>t \<in> set ts - W. event_match (threads s' t) (ev_set (events s' i)) = Some False"
      by auto
    have tW: "t \<notin> W" using w(3) dist by auto
    then have "event_match (threads s' t) (ev_set (events s' i)) = Some False"
      using event_match_mono [OF miss w(6)] w(8) by simp
    then show ?thesis
      using miss w tW by (intro exI [of _ s'] exI [of _ W]) auto
  qed
qed


text \<open>Thread 1 waits for events 0 and 1 of set 0 together.\<close>

definition awaiting :: kernel where
  "awaiting = (case (do {
     (_, s) \<leftarrow> rt_event_init 0 RT_IPC_FLAG_FIFO booted;
     rt_event_recv 0 3 RT_EVENT_FLAG_AND 0xffffffff s
   }) of Some (_, s) \<Rightarrow> s)"

lemma awaiting_reachable: "reachable cb awaiting"
proof -
  have "do { (_, s) \<leftarrow> rt_event_init 0 RT_IPC_FLAG_FIFO booted;
      rt_event_recv 0 3 RT_EVENT_FLAG_AND 0xffffffff s } \<noteq> None" by code_simp
  then obtain r s1 e where "rt_event_init 0 RT_IPC_FLAG_FIFO booted = Some (r, s1)"
    "rt_event_recv 0 3 RT_EVENT_FLAG_AND 0xffffffff s1 = Some (e, awaiting)"
    by (auto simp: awaiting_def bindE)
  then show ?thesis
    using booted_reachable reachable_call kcall.k_event_init kcall.k_event_recv by blast
qed


end
