(* ===== verification/MailboxProps.thy ===== *)
theory MailboxProps imports EventProps
begin

text \<open>
  What mailboxes promise: the ring is a bounded first-in first-out queue of words, urgent mail goes
  to its front, and senders and receivers wait exactly when it is full or empty.
\<close>

subsection \<open>The ring as a queue\<close>

definition mb_inv :: "rt_mailbox \<Rightarrow> bool" where
  "mb_inv m \<longleftrightarrow> 0 < unat (mb_size m) \<and> length (msg_pool m) = unat (mb_size m) \<and>
     unat (mb_entry m) \<le> unat (mb_size m) \<and> unat (out_offset m) < unat (mb_size m) \<and>
     unat (in_offset m) = (unat (out_offset m) + unat (mb_entry m)) mod unat (mb_size m)"

definition mb_contents :: "rt_mailbox \<Rightarrow> u32 list" where
  "mb_contents m = ring_seg (msg_pool m) (unat (out_offset m)) (unat (mb_entry m))"

definition mb_cap :: "rt_mailbox \<Rightarrow> nat" where
  "mb_cap m = unat (mb_size m)"

lemma length_mb_contents [simp]: "length (mb_contents m) = unat (mb_entry m)"
  by (simp add: mb_contents_def)

lemma mb_contents_empty: "mb_contents m = [] \<longleftrightarrow> mb_entry m = 0"
  by (metis length_0_conv length_mb_contents unat_eq_0)

lemma mb_full_iff: "mb_entry m = mb_size m \<longleftrightarrow> length (mb_contents m) = mb_cap m"
  by (simp add: mb_cap_def word_unat_eq_iff)

lemma unat_u16: "unat (x :: u16) < 65536"
  using unsigned_less [of x] by simp

text \<open>An offset moved up by one, with the wrap of the code, is the next position of the ring.\<close>

lemma next_offset:
  assumes "unat (x :: u16) < unat n"
  shows "unat (if n \<le> x + 1 then 0 else x + 1) = Suc (unat x) mod unat n"
proof -
  have "unat (x + 1) = Suc (unat x)"
    using assms unat_u16 [of n] by (simp add: unat_word_ariths)
  then show ?thesis using assms by (auto simp: word_le_nat_alt mod_Suc)
qed

lemma mb_put_fits:
  assumes "mb_inv m" "unat (mb_entry m) < mb_cap m"
  shows "\<exists>m'. mb_put v m = Some (True, m') \<and> mb_inv m' \<and> mb_contents m' = mb_contents m @ [v] \<and>
    mb_cap m' = mb_cap m \<and> mb_obj m' = mb_obj m \<and> mb_flag m' = mb_flag m \<and> mb_size m' = mb_size m"
proof -
  let ?n = "unat (mb_size m)" and ?o = "unat (out_offset m)" and ?e = "unat (mb_entry m)"
  have i: "unat (in_offset m) = (?o + ?e) mod ?n" "0 < ?n" "length (msg_pool m) = ?n" "?o < ?n" "?e < ?n"
    using assms by (auto simp: mb_inv_def mb_cap_def)
  have le: "unat (in_offset m) < ?n" using i by simp
  have st: "mset1 (msg_pool m) (uint (in_offset m)) v = Some ((msg_pool m)[unat (in_offset m) := v])"
    using le i(3) by (simp add: uint_nat mset1_of_nat)
  have lt: "mb_entry m < RT_UINT16_MAX"
    using i(5) unat_u16 [of "mb_size m"] by (simp add: word_less_nat_alt RT_UINT16_MAX_def)
  have e: "unat (mb_entry m + 1) = Suc ?e"
    using i(5) unat_u16 [of "mb_size m"] by (simp add: unat_word_ariths)
  let ?i = "if mb_size m \<le> in_offset m + 1 then 0 else in_offset m + 1"
  have wrap: "unat ?i = Suc (unat (in_offset m)) mod ?n" by (rule next_offset [OF le])
  let ?m = "m\<lparr>msg_pool := (msg_pool m)[unat (in_offset m) := v], in_offset := ?i, mb_entry := mb_entry m + 1\<rparr>"
  have "mb_put v m = Some (True, ?m)"
    using st lt by (simp add: mb_put_def Let_def)
  moreover have "mb_inv ?m"
    unfolding mb_inv_def using i e wrap by (simp add: mod_Suc_eq)
  moreover have "mb_contents ?m = mb_contents m @ [v]"
    using ring_seg_upd1 [of ?e "msg_pool m" ?o v] i e by (simp add: mb_contents_def)
  ultimately show ?thesis by (simp add: mb_cap_def)
qed

lemma mb_get_first:
  assumes "mb_inv m" "mb_contents m = v # q"
  shows "\<exists>m'. mb_get m = Some (v, m') \<and> mb_inv m' \<and> mb_contents m' = q \<and>
    mb_cap m' = mb_cap m \<and> mb_obj m' = mb_obj m \<and> mb_flag m' = mb_flag m \<and> mb_size m' = mb_size m"
proof -
  let ?n = "unat (mb_size m)" and ?o = "unat (out_offset m)" and ?e = "unat (mb_entry m)"
  have i: "unat (in_offset m) = (?o + ?e) mod ?n" "0 < ?n" "length (msg_pool m) = ?n" "?o < ?n" "?e \<le> ?n"
    using assms by (auto simp: mb_inv_def)
  obtain k where k: "?e = Suc k" using assms(2) by (metis length_Cons length_mb_contents)
  have e: "unat (mb_entry m - 1) = k" "0 < mb_entry m"
    using k by (simp_all add: unat_minus_one word_gt_0 unat_eq_zero [symmetric])
  have q: "msg_pool m ! ?o = v" "ring_seg (msg_pool m) (Suc ?o) k = q"
    using assms(2) i(3,4) unfolding mb_contents_def k ring_seg_Suc by auto
  have ld: "mget (msg_pool m) (uint (out_offset m)) = Some v"
    using i(3,4) q(1) by (simp add: uint_nat mget_of_nat)
  let ?x = "if mb_size m \<le> out_offset m + 1 then 0 else out_offset m + 1"
  have wrap: "unat ?x = Suc ?o mod ?n" by (rule next_offset [OF i(4)])
  let ?m = "m\<lparr>out_offset := ?x, mb_entry := mb_entry m - 1\<rparr>"
  have "mb_get m = Some (v, ?m)"
    using ld e(2) by (simp add: mb_get_def Let_def)
  moreover have "mb_inv ?m"
    unfolding mb_inv_def using i e wrap k by (simp add: mod_add_left_eq)
  moreover have "mb_contents ?m = q"
    using q(2) e(1) wrap i(3) by (simp add: mb_contents_def) (metis ring_seg_mod)
  ultimately show ?thesis by (simp add: mb_cap_def)
qed

lemma mb_put_front_fits:
  assumes "mb_inv m" "unat (mb_entry m) < mb_cap m"
  shows "\<exists>m'. mb_put_front v m = Some m' \<and> mb_inv m' \<and> mb_contents m' = v # mb_contents m \<and>
    mb_cap m' = mb_cap m \<and> mb_obj m' = mb_obj m \<and> mb_flag m' = mb_flag m \<and> mb_size m' = mb_size m"
proof -
  let ?n = "unat (mb_size m)" and ?o = "unat (out_offset m)" and ?e = "unat (mb_entry m)"
  have i: "unat (in_offset m) = (?o + ?e) mod ?n" "0 < ?n" "length (msg_pool m) = ?n" "?o < ?n" "?e < ?n"
    using assms by (auto simp: mb_inv_def mb_cap_def)
  define x where "x = (if 0 < out_offset m then out_offset m - 1 else mb_size m - 1)"
  have x: "unat x < ?n" "Suc (unat x) mod ?n = ?o"
    using i(2,4) by (auto simp: x_def word_gt_0 unat_minus_one unat_gt_0 mod_Suc)
  have st: "mset1 (msg_pool m) (uint x) v = Some ((msg_pool m)[unat x := v])"
    using x(1) i(3) by (simp add: uint_nat mset1_of_nat)
  have e: "unat (mb_entry m + 1) = Suc ?e"
    using i(5) unat_u16 [of "mb_size m"] by (simp add: unat_word_ariths)
  let ?m = "m\<lparr>out_offset := x, msg_pool := (msg_pool m)[unat x := v], mb_entry := mb_entry m + 1\<rparr>"
  have "mb_put_front v m = Some ?m"
    using st by (simp add: mb_put_front_def Let_def x_def split: if_splits)
  moreover have "mb_inv ?m"
    unfolding mb_inv_def using i e x by (simp, metis add_Suc mod_add_left_eq)
  moreover have "mb_contents ?m = v # mb_contents m"
  proof -
    have "ring_seg ((msg_pool m)[unat x := v]) (Suc (unat x)) ?e = ring_seg (msg_pool m) ?o ?e"
    proof (rule nth_equalityI)
      fix k assume "k < length (ring_seg ((msg_pool m)[unat x := v]) (Suc (unat x)) ?e)"
      then have k: "k < ?e" by simp
      have "(unat x + Suc k) mod ?n \<noteq> (unat x + 0) mod ?n"
        using mod_window_neq [of 0 "Suc k" ?n "unat x"] k i(5) by (metis Suc_lessI add_0_right less_trans not_less_eq zero_less_Suc)
      moreover have "(?o + k) mod ?n = (unat x + Suc k) mod ?n"
        using x(2) by (metis add_Suc add_Suc_right mod_add_left_eq)
      ultimately show "ring_seg ((msg_pool m)[unat x := v]) (Suc (unat x)) ?e ! k = ring_seg (msg_pool m) ?o ?e ! k"
        using k i(3) x(1) by simp
    qed simp
    then show ?thesis using e x(1) i(3) by (simp add: mb_contents_def ring_seg_Suc)
  qed
  ultimately show ?thesis by (simp add: mb_cap_def)
qed

text \<open>A send that may not wait and a receive that may not wait, as the two ends of a queue.\<close>

definition mb_push :: "rt_mailbox \<Rightarrow> u32 \<Rightarrow> rt_mailbox option" where
  "mb_push m v = (if mb_entry m = mb_size m then None
     else case mb_put v m of Some (True, m') \<Rightarrow> Some m' | _ \<Rightarrow> None)"

definition mb_pop :: "rt_mailbox \<Rightarrow> (u32 \<times> rt_mailbox) option" where
  "mb_pop m = (if mb_entry m = 0 then None else mb_get m)"

interpretation mbq: bounded_fifo mb_inv mb_contents mb_cap mb_push mb_pop
proof
  fix m v assume m: "mb_inv m" "length (mb_contents m) < mb_cap m"
  then show "\<exists>m'. mb_push m v = Some m' \<and> mb_inv m' \<and> mb_contents m' = mb_contents m @ [v] \<and> mb_cap m' = mb_cap m"
    using mb_put_fits [OF m(1), of v] by (auto simp: mb_push_def mb_cap_def)
next
  fix m v q assume m: "mb_inv m" "mb_contents m = (v :: u32) # q"
  then have "mb_entry m \<noteq> 0" using mb_contents_empty [of m] by auto
  then show "\<exists>m'. mb_pop m = Some (v, m') \<and> mb_inv m' \<and> mb_contents m' = q \<and> mb_cap m' = mb_cap m"
    using mb_get_first [OF m] by (auto simp: mb_pop_def)
qed (auto simp: mb_push_def mb_pop_def mb_contents_empty mb_cap_def mb_inv_def word_unat_eq_iff)

subsection \<open>Every reachable mailbox is a ring\<close>

text \<open>The helpers keep every object; only the four ring operations and the reset change a mailbox.\<close>

lemma object_kept:
  assumes "wait_list l"
  shows "ipc_wake_one k s = Some s' \<Longrightarrow> object_same l s s'"
    "rt_schedule s = Some s' \<Longrightarrow> object_same l s s'"
    "ipc_list_resume_all k s = Some s' \<Longrightarrow> object_same l s s'"
proof -
  note r = wframe_refl [OF assms, of s]
  show "ipc_wake_one k s = Some s' \<Longrightarrow> object_same l s s'" using wf_wake_one [OF _ r] by (simp add: wframe_def)
  show "rt_schedule s = Some s' \<Longrightarrow> object_same l s s'" using wf_schedule [OF _ r] by (simp add: wframe_def)
  show "ipc_list_resume_all k s = Some s' \<Longrightarrow> object_same l s s'" using wf_resume_all [OF _ r] by (simp add: wframe_def)
qed

lemma loop_block_object:
  assumes "ipc_loop_block k t flag time s = Some (r, s')" "wait_list l"
  shows "object_same l s s'"
proof -
  obtain s1 s2 u where s1: "ipc_list_suspend k t flag s = Some s1" "start_timeout t time s1 = Some s2"
    "switch_out t u (\<lambda>_. None) s2 = Some (r, s')"
    using assms(1) by (auto simp: ipc_loop_block_def bindE)
  have "wframe l s1 s2" by (rule wf_start_timeout [OF s1(2) wframe_refl [OF assms(2)]])
  then have "wframe l s1 s'" by (rule wf_switch_out [OF s1(3), rotated]) simp
  then show ?thesis using suspend_object [OF s1(1) assms(2)] object_same_trans by (auto simp: wframe_def)
qed

lemmas mb_kept = object_kept [of "MbWait i", simplified] loop_block_object [of _ _ _ _ _ _ _ "MbWait i", simplified] for i

definition mb_steps :: "rt_mailbox \<Rightarrow> rt_mailbox \<Rightarrow> bool" where
  "mb_steps m m' \<longleftrightarrow> m' = m \<or> mb_obj m' = ObjNull \<or> (\<exists>obj flag pool sz. m' = new_mb obj flag pool sz) \<or>
     mb_entry m \<noteq> mb_size m \<and> (\<exists>v b. mb_put v m = Some (b, m')) \<or>
     mb_entry m \<noteq> mb_size m \<and> (\<exists>v. mb_put_front v m = Some m') \<or>
     mb_entry m \<noteq> 0 \<and> (\<exists>v. mb_get m = Some (v, m')) \<or>
     m' = m\<lparr>mb_entry := 0, in_offset := 0, out_offset := 0\<rparr>"

lemma mb_steps_send_loop:
  assumes "mb_send_loop i self v time s = Some (c, s')"
  shows "mb_steps (mailboxes s i) (mailboxes s' i)"
proof (cases "mb_entry (mailboxes s i) = mb_size (mailboxes s i)")
  case True
  then have "mailboxes s' i = mailboxes s i"
    using assms mb_kept(4) by (fastforce simp: mb_send_loop_def bindE Let_def split: if_splits)
  then show ?thesis by (simp add: mb_steps_def)
next
  case False
  then obtain b m where "mb_put v (mailboxes s i) = Some (b, m)"
    "s' = upd_mb i (\<lambda>_. m) s \<or> ipc_wake_one (MbWait i) (upd_mb i (\<lambda>_. m) s) = Some s'"
    using assms by (auto simp: mb_send_loop_def bindE Let_def split: if_splits)
  then have "mailboxes s' i = m" using mb_kept(1) by fastforce
  then show ?thesis using False \<open>mb_put v (mailboxes s i) = Some (b, m)\<close> by (auto simp: mb_steps_def)
qed

lemma mb_steps_recv_loop:
  assumes "mb_recv_loop i self time s = Some (c, s')"
  shows "mb_steps (mailboxes s i) (mailboxes s' i)"
proof (cases "mb_entry (mailboxes s i) = 0")
  case True
  then have "mailboxes s' i = mailboxes s i"
    using assms mb_kept(4) by (fastforce simp: mb_recv_loop_def bindE Let_def split: if_splits)
  then show ?thesis by (simp add: mb_steps_def)
next
  case False
  then obtain v m where "mb_get (mailboxes s i) = Some (v, m)"
    "ipc_wake_one (MbSender i) (upd_mb i (\<lambda>_. m) s) = Some s'"
    using assms by (auto simp: mb_recv_loop_def bindE Let_def)
  moreover from this have "mailboxes s' i = m" using mb_kept(1) by fastforce
  ultimately show ?thesis using False by (auto simp: mb_steps_def)
qed

lemma mb_steps_refl [simp]: "mb_steps m m"
  by (simp add: mb_steps_def)

lemma mb_call_steps:
  assumes "mb_call i s s'"
  shows "mb_steps (mailboxes s i) (mailboxes s' i)"
  using assms
proof cases
  case (mb_init pool v flag r)
  then have "mailboxes s' i = new_mb ObjStatic flag pool (ucast v)" by (auto simp: rt_mb_init_def bindE)
  then show ?thesis unfolding mb_steps_def by blast
next
  case (mb_create mem v flag q)
  then have "mb_obj (mailboxes s' i) = ObjNull \<or> (\<exists>pool. mailboxes s' i = new_mb ObjDynamic flag pool (ucast v))"
    by (auto simp: rt_mb_create_def ipc_object_init_def bindE split: option.splits)
  then show ?thesis unfolding mb_steps_def by blast
next
  case (mb_urgent w r)
  then show ?thesis using mb_kept(1)
    by (fastforce simp: rt_mb_urgent_def bindE mb_steps_def split: if_splits)
next
  case (mb_control cmd r)
  show ?thesis
  proof (cases "cmd = RT_IPC_CMD_RESET")
    case True
    then obtain s1 s2 where "ipc_list_resume_all (MbWait i) s = Some s1" "ipc_list_resume_all (MbSender i) s1 = Some s2"
      "rt_schedule (upd_mb i (\<lambda>m. m\<lparr>mb_entry := 0, in_offset := 0, out_offset := 0\<rparr>) s2) = Some s'"
      using mb_control by (auto simp: rt_mb_control_def bindE)
    then show ?thesis using mb_kept(2) [of _ s' i] mb_kept(3) [of _ _ _ i] by (fastforce simp: mb_steps_def)
  qed (use mb_control in \<open>auto simp: rt_mb_control_def bindE\<close>)
qed (auto simp: rt_mb_detach_def rt_mb_delete_def rt_mb_send_wait_def mb_send_resume_def rt_mb_recv_def
    mb_recv_resume_def bindE intro: mb_steps_send_loop mb_steps_recv_loop split: if_splits,
    auto simp: mb_steps_def)

text \<open>A pool with as many words as the mailbox was told it has.\<close>

definition pool_fits :: "rt_mailbox \<Rightarrow> bool" where
  "pool_fits m \<longleftrightarrow> 0 < mb_size m \<and> length (msg_pool m) = unat (mb_size m)"

definition mb_ok :: "oid \<Rightarrow> kernel \<Rightarrow> bool" where
  "mb_ok i s \<longleftrightarrow> mb_obj (mailboxes s i) = ObjNull \<or> \<not> pool_fits (mailboxes s i) \<or> mb_inv (mailboxes s i)"

lemma pool_kept:
  "mb_put v m = Some (b, m') \<Longrightarrow> pool_fits m' = pool_fits m \<and> mb_obj m' = mb_obj m"
  "mb_put_front v m = Some m' \<Longrightarrow> pool_fits m' = pool_fits m \<and> mb_obj m' = mb_obj m"
  "mb_get m = Some (w, m') \<Longrightarrow> pool_fits m' = pool_fits m \<and> mb_obj m' = mb_obj m"
  by (auto simp: mb_put_def mb_put_front_def mb_get_def mset1_def pool_fits_def bindE Let_def split: if_splits)

lemma mb_steps_keep:
  assumes "mb_steps m m'" "mb_obj m = ObjNull \<or> \<not> pool_fits m \<or> mb_inv m"
  shows "mb_obj m' = ObjNull \<or> \<not> pool_fits m' \<or> mb_inv m'"
proof -
  have room: "unat (mb_entry m) < mb_cap m" if "mb_inv m" "mb_entry m \<noteq> mb_size m"
    using that by (auto simp: mb_inv_def mb_cap_def word_unat_eq_iff)
  have some: "\<exists>v q. mb_contents m = v # q" if "mb_entry m \<noteq> 0"
    using that mb_contents_empty [of m] by (cases "mb_contents m") auto
  from assms(1) show ?thesis
    unfolding mb_steps_def
  proof (elim disjE conjE exE)
    fix v b assume "mb_entry m \<noteq> mb_size m" "mb_put v m = Some (b, m')"
    then show ?thesis using assms(2) pool_kept(1) mb_put_fits [of m v] room by fastforce
  next
    fix v assume "mb_entry m \<noteq> mb_size m" "mb_put_front v m = Some m'"
    then show ?thesis using assms(2) pool_kept(2) mb_put_front_fits [of m v] room by fastforce
  next
    fix v assume "mb_entry m \<noteq> 0" "mb_get m = Some (v, m')"
    then show ?thesis using assms(2) pool_kept(3) mb_get_first [of m] some by fastforce
  qed (use assms(2) in \<open>auto simp: new_mb_def pool_fits_def mb_inv_def word_gt_0 unat_gt_0\<close>)
qed

interpretation mailbox: waiter_invariant "MbWait i" "mb_ok i" for i
proof
  show "\<exists>j. MbWait i = SemWait j \<or> MbWait i = MutexWait j \<or> MbWait i = MbWait j \<or> MbWait i = MqWait j" by blast
  show "wframe (MbWait i) s s' \<Longrightarrow> mb_ok i s \<Longrightarrow> mb_ok i s'" for s s'
    by (auto simp: wframe_def mb_ok_def)
  show "own_call (MbWait i) s s' \<Longrightarrow> kinv s \<Longrightarrow> mb_ok i s \<Longrightarrow> mb_ok i s'" for s s'
    using mb_call_steps mb_steps_keep unfolding mb_ok_def by (elim own_mb) blast
  show "power_on s \<Longrightarrow> mb_ok i s" for s by (simp add: power_on_def mb_ok_def)
qed

text \<open>C21: In every state the kernel can reach, a mailbox whose pool has the size it was told is a sound ring: no
  more mail than room, both offsets inside the pool, and the write offset exactly the mail count
  ahead of the read offset, around the end; whatever calls and interrupts led there.\<close>

theorem mb_ring_sound:
  assumes "acts_by_calls cb" "reachable cb s" "mb_obj (mailboxes s i) \<noteq> ObjNull" "pool_fits (mailboxes s i)"
  shows "mb_inv (mailboxes s i)"
  using mailbox.always [OF assms(2,1), of i] assms(3,4) by (simp add: mb_ok_def)

text \<open>Mailbox 0 of two words, full, and thread 1 waiting to send a third.\<close>

definition full_mb :: kernel where
  "full_mb = (case (do {
     (_, s) \<leftarrow> rt_mb_init 0 [0, 0] 2 RT_IPC_FLAG_FIFO booted;
     (_, s) \<leftarrow> rt_mb_send 0 7 s;
     (_, s) \<leftarrow> rt_mb_send 0 8 s;
     rt_mb_send_wait 0 9 0xffffffff s
   }) of Some (_, s) \<Rightarrow> s)"

lemma full_mb_reachable: "reachable cb full_mb"
proof -
  have "do { (_, s) \<leftarrow> rt_mb_init 0 [0, 0] 2 RT_IPC_FLAG_FIFO booted; (_, s) \<leftarrow> rt_mb_send 0 7 s;
     (_, s) \<leftarrow> rt_mb_send 0 8 s; rt_mb_send_wait 0 9 0xffffffff s } \<noteq> None" by code_simp
  then obtain r s1 c2 s2 c3 s3 c4 where "rt_mb_init 0 [0, 0] 2 RT_IPC_FLAG_FIFO booted = Some (r, s1)"
    "rt_mb_send_wait 0 7 0 s1 = Some (c2, s2)" "rt_mb_send_wait 0 8 0 s2 = Some (c3, s3)"
    "rt_mb_send_wait 0 9 0xffffffff s3 = Some (c4, full_mb)"
    by (auto simp: full_mb_def rt_mb_send_def bindE)
  then show ?thesis
    using booted_reachable reachable_call kcall.k_mb_init kcall.k_mb_send_wait by meson
qed

theorem mb_ring_sound_witness: "mb_inv (mailboxes full_mb 0)"
proof (rule mb_ring_sound [OF acts_by_calls_skip full_mb_reachable])
  show "mb_obj (mailboxes full_mb 0) \<noteq> ObjNull" by code_simp
  show "pool_fits (mailboxes full_mb 0)" by code_simp
qed

subsection \<open>Sending and receiving\<close>



text \<open>Waking the first thread of a list, or nobody, leaves the object alone.\<close>

lemma wake_spec:
  assumes "kinv s" "wait_list l" "rt_current_thread s = Some c"
  shows "\<exists>s'. ipc_wake_one l s = Some s' \<and> kinv s' \<and> mailboxes s' = mailboxes s \<and> mqueues s' = mqueues s \<and>
    (case queue s l of [] \<Rightarrow> s' = s
     | t # ts \<Rightarrow> queue s' l = ts \<and> runnable s' t \<and> error (threads s' t) = error (threads s t))"
proof (cases "queue s l")
  case Nil
  then show ?thesis using assms(1) by (simp add: ipc_wake_one_def)
next
  case (Cons t ts)
  then show ?thesis
    using wake_one_spec [OF assms(1,2) Cons assms(3)] by (auto simp: ipc_wake_one_def)
qed

lemma place_error [simp]: "wait_place f (th(t := th t\<lparr>error := e\<rparr>)) t = wait_place f th t"
  unfolding wait_place_def by (rule ext, rule if_cong, simp, simp, rule insert_prio_cong) simp

text \<open>Blocking in the loop of a call: the caller remembers its timeout and when it fell asleep.\<close>

lemma loop_block_spec:
  assumes "kinv s" "rt_current_thread s = Some t" "stat (threads s t) = RT_THREAD_RUNNING" "wait_list l"
    "flag = RT_IPC_FLAG_FIFO \<or> flag = RT_IPC_FLAG_PRIO" "rt_scheduler_lock_nest s = 0" "queue s (Ready q) \<noteq> []"
    "sint time \<le> 0 \<or> time < TICK_HORIZON"
  shows "\<exists>s' n. ipc_loop_block l t flag time (upd_thread t (error_update (\<lambda>_. RT_EOK)) s) =
      (Some (Blocked (time, if 0 < sint time then rt_tick s else 0), s') :: (('r, u32 \<times> u32) call \<times> kernel) option) \<and>
    rt_current_thread s' = Some n \<and> n \<noteq> t \<and> queue s' l = wait_place flag (threads s) t (queue s l) \<and>
    stat (threads s' t) = RT_THREAD_SUSPEND \<and> error (threads s' t) = RT_EOK \<and>
    (TThread t \<in> set (timer_list s') \<longleftrightarrow> 0 < sint time) \<and> mailboxes s' = mailboxes s \<and> mqueues s' = mqueues s"
proof -
  let ?e = "upd_thread t (error_update (\<lambda>_. RT_EOK)) s"
  let ?u = "(time, if 0 < sint time then rt_tick s else 0)"
  obtain s1 s2 s' n where b: "ipc_list_suspend l t flag ?e = Some s1" "start_timeout t time s1 = Some s2"
    "switch_out t ?u (\<lambda>_. None) s2 = (Some (Blocked ?u, s') :: (('r, u32 \<times> u32) call \<times> kernel) option)" "rt_current_thread s' = Some n" "n \<noteq> t"
    "queue s' l = wait_place flag (threads ?e) t (queue ?e l)"
    "threads s' t = (threads ?e t)\<lparr>stat := RT_THREAD_SUSPEND, tlist := Some l\<rparr>"
    "TThread t \<in> set (timer_list s') \<longleftrightarrow> 0 < sint time"
    "mailboxes s' = mailboxes ?e" "mqueues s' = mqueues ?e" "rt_tick s2 = rt_tick ?e"
    using block_once_spec [of ?e t l flag q time ?u "\<lambda>_. None"] assms by auto
  have "ipc_loop_block l t flag time ?e = (Some (Blocked ?u, s') :: (('r, u32 \<times> u32) call \<times> kernel) option)"
    using b(1-3,11) by (cases "0 < sint time") (simp_all add: ipc_loop_block_def)
  then show ?thesis using b(4-) by (intro exI [of _ s'] exI [of _ n]) simp
qed

lemmas may_wait = scheduler_available_def in_thread_context_def not_in_interrupt_def
  rt_interrupt_get_nest_def rt_critical_level_def rt_thread_self_def

text \<open>C18: \<open>rt_mb_send_wait\<close> appends the word to a mailbox with room and wakes the receiver that waits first;
  a full mailbox refuses with \<open>-RT_EFULL\<close> and no change if no wait is allowed, and otherwise suspends the
  caller at its place among the senders, with its timer armed exactly for a bounded wait and the mail
  untouched.\<close>

theorem mb_send_behaviour:
  assumes "acts_by_calls cb" "reachable cb s" "mb_obj (mailboxes s i) \<noteq> ObjNull" "pool_fits (mailboxes s i)"
    "rt_current_thread s = Some t" "stat (threads s t) = RT_THREAD_RUNNING" "rt_scheduler_lock_nest s = 0"
    "rt_interrupt_nest s = 0" "queue s (Ready q) \<noteq> []"
    "mb_flag (mailboxes s i) = RT_IPC_FLAG_FIFO \<or> mb_flag (mailboxes s i) = RT_IPC_FLAG_PRIO"
    "sint time \<le> 0 \<or> time < TICK_HORIZON"
  shows "if length (mb_contents (mailboxes s i)) < mb_cap (mailboxes s i)
    then \<exists>s'. rt_mb_send_wait i v time s = Some (Done RT_EOK, s') \<and>
      mb_contents (mailboxes s' i) = mb_contents (mailboxes s i) @ [v] \<and>
      (case queue s (MbWait i) of [] \<Rightarrow> threads s' = threads s
       | r # rs \<Rightarrow> queue s' (MbWait i) = rs \<and> runnable s' r \<and> error (threads s' r) = error (threads s r))
    else if time = 0 then rt_mb_send_wait i v time s = Some (Done (- RT_EFULL), s)
    else \<exists>s' n. rt_mb_send_wait i v time s = Some (Blocked (time, if 0 < sint time then rt_tick s else 0), s') \<and>
      rt_current_thread s' = Some n \<and> n \<noteq> t \<and> mailboxes s' = mailboxes s \<and>
      queue s' (MbSender i) = wait_place (mb_flag (mailboxes s i)) (threads s) t (queue s (MbSender i)) \<and>
      stat (threads s' t) = RT_THREAD_SUSPEND \<and> (TThread t \<in> set (timer_list s') \<longleftrightarrow> 0 < sint time)"
proof -
  have inv: "kinv s" using reachable_kinv assms(1,2) by blast
  have ring: "mb_inv (mailboxes s i)"
    using mailbox.always [OF assms(2,1), of i] assms(3,4) by (simp add: mb_ok_def)
  have sc: "scheduler_available b s = Some ()" for b
    using assms(5-8) by (simp add: may_wait)
  have self: "rt_thread_self s = Some t" using assms(5) by (simp add: rt_thread_self_def)
  show ?thesis
  proof (cases "length (mb_contents (mailboxes s i)) < mb_cap (mailboxes s i)")
    case True
    then obtain m where m: "mb_put v (mailboxes s i) = Some (True, m)"
      "mb_contents m = mb_contents (mailboxes s i) @ [v]"
      using mb_put_fits [OF ring, of v] by auto
    have ne: "mb_entry (mailboxes s i) \<noteq> mb_size (mailboxes s i)" using True by (auto simp: mb_full_iff)
    obtain s' where "ipc_wake_one (MbWait i) (upd_mb i (\<lambda>_. m) s) = Some s'" "mailboxes s' i = m"
      "case queue s (MbWait i) of [] \<Rightarrow> s' = upd_mb i (\<lambda>_. m) s
       | r # rs \<Rightarrow> queue s' (MbWait i) = rs \<and> runnable s' r \<and> error (threads s' r) = error (threads s r)"
      using wake_spec [of "upd_mb i (\<lambda>_. m) s" "MbWait i" t] inv assms(5) by (cases "queue s (MbWait i)") auto
    then show ?thesis
      using True m ne sc self assms(3)
      by (simp add: rt_mb_send_wait_def mb_send_loop_def) (auto split: list.splits)
  next
    case False
    then have full: "mb_entry (mailboxes s i) = mb_size (mailboxes s i)"
      using mbq.bounded [OF ring] by (simp add: mb_full_iff)
    show ?thesis
      using loop_block_spec [OF inv assms(5,6) _ assms(10,7,9,11), of "MbSender i"] False full sc self assms(3)
      by (auto simp: rt_mb_send_wait_def mb_send_loop_def Let_def)
  qed
qed

theorem mb_send_behaviour_witness:
  "\<exists>s'. rt_mb_send_wait 0 9 0 full_mb = Some (Done (- RT_EFULL), s')"
proof -
  have b: "mb_obj (mailboxes full_mb 0) = ObjStatic" "rt_current_thread full_mb = Some 3"
    "stat (threads full_mb 3) = RT_THREAD_RUNNING" "rt_scheduler_lock_nest full_mb = 0" "rt_interrupt_nest full_mb = 0"
    "mb_flag (mailboxes full_mb 0) = RT_IPC_FLAG_FIFO" "length (mb_contents (mailboxes full_mb 0)) = 2"
    "mb_cap (mailboxes full_mb 0) = 2" by code_simp+
  have p: "pool_fits (mailboxes full_mb 0)" by code_simp
  have q: "queue full_mb (Ready 20) \<noteq> []" by code_simp
  show ?thesis
    using mb_send_behaviour [OF acts_by_calls_skip full_mb_reachable _ p b(2-5) q, of 0 9] b(1,6-8) by simp
qed

text \<open>C22: Urgent mail overtakes: after \<open>rt_mb_urgent\<close> of a word to a mailbox with room and nobody waiting, the
  next \<open>rt_mb_recv\<close> returns exactly that word and leaves the mail that was there, in its order.\<close>

theorem mb_urgent_received_first:
  assumes "acts_by_calls cb" "reachable cb s" "mb_obj (mailboxes s i) \<noteq> ObjNull" "pool_fits (mailboxes s i)"
    "rt_current_thread s = Some t" "length (mb_contents (mailboxes s i)) < mb_cap (mailboxes s i)"
    "queue s (MbWait i) = []" "queue s (MbSender i) = []"
  shows "\<exists>s1 s2. rt_mb_urgent i v s = Some (RT_EOK, s1) \<and>
    mb_contents (mailboxes s1 i) = v # mb_contents (mailboxes s i) \<and>
    rt_mb_recv i 0 s1 = Some (Done (RT_EOK, Some v), s2) \<and>
    mb_contents (mailboxes s2 i) = mb_contents (mailboxes s i) \<and> threads s2 = threads s"
proof -
  have ring: "mb_inv (mailboxes s i)"
    using mailbox.always [OF assms(2,1), of i] assms(3,4) by (simp add: mb_ok_def)
  have ne: "mb_entry (mailboxes s i) \<noteq> mb_size (mailboxes s i)" using assms(6) by (auto simp: mb_full_iff)
  obtain m where m: "mb_put_front v (mailboxes s i) = Some m" "mb_inv m"
    "mb_contents m = v # mb_contents (mailboxes s i)" "mb_obj m = mb_obj (mailboxes s i)"
    using mb_put_front_fits [OF ring, of v] assms(6) by auto
  obtain m' where m': "mb_get m = Some (v, m')" "mb_contents m' = mb_contents (mailboxes s i)"
    using mb_get_first [OF m(2,3)] by auto
  have "mb_entry m \<noteq> 0" using m(3) mb_contents_empty [of m] by auto
  then show ?thesis
    using m m' ne assms(3,7,8)
    by (intro exI [of _ "upd_mb i (\<lambda>_. m) s"] exI [of _ "upd_mb i (\<lambda>_. m') (upd_mb i (\<lambda>_. m) s)"])
      (simp add: rt_mb_urgent_def rt_mb_recv_def mb_recv_loop_def ipc_wake_one_def may_wait)
qed

text \<open>Mailbox 0 of three words, one of them used.\<close>

definition some_mail :: kernel where
  "some_mail = (case (do {
     (_, s) \<leftarrow> rt_mb_init 0 [0, 0, 0] 3 RT_IPC_FLAG_PRIO booted; rt_mb_send_wait 0 7 0 s
   }) of Some (_, s) \<Rightarrow> s)"

lemma some_mail_reachable: "reachable cb some_mail"
proof -
  have "do { (_, s) \<leftarrow> rt_mb_init 0 [0, 0, 0] 3 RT_IPC_FLAG_PRIO booted; rt_mb_send_wait 0 7 0 s } \<noteq> None" by code_simp
  then obtain r s1 c where "rt_mb_init 0 [0, 0, 0] 3 RT_IPC_FLAG_PRIO booted = Some (r, s1)"
    "rt_mb_send_wait 0 7 0 s1 = Some (c, some_mail)"
    by (auto simp: some_mail_def bindE)
  then show ?thesis using booted_reachable reachable_call kcall.k_mb_init kcall.k_mb_send_wait by meson
qed

theorem mb_urgent_received_first_witness:
  "\<exists>s1 s2. rt_mb_urgent 0 5 some_mail = Some (RT_EOK, s1) \<and> mb_contents (mailboxes s1 0) = [5, 7] \<and>
    rt_mb_recv 0 0 s1 = Some (Done (RT_EOK, Some 5), s2) \<and> mb_contents (mailboxes s2 0) = [7]"
proof -
  have b: "mb_obj (mailboxes some_mail 0) = ObjStatic" "mb_contents (mailboxes some_mail 0) = [7]"
    "mb_cap (mailboxes some_mail 0) = 3" "queue some_mail (MbWait 0) = []" "queue some_mail (MbSender 0) = []" by code_simp+
  have p: "pool_fits (mailboxes some_mail 0)" by code_simp
  have c: "rt_current_thread some_mail = Some 1" by code_simp
  show ?thesis
    using mb_urgent_received_first [OF acts_by_calls_skip some_mail_reachable _ p c, of 5] b by auto
qed

end
