(* ===== verification/MqProps.thy ===== *)
theory MqProps imports MailboxProps
begin

text \<open>
  What message queues promise: no block of the pool is ever lost or linked twice, messages come out
  in order, and a reset returns every block.
\<close>

subsection \<open>Chains of blocks\<close>

text \<open>\<open>chain nx p bs\<close>: following \<open>nx\<close> from \<open>p\<close> visits the blocks \<open>bs\<close> and ends at a null pointer.\<close>

primrec chain :: "(nat \<Rightarrow> nat option) \<Rightarrow> nat option \<Rightarrow> nat list \<Rightarrow> bool" where
  "chain nx p [] \<longleftrightarrow> p = None"
| "chain nx p (b # bs) \<longleftrightarrow> p = Some b \<and> chain nx (nx b) bs"

lemma chain_None [simp]: "chain nx None bs \<longleftrightarrow> bs = []"
  by (cases bs) auto

lemma chain_Some: "chain nx (Some b) bs \<longleftrightarrow> (\<exists>cs. bs = b # cs \<and> chain nx (nx b) cs)"
  by (cases bs) auto

lemma chain_upd [simp]: "b \<notin> set bs \<Longrightarrow> chain (nx(b := v)) p bs \<longleftrightarrow> chain nx p bs"
  by (induction bs arbitrary: p) auto

lemma chain_snoc:
  "chain nx p (bs @ [e]) \<Longrightarrow> distinct (bs @ [e]) \<Longrightarrow> b \<notin> set (bs @ [e]) \<Longrightarrow> nx b = None \<Longrightarrow>
   chain (nx(e := Some b)) p (bs @ [e, b])"
  by (induction bs arbitrary: p) auto

text \<open>Reading \<open>n\<close> blocks off a chain.\<close>

primrec chain_take :: "(nat \<Rightarrow> nat option) \<Rightarrow> nat \<Rightarrow> nat option \<Rightarrow> nat list" where
  "chain_take nx 0 p = []"
| "chain_take nx (Suc n) p = (case p of None \<Rightarrow> [] | Some b \<Rightarrow> b # chain_take nx n (nx b))"

lemma chain_take_all: "chain nx p bs \<Longrightarrow> chain_take nx (length bs) p = bs"
  by (induction bs arbitrary: p) auto

text \<open>The loop of \<open>rt_mq_init\<close> chains all blocks into the free list.\<close>

lemma mq_chain_free_chain:
  "mq_chain_free n nx = (nx', fr) \<Longrightarrow> chain nx' fr (rev [0..<n])"
proof (induction n arbitrary: nx' fr)
  case 0
  then show ?case by (simp add: mq_chain_free_def)
next
  case (Suc n)
  obtain nx1 fr1 where r: "mq_chain_free n nx = (nx1, fr1)" by fastforce
  have e: "nx' = nx1(n := fr1)" "fr = Some n"
    using Suc.prems r by (simp_all add: mq_chain_free_def)
  have "chain (nx1(n := fr1)) fr1 (rev [0..<n])" using Suc.IH [OF r] by (subst chain_upd) simp_all
  then show ?case unfolding e by (simp del: fun_upd_apply add: fun_upd_same)
qed

subsection \<open>The shape of a message queue\<close>

text \<open>The queue holds the blocks \<open>q\<close>, the free list the blocks \<open>f\<close>, and these are all blocks of the pool.\<close>

definition mq_shape :: "rt_messagequeue \<Rightarrow> nat list \<Rightarrow> nat list \<Rightarrow> bool" where
  "mq_shape m q f \<longleftrightarrow> chain (mq_next m) (msg_queue_head m) q \<and> chain (mq_next m) (msg_queue_free m) f \<and>
     distinct (q @ f) \<and> set (q @ f) = {0..<unat (max_msgs m)} \<and> length q = unat (mq_entry m) \<and>
     msg_queue_tail m = (if q = [] then None else Some (last q))"

definition mq_inv :: "rt_messagequeue \<Rightarrow> bool" where
  "mq_inv m \<longleftrightarrow> (\<exists>q f. mq_shape m q f)"

text \<open>The blocks of the queue, and what they hold, read from the headers.\<close>

definition mq_blocks :: "rt_messagequeue \<Rightarrow> nat list" where
  "mq_blocks m = chain_take (mq_next m) (unat (mq_entry m)) (msg_queue_head m)"

definition mq_contents :: "rt_messagequeue \<Rightarrow> u8 list list" where
  "mq_contents m = map (mq_data m) (mq_blocks m)"

lemma shape_blocks: "mq_shape m q f \<Longrightarrow> mq_blocks m = q"
  using chain_take_all by (fastforce simp: mq_shape_def mq_blocks_def)

lemma shape_count:
  assumes "mq_shape m q f"
  shows "length q + length f = unat (max_msgs m)"
proof -
  have "card (set (q @ f)) = length (q @ f)" using assms unfolding mq_shape_def by (intro distinct_card) simp
  then show ?thesis using assms unfolding mq_shape_def by simp
qed

lemma new_mq_shape: "mq_shape (new_mq obj flag nx pool msz maxm) [] (rev [0..<unat maxm])"
proof -
  obtain nx' fr where r: "mq_chain_free (unat maxm) nx = (nx', fr)" by fastforce
  then show ?thesis using mq_chain_free_chain [OF r] by (simp add: new_mq_def mq_shape_def)
qed

text \<open>Sending needs a free block; then the count cannot have reached its limit.\<close>

lemma shape_room:
  assumes "mq_shape m q (b # f)"
  shows "mq_entry m < RT_UINT16_MAX" "unat (mq_entry m + 1) = Suc (length q)" "msg_queue_free m = Some b"
    "chain (mq_next m) (mq_next m b) f" "b \<notin> set q" "b \<notin> set f"
proof -
  have "length q < unat (max_msgs m)" using shape_count [OF assms] by simp
  then have "unat (mq_entry m) < 65535" using assms unat_u16 [of "max_msgs m"] unfolding mq_shape_def by simp
  then show "mq_entry m < RT_UINT16_MAX" "unat (mq_entry m + 1) = Suc (length q)"
    using assms by (simp_all add: word_less_nat_alt RT_UINT16_MAX_def unat_word_ariths mq_shape_def)
qed (use assms in \<open>auto simp: mq_shape_def\<close>)

lemma mq_enqueue_shape:
  assumes "mq_shape m q (b # f)" "mwrite (mq_data m b) 0 buf = Some d"
  shows "\<exists>m'. mq_enqueue buf m = Some (True, m') \<and> mq_shape m' (q @ [b]) f \<and> mq_data m' = (mq_data m)(b := d) \<and>
    mq_obj m' = mq_obj m \<and> msg_size m' = msg_size m \<and> mq_flag m' = mq_flag m"
proof -
  note r = shape_room [OF assms(1)]
  have sh: "chain (mq_next m) (msg_queue_head m) q" "distinct q" "distinct f" "set q \<inter> set f = {}"
    "insert b (set q \<union> set f) = {0..<unat (max_msgs m)}" "msg_queue_tail m = (if q = [] then None else Some (last q))"
    "length q = unat (mq_entry m)"
    using assms(1) by (auto simp: mq_shape_def)
  define nx where "nx = (mq_next m)(b := None)"
  have nx: "chain nx (msg_queue_head m) q" "chain nx (mq_next m b) f" "nx b = None"
    using sh(1) r(4-6) by (simp_all add: nx_def)
  show ?thesis
  proof (cases "q = []")
    case True
    let ?m = "m\<lparr>mq_next := nx, msg_queue_free := mq_next m b, mq_data := (mq_data m)(b := d),
      msg_queue_tail := Some b, msg_queue_head := Some b, mq_entry := mq_entry m + 1\<rparr>"
    have "mq_enqueue buf m = Some (True, ?m)"
      using True r(1,3) sh(1,6) assms(2)
      by (simp add: mq_enqueue_def mq_alloc_def mq_fill_def mq_link_tail_def Let_def nx_def)
    moreover have "mq_shape ?m (q @ [b]) f"
      unfolding mq_shape_def using True nx r(2,6) sh(3,5) by simp
    ultimately show ?thesis by simp
  next
    case False
    then obtain qs e where q: "q = qs @ [e]" by (cases q rule: rev_cases) auto
    let ?m = "m\<lparr>mq_next := nx(e := Some b), msg_queue_free := mq_next m b, mq_data := (mq_data m)(b := d),
      msg_queue_tail := Some b, mq_entry := mq_entry m + 1\<rparr>"
    have "msg_queue_head m \<noteq> None" using sh(1) False by (cases q) auto
    then have "mq_enqueue buf m = Some (True, ?m)"
      using q r(1,3) sh(6) assms(2)
      by (simp add: mq_enqueue_def mq_alloc_def mq_fill_def mq_link_tail_def Let_def nx_def)
    moreover have "mq_shape ?m (q @ [b]) f"
    proof -
      have "chain (nx(e := Some b)) (msg_queue_head m) (qs @ [e, b])"
        using chain_snoc [of nx _ qs e b] nx(1,3) r(5) sh(2) q by simp
      moreover have "chain (nx(e := Some b)) (mq_next m b) f" using nx(2) sh(4) q by simp
      ultimately show ?thesis
        unfolding mq_shape_def using r(2,5,6) sh(2-5) q by auto
    qed
    ultimately show ?thesis by simp
  qed
qed

lemma mq_enqueue_front_shape:
  assumes "mq_shape m q (b # f)" "mwrite (mq_data m b) 0 buf = Some d"
  shows "\<exists>m'. mq_enqueue_front buf m = Some (True, m') \<and> mq_shape m' (b # q) f \<and> mq_data m' = (mq_data m)(b := d) \<and>
    mq_obj m' = mq_obj m \<and> msg_size m' = msg_size m \<and> mq_flag m' = mq_flag m"
proof -
  note r = shape_room [OF assms(1)]
  have sh: "chain (mq_next m) (msg_queue_head m) q" "distinct q" "distinct f" "set q \<inter> set f = {}"
    "insert b (set q \<union> set f) = {0..<unat (max_msgs m)}" "msg_queue_tail m = (if q = [] then None else Some (last q))"
    using assms(1) by (auto simp: mq_shape_def)
  let ?m = "m\<lparr>mq_next := (mq_next m)(b := msg_queue_head m), msg_queue_free := mq_next m b,
    mq_data := (mq_data m)(b := d), msg_queue_tail := (if q = [] then Some b else msg_queue_tail m),
    msg_queue_head := Some b, mq_entry := mq_entry m + 1\<rparr>"
  have "mq_enqueue_front buf m = Some (True, ?m)"
    using r(1,3) sh(6) assms(2)
    by (auto simp: mq_enqueue_front_def mq_alloc_def mq_fill_def mq_link_head_def Let_def)
  moreover have "mq_shape ?m (b # q) f"
    unfolding mq_shape_def using r sh by auto
  ultimately show ?thesis by simp
qed

lemma mq_dequeue_shape:
  assumes "mq_shape m (b # q) f" "mread (mq_data m b) 0 (int (if unat (msg_size m) < sz then unat (msg_size m) else sz)) = Some d"
  shows "\<exists>m'. mq_dequeue sz m = Some (d, m') \<and> mq_shape m' q (b # f) \<and> mq_data m' = mq_data m \<and>
    mq_obj m' = mq_obj m \<and> msg_size m' = msg_size m \<and> mq_flag m' = mq_flag m"
proof -
  have sh: "msg_queue_head m = Some b" "chain (mq_next m) (mq_next m b) q" "chain (mq_next m) (msg_queue_free m) f"
    "distinct q" "distinct f" "b \<notin> set q" "b \<notin> set f" "set q \<inter> set f = {}"
    "insert b (set q \<union> set f) = {0..<unat (max_msgs m)}" "unat (mq_entry m) = Suc (length q)"
    "msg_queue_tail m = Some (last (b # q))"
    using assms(1) by (auto simp: mq_shape_def)
  have e: "0 < mq_entry m" "unat (mq_entry m - 1) = length q"
    using sh(10) by (simp_all add: unat_minus_one word_gt_0 unat_eq_zero [symmetric])
  have tl: "msg_queue_tail m = Some b \<longleftrightarrow> q = []" using sh(6,11) by (auto dest: last_in_set)
  let ?m = "m\<lparr>msg_queue_head := mq_next m b, msg_queue_tail := (if q = [] then None else msg_queue_tail m),
    mq_entry := mq_entry m - 1, mq_next := (mq_next m)(b := msg_queue_free m), msg_queue_free := Some b\<rparr>"
  have "mq_dequeue sz m = Some (d, ?m)"
    using sh(1) e(1) tl assms(2)
    by (cases "q = []") (simp_all add: mq_dequeue_def mq_unlink_head_def mq_free_def Let_def cong: if_cong split del: if_split)
  moreover have "mq_shape ?m q (b # f)"
    unfolding mq_shape_def using sh e by (auto simp del: last.simps) (simp add: sh(11))
  ultimately show ?thesis by simp
qed

subsection \<open>Reset\<close>

text \<open>The loop that empties the queue ends, and frees the blocks in order.\<close>

lemma mq_flush_spec:
  assumes "chain (mq_next m) (msg_queue_head m) q" "chain (mq_next m) (msg_queue_free m) f" "distinct (q @ f)"
    "msg_queue_tail m = (if q = [] then None else Some (last q))"
  shows "\<exists>m'. mq_flush m = Some m' \<and> msg_queue_head m' = None \<and> msg_queue_tail m' = None \<and>
    chain (mq_next m') (msg_queue_free m') (rev q @ f) \<and> max_msgs m' = max_msgs m \<and> mq_obj m' = mq_obj m"
  using assms
proof (induction q arbitrary: m f)
  case Nil
  then show ?case by (subst mq_flush.simps) simp
next
  case (Cons b q)
  let ?m = "m\<lparr>msg_queue_head := mq_next m b\<rparr>"
  let ?m2 = "if msg_queue_tail ?m = Some b then ?m\<lparr>msg_queue_tail := None\<rparr> else ?m"
  have tl: "msg_queue_tail m = Some b \<longleftrightarrow> q = []" using Cons.prems(3,4) by (auto dest: last_in_set)
  have "mq_flush m = mq_flush (mq_free b ?m2)"
    using Cons.prems(1) by (subst mq_flush.simps) (simp add: Let_def)
  moreover have "chain (mq_next (mq_free b ?m2)) (msg_queue_head (mq_free b ?m2)) q"
    "chain (mq_next (mq_free b ?m2)) (msg_queue_free (mq_free b ?m2)) (b # f)" "distinct (q @ b # f)"
    "msg_queue_tail (mq_free b ?m2) = (if q = [] then None else Some (last q))"
    using Cons.prems tl by (auto simp: mq_free_def)
  from Cons.IH [OF this] obtain m' where "mq_flush (mq_free b ?m2) = Some m'" "msg_queue_head m' = None"
    "msg_queue_tail m' = None" "chain (mq_next m') (msg_queue_free m') (rev q @ b # f)"
    "max_msgs m' = max_msgs (mq_free b ?m2)" "mq_obj m' = mq_obj (mq_free b ?m2)" by blast
  ultimately show ?case by (intro exI [of _ m']) (simp add: mq_free_def)
qed

lemma mq_flush_obj:
  assumes "mq_flush m = Some m'"
  shows "mq_obj m' = mq_obj m"
proof -
  define P where "P m m' \<longleftrightarrow> mq_obj m' = mq_obj m" for m m' :: rt_messagequeue
  have "P m m'"
  proof (rule mq_flush.raw_induct [OF _ assms])
    fix loop m m'
    assume IH: "\<And>m y. loop m = Some y \<Longrightarrow> P m y"
      and step: "(case msg_queue_head m of None \<Rightarrow> Some m
        | Some b \<Rightarrow> let m = m\<lparr>msg_queue_head := mq_next m b\<rparr>;
            m = if msg_queue_tail m = Some b then m\<lparr>msg_queue_tail := None\<rparr> else m in loop (mq_free b m)) = Some m'"
    then show "P m m'"
      by (auto simp: P_def mq_free_def Let_def split: option.splits if_splits dest!: IH)
  qed
  then show ?thesis by (simp add: P_def)
qed

lemma mq_flush_shape:
  assumes "mq_shape m q f"
  shows "\<exists>m'. mq_flush m = Some m' \<and> mq_shape (m'\<lparr>mq_entry := 0\<rparr>) [] (rev q @ f) \<and> mq_obj m' = mq_obj m"
proof -
  have sh: "chain (mq_next m) (msg_queue_head m) q" "chain (mq_next m) (msg_queue_free m) f" "distinct (q @ f)"
    "msg_queue_tail m = (if q = [] then None else Some (last q))" "set (q @ f) = {0..<unat (max_msgs m)}"
    using assms unfolding mq_shape_def by auto
  from mq_flush_spec [OF sh(1-4)] obtain m' where m': "mq_flush m = Some m'" "msg_queue_head m' = None"
    "msg_queue_tail m' = None" "chain (mq_next m') (msg_queue_free m') (rev q @ f)" "max_msgs m' = max_msgs m"
    "mq_obj m' = mq_obj m" by blast
  have "mq_shape (m'\<lparr>mq_entry := 0\<rparr>) [] (rev q @ f)"
    unfolding mq_shape_def using m' sh(3,5) by auto
  then show ?thesis using m'(1,6) by blast
qed

subsection \<open>Every reachable queue is sound\<close>

lemmas mq_kept = object_kept [of "MqWait i", simplified] loop_block_object [of _ _ _ _ _ _ _ "MqWait i", simplified] for i

definition mq_steps :: "rt_messagequeue \<Rightarrow> rt_messagequeue \<Rightarrow> bool" where
  "mq_steps m m' \<longleftrightarrow> m' = m \<or> mq_obj m' = ObjNull \<or> (\<exists>obj flag nx pool msz maxm. m' = new_mq obj flag nx pool msz maxm) \<or>
     msg_queue_free m \<noteq> None \<and> (\<exists>buf b. mq_enqueue buf m = Some (b, m')) \<or>
     msg_queue_free m \<noteq> None \<and> (\<exists>buf b. mq_enqueue_front buf m = Some (b, m')) \<or>
     mq_entry m \<noteq> 0 \<and> (\<exists>sz d. mq_dequeue sz m = Some (d, m')) \<or>
     (\<exists>m1. mq_flush m = Some m1 \<and> m' = m1\<lparr>mq_entry := 0\<rparr>)"

lemma mq_steps_refl [simp]: "mq_steps m m"
  by (simp add: mq_steps_def)

lemma mq_steps_send_loop:
  assumes "mq_send_loop i self buf time s = Some (c, s')"
  shows "mq_steps (mqueues s i) (mqueues s' i)"
proof (cases "msg_queue_free (mqueues s i) = None")
  case True
  then have "mqueues s' i = mqueues s i"
    using assms mq_kept(4) by (fastforce simp: mq_send_loop_def bindE Let_def split: if_splits)
  then show ?thesis by simp
next
  case False
  then obtain b m where "mq_enqueue buf (mqueues s i) = Some (b, m)"
    "s' = upd_mq i (\<lambda>_. m) s \<or> ipc_wake_one (MqWait i) (upd_mq i (\<lambda>_. m) s) = Some s'"
    using assms by (auto simp: mq_send_loop_def bindE Let_def split: if_splits)
  moreover from this(2) have "mqueues s' i = m" using mq_kept(1) by fastforce
  ultimately show ?thesis using False by (auto simp: mq_steps_def)
qed

lemma mq_steps_recv_loop:
  assumes "mq_recv_loop i self sz time s = Some (c, s')"
  shows "mq_steps (mqueues s i) (mqueues s' i)"
proof (cases "mq_entry (mqueues s i) = 0")
  case True
  then have "mqueues s' i = mqueues s i"
    using assms mq_kept(4) by (fastforce simp: mq_recv_loop_def bindE Let_def split: if_splits)
  then show ?thesis by simp
next
  case False
  then obtain d m where "mq_dequeue sz (mqueues s i) = Some (d, m)"
    "ipc_wake_one (MqSender i) (upd_mq i (\<lambda>_. m) s) = Some s'"
    using assms by (auto simp: mq_recv_loop_def bindE Let_def)
  moreover from this(2) have "mqueues s' i = m" using mq_kept(1) by fastforce
  ultimately show ?thesis using False by (auto simp: mq_steps_def)
qed

lemma mq_call_steps:
  assumes "mq_call i s s'"
  shows "mq_steps (mqueues s i) (mqueues s' i)"
  using assms
proof cases
  case (mq_init nx pool v v' flag r)
  then have "\<exists>nx pool msz maxm. mqueues s' i = new_mq ObjStatic flag nx pool msz maxm"
    by (auto simp: rt_mq_init_def bindE Let_def) blast
  then show ?thesis unfolding mq_steps_def by blast
next
  case (mq_create qmem v v' flag q)
  then have "mq_obj (mqueues s' i) = ObjNull \<or> (\<exists>nx pool msz maxm. mqueues s' i = new_mq ObjDynamic flag nx pool msz maxm)"
    by (auto simp: rt_mq_create_def ipc_object_init_def bindE split: option.splits) blast+
  then show ?thesis unfolding mq_steps_def by blast
next
  case (mq_urgent buf r)
  then consider "s' = s"
    | b m where "msg_queue_free (mqueues s i) \<noteq> None" "mq_enqueue_front buf (mqueues s i) = Some (b, m)"
      "s' = upd_mq i (\<lambda>_. m) s \<or> ipc_wake_one (MqWait i) (upd_mq i (\<lambda>_. m) s) = Some s'"
    by (auto simp: rt_mq_urgent_def bindE Let_def split: if_splits)
  then show ?thesis
  proof cases
    case 2
    have "mqueues s' i = m" using 2(3) mq_kept(1) by fastforce
    then show ?thesis using 2(1,2) by (auto simp: mq_steps_def)
  qed simp
next
  case (mq_control cmd r)
  show ?thesis
  proof (cases "cmd = RT_IPC_CMD_RESET")
    case True
    then obtain s1 s2 m where "ipc_list_resume_all (MqWait i) s = Some s1" "ipc_list_resume_all (MqSender i) s1 = Some s2"
      "mq_flush (mqueues s2 i) = Some m" "rt_schedule (upd_mq i (\<lambda>_. m\<lparr>mq_entry := 0\<rparr>) s2) = Some s'"
      using mq_control by (auto simp: rt_mq_control_def bindE)
    then show ?thesis using mq_kept(2) [of _ s' i] mq_kept(3) [of _ _ _ i] by (fastforce simp: mq_steps_def)
  qed (use mq_control in \<open>auto simp: rt_mq_control_def bindE\<close>)
qed (auto simp: rt_mq_detach_def rt_mq_delete_def rt_mq_send_wait_def mq_send_resume_def rt_mq_recv_def
    mq_recv_resume_def bindE intro: mq_steps_send_loop mq_steps_recv_loop split: if_splits,
    auto simp: mq_steps_def)

definition mq_ok :: "oid \<Rightarrow> kernel \<Rightarrow> bool" where
  "mq_ok i s \<longleftrightarrow> mq_obj (mqueues s i) = ObjNull \<or> mq_inv (mqueues s i)"

lemma mq_obj_kept:
  "mq_enqueue buf m = Some (b, m') \<Longrightarrow> mq_obj m' = mq_obj m"
  "mq_enqueue_front buf m = Some (b, m') \<Longrightarrow> mq_obj m' = mq_obj m"
  "mq_dequeue sz m = Some (d, m') \<Longrightarrow> mq_obj m' = mq_obj m"
  by (auto simp: mq_enqueue_def mq_enqueue_front_def mq_dequeue_def mq_alloc_def mq_fill_def mq_link_tail_def
      mq_link_head_def mq_unlink_head_def mq_free_def bindE Let_def split: if_splits option.splits)

text \<open>A step that got through keeps the shape, whatever the message and the buffer.\<close>

lemma enqueue_inv:
  assumes "mq_enqueue buf m = Some (k, m')" "mq_inv m" "msg_queue_free m \<noteq> None"
  shows "mq_inv m'"
proof -
  obtain q f where sh: "mq_shape m q f" using assms(2) by (auto simp: mq_inv_def)
  then obtain b fs where f: "f = b # fs" using assms(3) by (cases f) (auto simp: mq_shape_def)
  then have "msg_queue_free m = Some b" using sh by (simp add: mq_shape_def)
  then obtain d where "mwrite (mq_data m b) 0 buf = Some d"
    using assms(1) by (auto simp: mq_enqueue_def mq_alloc_def mq_fill_def bindE)
  from mq_enqueue_shape [OF sh [unfolded f] this] assms(1) show ?thesis by (auto simp: mq_inv_def)
qed

lemma enqueue_front_inv:
  assumes "mq_enqueue_front buf m = Some (k, m')" "mq_inv m" "msg_queue_free m \<noteq> None"
  shows "mq_inv m'"
proof -
  obtain q f where sh: "mq_shape m q f" using assms(2) by (auto simp: mq_inv_def)
  then obtain b fs where f: "f = b # fs" using assms(3) by (cases f) (auto simp: mq_shape_def)
  then have "msg_queue_free m = Some b" using sh by (simp add: mq_shape_def)
  then obtain d where "mwrite (mq_data m b) 0 buf = Some d"
    using assms(1) by (auto simp: mq_enqueue_front_def mq_alloc_def mq_fill_def bindE)
  from mq_enqueue_front_shape [OF sh [unfolded f] this] assms(1) show ?thesis by (auto simp: mq_inv_def)
qed

lemma dequeue_inv:
  assumes "mq_dequeue sz m = Some (d, m')" "mq_inv m" "mq_entry m \<noteq> 0"
  shows "mq_inv m'"
proof -
  obtain q f where sh: "mq_shape m q f" using assms(2) by (auto simp: mq_inv_def)
  have "length q \<noteq> 0" using sh assms(3) by (simp add: mq_shape_def unat_eq_zero)
  then obtain b qs where q: "q = b # qs" by (cases q) auto
  then have "msg_queue_head m = Some b" using sh by (simp add: mq_shape_def)
  then have "mread (mq_data m b) 0 (int (if unat (msg_size m) < sz then unat (msg_size m) else sz)) = Some d"
    using assms(1)
    by (simp add: mq_dequeue_def mq_unlink_head_def bindE Let_def split_def cong: if_cong split del: if_split)
      (auto split: if_splits)
  from mq_dequeue_shape [OF sh [unfolded q] this] assms(1) show ?thesis by (auto simp: mq_inv_def)
qed

lemma mq_steps_keep:
  assumes "mq_steps m m'" "mq_obj m = ObjNull \<or> mq_inv m"
  shows "mq_obj m' = ObjNull \<or> mq_inv m'"
proof -
  from assms(1) show ?thesis
    unfolding mq_steps_def
  proof (elim disjE conjE exE)
    fix m1 assume f: "mq_flush m = Some m1" "m' = m1\<lparr>mq_entry := 0\<rparr>"
    show ?thesis
    proof (cases "mq_inv m")
      case True
      then obtain q fr where sh: "mq_shape m q fr" by (auto simp: mq_inv_def)
      from mq_flush_shape [OF sh] f show ?thesis by (auto simp: mq_inv_def)
    next
      case False
      then show ?thesis using assms(2) mq_flush_obj [OF f(1)] f(2) by simp
    qed
  next
    fix obj flag nx pool msz maxm assume "m' = new_mq obj flag nx pool msz maxm"
    then show ?thesis using new_mq_shape unfolding mq_inv_def by blast
  next
    fix buf b assume "msg_queue_free m \<noteq> None" "mq_enqueue buf m = Some (b, m')"
    then show ?thesis using assms(2) mq_obj_kept(1) enqueue_inv by metis
  next
    fix buf b assume "msg_queue_free m \<noteq> None" "mq_enqueue_front buf m = Some (b, m')"
    then show ?thesis using assms(2) mq_obj_kept(2) enqueue_front_inv by metis
  next
    fix sz d assume "mq_entry m \<noteq> 0" "mq_dequeue sz m = Some (d, m')"
    then show ?thesis using assms(2) mq_obj_kept(3) dequeue_inv by metis
  qed (use assms(2) in simp_all)
qed

interpretation mqueue: waiter_invariant "MqWait i" "mq_ok i" for i
proof
  show "\<exists>j. MqWait i = SemWait j \<or> MqWait i = MutexWait j \<or> MqWait i = MbWait j \<or> MqWait i = MqWait j" by blast
  show "wframe (MqWait i) s s' \<Longrightarrow> mq_ok i s \<Longrightarrow> mq_ok i s'" for s s'
    by (auto simp: wframe_def mq_ok_def)
  show "own_call (MqWait i) s s' \<Longrightarrow> kinv s \<Longrightarrow> mq_ok i s \<Longrightarrow> mq_ok i s'" for s s'
    using mq_call_steps mq_steps_keep unfolding mq_ok_def by (elim own_mq) blast
  show "power_on s \<Longrightarrow> mq_ok i s" for s by (simp add: power_on_def mq_ok_def)
qed

subsection \<open>Properties\<close>


text \<open>Message queue 0 with three blocks of eight bytes and two messages.\<close>

definition two_msgs :: kernel where
  "two_msgs = (case (do {
     (_, s) \<leftarrow> rt_mq_init 0 (\<lambda>_. None) (\<lambda>_. replicate 8 0) 8 36 RT_IPC_FLAG_FIFO booted;
     (_, s) \<leftarrow> rt_mq_send_wait 0 [1, 2, 3] 0 s;
     rt_mq_send_wait 0 [4] 0 s
   }) of Some (_, s) \<Rightarrow> s)"

lemma two_msgs_reachable: "reachable cb two_msgs"
proof -
  have "do { (_, s) \<leftarrow> rt_mq_init 0 (\<lambda>_. None) (\<lambda>_. replicate 8 0) 8 36 RT_IPC_FLAG_FIFO booted;
     (_, s) \<leftarrow> rt_mq_send_wait 0 [1, 2, 3] 0 s; rt_mq_send_wait 0 [4] 0 s } \<noteq> None" by code_simp
  then obtain r s1 c2 s2 c3 where
    "rt_mq_init 0 (\<lambda>_. None) (\<lambda>_. replicate 8 0) 8 36 RT_IPC_FLAG_FIFO booted = Some (r, s1)"
    "rt_mq_send_wait 0 [1, 2, 3] 0 s1 = Some (c2, s2)" "rt_mq_send_wait 0 [4] 0 s2 = Some (c3, two_msgs)"
    by (auto simp: two_msgs_def bindE)
  then show ?thesis
    using booted_reachable reachable_call kcall.k_mq_init kcall.k_mq_send_wait by meson
qed




text \<open>The bytes of the blocks, as long as the message size says.\<close>

definition bodies_fit :: "rt_messagequeue \<Rightarrow> bool" where
  "bodies_fit m \<longleftrightarrow> list_all (\<lambda>b. length (mq_data m b) = unat (msg_size m)) [0..<unat (max_msgs m)]"

text \<open>C19: \<open>rt_mq_send_wait\<close> of a message that fits, to a queue with a free block, adds one block behind the
  others that begins with the message; then \<open>rt_mq_recv\<close> with a buffer of \<open>sz\<close> bytes returns the first
  \<open>sz\<close> bytes of the message that was first and leaves the rest in order. A longer message is refused
  with \<open>-RT_ERROR\<close>, and nothing is stored.\<close>

theorem mq_send_then_recv:
  assumes "acts_by_calls cb" "reachable cb s" "mq_obj (mqueues s i) \<noteq> ObjNull" "bodies_fit (mqueues s i)"
    "rt_current_thread s = Some t" "queue s (MqWait i) = []" "queue s (MqSender i) = []"
    "buf \<noteq> []" "0 < sz" "sz \<le> unat (msg_size (mqueues s i))" "msg_queue_free (mqueues s i) \<noteq> None"
  shows "if unat (msg_size (mqueues s i)) < length buf
    then rt_mq_send_wait i buf 0 s = Some (Done (- RT_ERROR), s)
    else \<exists>s1 s2 d. rt_mq_send_wait i buf 0 s = Some (Done RT_EOK, s1) \<and> take (length buf) d = buf \<and>
      mq_contents (mqueues s1 i) = mq_contents (mqueues s i) @ [d] \<and>
      rt_mq_recv i sz 0 s1 = Some (Done (RT_EOK, Some (take sz (hd (mq_contents (mqueues s1 i))))), s2) \<and>
      mq_contents (mqueues s2 i) = tl (mq_contents (mqueues s1 i)) \<and> threads s2 = threads s"
proof (cases "unat (msg_size (mqueues s i)) < length buf")
  case True
  then show ?thesis using assms(3,8) by (simp add: rt_mq_send_wait_def may_wait)
next
  case False
  let ?m = "mqueues s i"
  obtain q f0 where sh0: "mq_shape ?m q f0"
    using mqueue.always [OF assms(2,1), of i] assms(3) by (auto simp: mq_ok_def mq_inv_def)
  then obtain b f where sh: "mq_shape ?m q (b # f)" using assms(11) by (cases f0) (auto simp: mq_shape_def)
  have fit: "length (mq_data ?m x) = unat (msg_size ?m)" if "x \<in> set (q @ b # f)" for x
    using assms(4) sh that unfolding bodies_fit_def mq_shape_def by (simp add: list_all_iff)
  let ?d = "buf @ drop (length buf) (mq_data ?m b)"
  have "mwrite (mq_data ?m b) 0 buf = Some ?d"
    using mwrite_of_nat [of 0 buf "mq_data ?m b"] fit [of b] False by simp
  from mq_enqueue_shape [OF sh this] obtain m1 where m1: "mq_enqueue buf ?m = Some (True, m1)"
    "mq_shape m1 (q @ [b]) f" "mq_data m1 = (mq_data ?m)(b := ?d)" "mq_obj m1 = mq_obj ?m" "msg_size m1 = msg_size ?m"
    by blast
  have bq: "b \<notin> set q" using sh by (auto simp: mq_shape_def)
  then have "map (mq_data m1) q = map (mq_data ?m) q" using m1(3) by simp
  then have c1: "mq_contents m1 = mq_contents ?m @ [?d]"
    using shape_blocks [OF sh] shape_blocks [OF m1(2)] m1(3) by (simp add: mq_contents_def)
  obtain x xs where x: "q @ [b] = x # xs" by (cases q) auto
  have hx: "mq_contents m1 = mq_data m1 x # map (mq_data m1) xs"
    using shape_blocks [OF m1(2)] x by (simp add: mq_contents_def)
  have "x \<in> set (q @ [b])" unfolding x by simp
  then have "x \<in> set (q @ b # f)" by auto
  then have lx: "length (mq_data m1 x) = unat (msg_size ?m)"
    using fit [of x] fit [of b] m1(3) False by (cases "x = b") simp_all
  have "mread (mq_data m1 x) 0 (int (if unat (msg_size m1) < sz then unat (msg_size m1) else sz)) = Some (take sz (mq_data m1 x))"
    using mread_of_nat [of 0 sz "mq_data m1 x"] lx assms(10) m1(5) by simp
  from mq_dequeue_shape [OF m1(2) [unfolded x] this] obtain m2 where
    m2: "mq_dequeue sz m1 = Some (take sz (mq_data m1 x), m2)" "mq_shape m2 xs (x # f)" "mq_data m2 = mq_data m1"
    by blast
  have c2: "mq_contents m2 = map (mq_data m1) xs"
    using shape_blocks [OF m2(2)] m2(3) by (simp add: mq_contents_def)
  have ne: "mq_entry m1 \<noteq> 0" using m1(2) by (auto simp: mq_shape_def)
  let ?s1 = "upd_mq i (\<lambda>_. m1) s"
  let ?s2 = "upd_mq i (\<lambda>_. m2) ?s1"
  have e: "mqueues ?s1 i = m1" "mqueues ?s2 i = m2" "threads ?s2 = threads s" by simp_all
  have h: "hd (mq_contents m1) = mq_data m1 x" "tl (mq_contents m1) = mq_contents m2" using hx c2 by simp_all
  have "rt_mq_send_wait i buf 0 s = Some (Done RT_EOK, ?s1)"
    using m1(1) False assms(3,6,8) shape_room(3) [OF sh]
    by (simp add: rt_mq_send_wait_def mq_send_loop_def ipc_wake_one_def may_wait Let_def)
  moreover have "rt_mq_recv i sz 0 ?s1 = Some (Done (RT_EOK, Some (take sz (mq_data m1 x))), ?s2)"
    using m2(1) ne m1(4) assms(3,7,9) by (simp add: rt_mq_recv_def mq_recv_loop_def ipc_wake_one_def may_wait)
  moreover have "take (length buf) ?d = buf" by simp
  ultimately show ?thesis
    unfolding if_not_P [OF False] using c1 e(3)
    by (intro exI [of _ ?s1] exI [of _ ?s2] exI [of _ ?d], unfold e(1,2) h) blast
qed

theorem mq_send_then_recv_witness:
  "\<exists>s1 s2. rt_mq_send_wait 0 [9, 9] 0 two_msgs = Some (Done RT_EOK, s1) \<and>
    rt_mq_recv 0 3 0 s1 = Some (Done (RT_EOK, Some [1, 2, 3]), s2)"
proof -
  have o: "mq_obj (mqueues two_msgs 0) = ObjStatic" "msg_size (mqueues two_msgs 0) = 8"
    "msg_queue_free (mqueues two_msgs 0) = Some 0"
    "mq_contents (mqueues two_msgs 0) = [[1, 2, 3, 0, 0, 0, 0, 0], [4, 0, 0, 0, 0, 0, 0, 0]]" by code_simp+
  have c: "rt_current_thread two_msgs = Some 1" "queue two_msgs (MqWait 0) = []" "queue two_msgs (MqSender 0) = []" by code_simp+
  have f: "bodies_fit (mqueues two_msgs 0)" by code_simp
  obtain s1 s2 d where "rt_mq_send_wait 0 [9, 9] 0 two_msgs = Some (Done RT_EOK, s1)"
    "mq_contents (mqueues s1 0) = mq_contents (mqueues two_msgs 0) @ [d]"
    "rt_mq_recv 0 3 0 s1 = Some (Done (RT_EOK, Some (take 3 (hd (mq_contents (mqueues s1 0))))), s2)"
    using mq_send_then_recv [OF acts_by_calls_skip two_msgs_reachable _ f c, of "[9, 9]" 3] o(1-3) by auto
  then show ?thesis by (intro exI [of _ s1] exI [of _ s2]) (simp add: o(4))
qed

end
