(* ===== verification/Smem.thy ===== *)
theory Smem imports KState
begin

text \<open>
  The small memory algorithm of \<open>src/mem.c\<close>, the system heap of this board.

  A pointer into the heap is its distance from \<open>heap_ptr\<close>. The block headers, which the code finds in
  the heap itself, are the map \<open>items\<close>, and the callers' bytes the map \<open>heap_bytes\<close>, both by distance:
  a caller that writes past its block is outside the model.
\<close>

record rt_small_mem_item =
  pool_ptr :: u32
  mem_next :: u32
  mem_prev :: u32

record rt_small_mem =
  smem_obj :: rt_obj
  smem_addr :: u32
  mem_address :: u32
  mem_total :: u32
  mem_used :: u32
  mem_max :: u32
  heap_ptr :: u32
  heap_end :: u32
  lfree :: u32
  mem_size_aligned :: u32
  items :: "u32 \<Rightarrow> rt_small_mem_item"
  heap_bytes :: "u32 \<Rightarrow> u8"

definition MIN_SIZE :: u32 where "MIN_SIZE = 12"
definition MEM_MASK :: u32 where "MEM_MASK = 0xfffffffe"

text \<open>\<open>sizeof(struct rt_small_mem_item)\<close> and \<open>sizeof(struct rt_small_mem)\<close> of the board.\<close>

definition sizeof_item :: u32 where "sizeof_item = 12"
definition sizeof_small_mem :: u32 where "sizeof_small_mem = 56"

definition MIN_SIZE_ALIGNED :: u32 where "MIN_SIZE_ALIGNED = RT_ALIGN MIN_SIZE RT_ALIGN_SIZE"
definition SIZEOF_STRUCT_MEM :: u32 where "SIZEOF_STRUCT_MEM = RT_ALIGN sizeof_item RT_ALIGN_SIZE"

definition MEM_USED :: "rt_small_mem \<Rightarrow> u32" where
  "MEM_USED m = (smem_addr m AND MEM_MASK) OR 1"

definition MEM_FREED :: "rt_small_mem \<Rightarrow> u32" where
  "MEM_FREED m = (smem_addr m AND MEM_MASK) OR 0"

definition MEM_ISUSED :: "rt_small_mem_item \<Rightarrow> bool" where
  "MEM_ISUSED it \<longleftrightarrow> pool_ptr it AND NOT MEM_MASK \<noteq> 0"

definition MEM_POOL :: "rt_small_mem_item \<Rightarrow> u32" where
  "MEM_POOL it = pool_ptr it AND MEM_MASK"

text \<open>Assigning to fields of the header at \<open>p\<close>.\<close>

definition upd_item :: "u32 \<Rightarrow> (rt_small_mem_item \<Rightarrow> rt_small_mem_item) \<Rightarrow> rt_small_mem \<Rightarrow> rt_small_mem" where
  "upd_item p f m = m\<lparr>items := (items m)(p := f (items m p))\<rparr>"

subsection \<open>Initialisation\<close>

text \<open>\<open>mem0\<close> and \<open>bytes0\<close> are what the memory holds before; an inner \<open>None\<close> is a null pointer.\<close>

definition rt_smem_init ::
    "(u32 \<Rightarrow> rt_small_mem_item) \<Rightarrow> (u32 \<Rightarrow> u8) \<Rightarrow> u32 \<Rightarrow> u32 \<Rightarrow> rt_small_mem option" where
  "rt_smem_init mem0 bytes0 begin_addr sz =
     (let small_mem = RT_ALIGN begin_addr RT_ALIGN_SIZE;
          start_addr = small_mem + sizeof_small_mem;
          begin_align = RT_ALIGN start_addr RT_ALIGN_SIZE;
          end_align = RT_ALIGN_DOWN (begin_addr + sz) RT_ALIGN_SIZE
      in if end_align > 2 * SIZEOF_STRUCT_MEM \<and> end_align - 2 * SIZEOF_STRUCT_MEM \<ge> start_addr
         then
           let mem_size = end_align - begin_align - 2 * SIZEOF_STRUCT_MEM;
               m = \<lparr>smem_obj = ObjStatic, smem_addr = small_mem, mem_address = begin_align, mem_total = mem_size,
                 mem_used = 0, mem_max = 0, heap_ptr = begin_align, heap_end = 0, lfree = 0,
                 mem_size_aligned = mem_size, items = mem0, heap_bytes = bytes0\<rparr>;
               m = upd_item 0 (\<lambda>_. \<lparr>pool_ptr = MEM_FREED m, mem_next = mem_size + SIZEOF_STRUCT_MEM, mem_prev = 0\<rparr>) m;
               m = m\<lparr>heap_end := mem_next (items m 0)\<rparr>;
               m = upd_item (heap_end m) (\<lambda>_. \<lparr>pool_ptr = MEM_USED m, mem_next = mem_size + SIZEOF_STRUCT_MEM,
                     mem_prev = mem_size + SIZEOF_STRUCT_MEM\<rparr>) m
           in Some (m\<lparr>lfree := 0\<rparr>)
         else None)"

definition rt_smem_detach :: "rt_small_mem \<Rightarrow> (rt_err_t \<times> rt_small_mem) option" where
  "rt_smem_detach m = do {
     rt_assert (smem_obj m = ObjStatic);
     Some (RT_EOK, m\<lparr>smem_obj := ObjNull\<rparr>)
   }"

subsection \<open>Joining free blocks\<close>

definition plug_forward :: "u32 \<Rightarrow> rt_small_mem \<Rightarrow> rt_small_mem" where
  "plug_forward mem m =
     (let nmem = mem_next (items m mem)
      in if mem \<noteq> nmem \<and> \<not> MEM_ISUSED (items m nmem) \<and> nmem \<noteq> heap_end m
         then
           let m = (if lfree m = nmem then m\<lparr>lfree := mem\<rparr> else m);
               m = upd_item nmem (pool_ptr_update (\<lambda>_. 0)) m;
               m = upd_item mem (mem_next_update (\<lambda>_. mem_next (items m nmem))) m
           in upd_item (mem_next (items m nmem)) (mem_prev_update (\<lambda>_. mem)) m
         else m)"

definition plug_backward :: "u32 \<Rightarrow> rt_small_mem \<Rightarrow> rt_small_mem" where
  "plug_backward mem m =
     (let pmem = mem_prev (items m mem)
      in if pmem \<noteq> mem \<and> \<not> MEM_ISUSED (items m pmem)
         then
           let m = (if lfree m = mem then m\<lparr>lfree := pmem\<rparr> else m);
               m = upd_item mem (pool_ptr_update (\<lambda>_. 0)) m;
               m = upd_item pmem (mem_next_update (\<lambda>_. mem_next (items m mem))) m
           in upd_item (mem_next (items m mem)) (mem_prev_update (\<lambda>_. pmem)) m
         else m)"

definition plug_holes :: "u32 \<Rightarrow> rt_small_mem \<Rightarrow> rt_small_mem option" where
  "plug_holes mem m = do {
     rt_assert (mem < heap_end m);
     Some (plug_backward mem (plug_forward mem m))
   }"

subsection \<open>Allocation\<close>

text \<open>The search for a free block that is large enough; the loop may fail to end.\<close>

partial_function (option) smem_scan :: "rt_small_mem \<Rightarrow> u32 \<Rightarrow> u32 \<Rightarrow> u32 option option" where
  "smem_scan m sz ptr =
     (if ptr \<le> mem_size_aligned m - sz
      then if \<not> MEM_ISUSED (items m ptr) \<and> mem_next (items m ptr) - (ptr + SIZEOF_STRUCT_MEM) \<ge> sz
           then Some (Some ptr)
           else smem_scan m sz (mem_next (items m ptr))
      else Some None)"

text \<open>The lowest free block from \<open>p\<close> on.\<close>

partial_function (option) smem_skip_used :: "rt_small_mem \<Rightarrow> u32 \<Rightarrow> u32 option" where
  "smem_skip_used m p =
     (if MEM_ISUSED (items m p) \<and> p \<noteq> heap_end m
      then smem_skip_used m (mem_next (items m p))
      else Some p)"

definition smem_account :: "u32 \<Rightarrow> rt_small_mem \<Rightarrow> rt_small_mem" where
  "smem_account n m =
     (let m = m\<lparr>mem_used := mem_used m + n\<rparr>
      in if mem_max m < mem_used m then m\<lparr>mem_max := mem_used m\<rparr> else m)"

text \<open>Cutting a block of \<open>sz\<close> bytes off the block at \<open>ptr\<close>; what follows it becomes a free block.\<close>

definition smem_split :: "u32 \<Rightarrow> u32 \<Rightarrow> rt_small_mem \<Rightarrow> rt_small_mem" where
  "smem_split ptr sz m =
     (let ptr2 = ptr + SIZEOF_STRUCT_MEM + sz;
          m = upd_item ptr2 (\<lambda>_. \<lparr>pool_ptr = MEM_FREED m, mem_next = mem_next (items m ptr), mem_prev = ptr\<rparr>) m;
          m = upd_item ptr (mem_next_update (\<lambda>_. ptr2)) m
      in if mem_next (items m ptr2) \<noteq> mem_size_aligned m + SIZEOF_STRUCT_MEM
         then upd_item (mem_next (items m ptr2)) (mem_prev_update (\<lambda>_. ptr2)) m
         else m)"

definition smem_take :: "u32 \<Rightarrow> u32 \<Rightarrow> rt_small_mem \<Rightarrow> rt_small_mem option" where
  "smem_take ptr sz m = do {
     let m = (if mem_next (items m ptr) - (ptr + SIZEOF_STRUCT_MEM) \<ge> sz + SIZEOF_STRUCT_MEM + MIN_SIZE_ALIGNED
              then smem_account (sz + SIZEOF_STRUCT_MEM) (smem_split ptr sz m)
              else smem_account (mem_next (items m ptr) - ptr) m);
     let m = upd_item ptr (pool_ptr_update (\<lambda>_. MEM_USED m)) m;
     m \<leftarrow> (if ptr = lfree m
          then do {
            p \<leftarrow> smem_skip_used m (lfree m);
            rt_assert (p = heap_end m \<or> \<not> MEM_ISUSED (items m p));
            Some (m\<lparr>lfree := p\<rparr>)
          }
          else Some m);
     rt_assert (heap_ptr m + ptr + SIZEOF_STRUCT_MEM + sz \<le> heap_ptr m + heap_end m);
     rt_assert ((heap_ptr m + ptr + SIZEOF_STRUCT_MEM) mod RT_ALIGN_SIZE = 0);
     rt_assert ((heap_ptr m + ptr) AND (RT_ALIGN_SIZE - 1) = 0);
     Some m
   }"

definition rt_smem_alloc :: "u32 \<Rightarrow> rt_small_mem \<Rightarrow> (u32 option \<times> rt_small_mem) option" where
  "rt_smem_alloc sz m =
     (if sz = 0 then Some (None, m)
      else do {
        rt_assert (smem_obj m = ObjStatic);
        let sz = RT_ALIGN sz RT_ALIGN_SIZE;
        if sz > mem_size_aligned m then Some (None, m)
        else do {
          let sz = (if sz < MIN_SIZE_ALIGNED then MIN_SIZE_ALIGNED else sz);
          r \<leftarrow> smem_scan m sz (lfree m);
          (case r of
             None \<Rightarrow> Some (None, m)
           | Some ptr \<Rightarrow> do {
               m \<leftarrow> smem_take ptr sz m;
               Some (Some (ptr + SIZEOF_STRUCT_MEM), m)
             })
        }
      })"

subsection \<open>Release\<close>

definition rt_smem_free :: "u32 option \<Rightarrow> rt_small_mem \<Rightarrow> rt_small_mem option" where
  "rt_smem_free rmem m =
     (case rmem of
        None \<Rightarrow> Some m
      | Some p \<Rightarrow> do {
          rt_assert ((heap_ptr m + p) AND (RT_ALIGN_SIZE - 1) = 0);
          let mem = p - SIZEOF_STRUCT_MEM;
          rt_assert (MEM_POOL (items m mem) = smem_addr m);
          rt_assert (MEM_ISUSED (items m mem));
          rt_assert (smem_obj m = ObjStatic);
          rt_assert (p < heap_end m);
          rt_assert (MEM_POOL (items m (mem_next (items m mem))) = smem_addr m);
          let m = upd_item mem (pool_ptr_update (\<lambda>_. MEM_FREED m)) m;
          let m = (if mem < lfree m then m\<lparr>lfree := mem\<rparr> else m);
          let m = m\<lparr>mem_used := mem_used m - (mem_next (items m mem) - mem)\<rparr>;
          plug_holes mem m
        })"

subsection \<open>Resizing\<close>

text \<open>\<open>rt_memcpy\<close> of \<open>n\<close> bytes inside the heap, between blocks that do not overlap\<close>

definition heap_copy :: "u32 \<Rightarrow> u32 \<Rightarrow> u32 \<Rightarrow> rt_small_mem \<Rightarrow> rt_small_mem" where
  "heap_copy dst src n m =
     m\<lparr>heap_bytes := (\<lambda>a. if a - dst < n then heap_bytes m (src + (a - dst)) else heap_bytes m a)\<rparr>"

definition rt_smem_realloc :: "u32 option \<Rightarrow> u32 \<Rightarrow> rt_small_mem \<Rightarrow> (u32 option \<times> rt_small_mem) option" where
  "rt_smem_realloc rmem newsize m = do {
     rt_assert (smem_obj m = ObjStatic);
     let newsize = RT_ALIGN newsize RT_ALIGN_SIZE;
     if newsize > mem_size_aligned m then Some (None, m)
     else if newsize = 0 then do { m \<leftarrow> rt_smem_free rmem m; Some (None, m) }
     else (case rmem of
        None \<Rightarrow> rt_smem_alloc newsize m
      | Some p \<Rightarrow> do {
          rt_assert ((heap_ptr m + p) AND (RT_ALIGN_SIZE - 1) = 0);
          rt_assert (p < heap_end m);
          let mem = p - SIZEOF_STRUCT_MEM;
          let sz = mem_next (items m mem) - mem - SIZEOF_STRUCT_MEM;
          if sz = newsize then Some (Some p, m)
          else if newsize + SIZEOF_STRUCT_MEM + MIN_SIZE < sz
          then do {
            let m = smem_split mem newsize (m\<lparr>mem_used := mem_used m - (sz - newsize)\<rparr>);
            let mem2 = mem + SIZEOF_STRUCT_MEM + newsize;
            let m = (if mem2 < lfree m then m\<lparr>lfree := mem2\<rparr> else m);
            m \<leftarrow> plug_holes mem2 m;
            Some (Some p, m)
          }
          else do {
            (nmem, m) \<leftarrow> rt_smem_alloc newsize m;
            (case nmem of
               None \<Rightarrow> Some (None, m)
             | Some q \<Rightarrow> do {
                 m \<leftarrow> rt_smem_free (Some p) (heap_copy q p (if sz < newsize then sz else newsize) m);
                 Some (Some q, m)
               })
          }
        })
   }"

end
