(* ===== verification/SmemProps.thy ===== *)
theory SmemProps imports Smem "HOL-Library.Multiset"
begin

text \<open>
  What the small memory algorithm promises: its headers always tile the heap, and on the list of
  tiles allocation is first fit and release joins neighbours.
\<close>

subsection \<open>Words of the code\<close>

lemma smem_sizes [simp]: "SIZEOF_STRUCT_MEM = 12" "MIN_SIZE_ALIGNED = 12" "MIN_SIZE = 12"
  by code_simp+

lemma MEM_MASK_eq: "MEM_MASK = NOT 1"
  by code_simp

text \<open>The last bit of \<open>pool_ptr\<close> tells used from free; the rest is the address of the heap object.\<close>

lemma isused_tag [simp]: "MEM_ISUSED it \<longleftrightarrow> bit (pool_ptr it) 0"
proof -
  have "pool_ptr it AND 1 = (if bit (pool_ptr it) 0 then 1 else 0)"
    by (rule bit_word_eqI) (auto simp: bit_simps bit_1_iff intro!: gr0I)
  then show ?thesis by (simp add: MEM_ISUSED_def MEM_MASK_eq)
qed

lemma tag_bits [simp]: "bit (MEM_USED m) 0" "\<not> bit (MEM_FREED m) 0"
  by (simp_all add: MEM_USED_def MEM_FREED_def MEM_MASK_eq bit_simps)

lemma tag_pool:
  assumes "smem_addr m AND MEM_MASK = smem_addr m"
  shows "MEM_USED m AND MEM_MASK = smem_addr m" "MEM_FREED m AND MEM_MASK = smem_addr m"
proof -
  have "(x OR 1) AND NOT 1 = x AND NOT (1 :: u32)" for x
    by (rule bit_word_eqI) (auto simp: bit_simps bit_1_iff)
  then show "MEM_USED m AND MEM_MASK = smem_addr m"
    using assms by (simp add: MEM_USED_def MEM_MASK_eq)
  show "MEM_FREED m AND MEM_MASK = smem_addr m" using assms by (simp add: MEM_FREED_def)
qed

lemma word_pos [simp]: "n < 2 ^ 32 \<Longrightarrow> unat (of_nat n :: u32) = n"
  by (simp add: unsigned_of_nat take_bit_nat_eq_self)

lemma word_pos_eq: "a < 2 ^ 32 \<Longrightarrow> b < 2 ^ 32 \<Longrightarrow> (of_nat a :: u32) = of_nat b \<longleftrightarrow> a = b"
  by (metis word_pos)

subsection \<open>Tiles\<close>

text \<open>A layout lists the blocks from the start of the heap: length with the header, and whether in use.\<close>

type_synonym layout = "(nat \<times> bool) list"

definition tag :: "rt_small_mem \<Rightarrow> bool \<Rightarrow> u32" where
  "tag m u = (if u then MEM_USED m else MEM_FREED m)"

definition hdr :: "rt_small_mem \<Rightarrow> nat \<Rightarrow> rt_small_mem_item" where
  "hdr m k = items m (of_nat k)"

fun extent :: "layout \<Rightarrow> nat" where
  "extent [] = 0"
| "extent ((n, u) # bs) = n + extent bs"

fun last_pos :: "nat \<Rightarrow> nat \<Rightarrow> layout \<Rightarrow> nat" where
  "last_pos p k [] = p"
| "last_pos p k ((n, u) # bs) = last_pos k (k + n) bs"

fun tiles :: "rt_small_mem \<Rightarrow> nat \<Rightarrow> nat \<Rightarrow> layout \<Rightarrow> bool" where
  "tiles m p k [] \<longleftrightarrow> True"
| "tiles m p k ((n, u) # bs) \<longleftrightarrow>
     hdr m k = \<lparr>pool_ptr = tag m u, mem_next = of_nat (k + n), mem_prev = of_nat p\<rparr> \<and>
     12 < n \<and> 4 dvd n \<and> tiles m k (k + n) bs"

lemma total_append [simp]: "extent (xs @ ys) = extent xs + extent ys"
  by (induction xs rule: extent.induct) auto

lemma last_pos_append [simp]: "last_pos p k (xs @ ys) = last_pos (last_pos p k xs) (k + extent xs) ys"
  by (induction xs arbitrary: p k rule: extent.induct) (auto simp: add.assoc)

lemma tiles_append [simp]:
  "tiles m p k (xs @ ys) \<longleftrightarrow> tiles m p k xs \<and> tiles m (last_pos p k xs) (k + extent xs) ys"
  by (induction xs arbitrary: p k rule: extent.induct) (auto simp: add.assoc)

lemma tiles_cong:
  assumes "\<And>i. k \<le> i \<Longrightarrow> i < k + extent bs \<Longrightarrow> hdr m' i = hdr m i" "smem_addr m' = smem_addr m"
  shows "tiles m' p k bs \<longleftrightarrow> tiles m p k bs"
  using assms
proof (induction bs arbitrary: p k rule: extent.induct)
  case (2 n u bs)
  have "tag m' u = tag m u" using 2(3) by (simp add: tag_def MEM_USED_def MEM_FREED_def)
  moreover have "tiles m' k (k + n) bs \<longleftrightarrow> tiles m k (k + n) bs" if "12 < n"
    using 2(2,3) that by (intro 2(1)) auto
  moreover have "hdr m' k = hdr m k" if "12 < n" using 2(2) [of k] that by simp
  ultimately show ?case by (cases "12 < n") auto
qed simp

lemma hdr_upd:
  assumes "a < 2 ^ 32" "i < 2 ^ 32"
  shows "hdr (upd_item (of_nat a) f m) i = (if i = a then f (hdr m a) else hdr m i)"
  using assms by (simp add: hdr_def upd_item_def word_pos_eq)

lemma upd_item_fields [simp]:
  "smem_addr (upd_item a f m) = smem_addr m" "smem_obj (upd_item a f m) = smem_obj m"
  "heap_ptr (upd_item a f m) = heap_ptr m" "heap_end (upd_item a f m) = heap_end m"
  "lfree (upd_item a f m) = lfree m" "mem_size_aligned (upd_item a f m) = mem_size_aligned m"
  "mem_used (upd_item a f m) = mem_used m" "heap_bytes (upd_item a f m) = heap_bytes m"
  by (simp_all add: upd_item_def)

lemma tag_upd [simp]: "tag (upd_item a f m) = tag m" "MEM_USED (upd_item a f m) = MEM_USED m"
  "MEM_FREED (upd_item a f m) = MEM_FREED m"
  by (auto simp: fun_eq_iff tag_def MEM_USED_def MEM_FREED_def)

text \<open>The static part of a heap, and the tiling of its memory up to the end marker.\<close>

definition heap_frame :: "rt_small_mem \<Rightarrow> nat \<Rightarrow> bool" where
  "heap_frame m e \<longleftrightarrow> smem_obj m = ObjStatic \<and> smem_addr m AND MEM_MASK = smem_addr m \<and>
     unat (heap_ptr m) mod 4 = 0 \<and> unat (heap_ptr m) + e + 12 < 2 ^ 32 \<and> 12 < e \<and> 4 dvd e \<and>
     heap_end m = of_nat e \<and> mem_size_aligned m = of_nat (e - 12) \<and>
     pool_ptr (hdr m e) = MEM_USED m \<and> mem_next (hdr m e) = of_nat e"

definition tiled :: "rt_small_mem \<Rightarrow> layout \<Rightarrow> bool" where
  "tiled m bs \<longleftrightarrow> heap_frame m (extent bs) \<and> tiles m 0 0 bs"

fun coalesced :: "layout \<Rightarrow> bool" where
  "coalesced ((n, u) # (n', u') # bs) \<longleftrightarrow> (u \<or> u') \<and> coalesced ((n', u') # bs)"
| "coalesced bs \<longleftrightarrow> True"

fun first_free :: "nat \<Rightarrow> layout \<Rightarrow> nat" where
  "first_free k [] = k"
| "first_free k ((n, u) # bs) = (if u then first_free (k + n) bs else k)"

fun used_total :: "layout \<Rightarrow> nat" where
  "used_total [] = 0"
| "used_total ((n, u) # bs) = (if u then n else 0) + used_total bs"

text \<open>A heap with the layout \<open>bs\<close>.\<close>

definition heap_rep :: "rt_small_mem \<Rightarrow> layout \<Rightarrow> bool" where
  "heap_rep m bs \<longleftrightarrow> tiled m bs \<and> coalesced bs \<and> lfree m = of_nat (first_free 0 bs) \<and>
     mem_used m = of_nat (used_total bs)"

lemma first_free_le: "k \<le> first_free k bs" "first_free k bs \<le> k + extent bs"
  by (induction k bs rule: first_free.induct) auto

lemma used_total_append [simp]: "used_total (xs @ ys) = used_total xs + used_total ys"
  by (induction xs rule: used_total.induct) auto

lemma used_total_le: "used_total bs \<le> extent bs"
  by (induction bs rule: extent.induct) auto

lemma heap_frame_small: "heap_frame m e \<Longrightarrow> e + 12 < 2 ^ 32"
  by (simp add: heap_frame_def)

subsection \<open>The search\<close>

fun first_fit :: "nat \<Rightarrow> nat \<Rightarrow> layout \<Rightarrow> nat option" where
  "first_fit k sz [] = None"
| "first_fit k sz ((n, u) # bs) = (if \<not> u \<and> sz + 12 \<le> n then Some k else first_fit (k + n) sz bs)"

lemma first_fit_bound: "first_fit k sz bs = Some j \<Longrightarrow> k \<le> j \<and> j + sz + 12 \<le> k + extent bs"
  by (induction k sz bs rule: first_fit.induct) (auto split: if_splits)

lemma first_fit_split:
  "first_fit k sz bs = Some j \<Longrightarrow> \<exists>xs n ys. bs = xs @ (n, False) # ys \<and> j = k + extent xs \<and> sz + 12 \<le> n"
proof (induction k sz bs rule: first_fit.induct)
  case (2 k sz n u bs)
  show ?case
  proof (cases "\<not> u \<and> sz + 12 \<le> n")
    case True
    then show ?thesis using 2(2) by (intro exI [of _ "[]"] exI [of _ n] exI [of _ bs]) simp
  next
    case False
    then obtain xs n' ys where "bs = xs @ (n', False) # ys" "j = k + n + extent xs" "sz + 12 \<le> n'"
      using 2 by auto
    then show ?thesis by (intro exI [of _ "(n, u) # xs"] exI [of _ n'] exI [of _ ys]) simp
  qed
qed simp

text \<open>Blocks below the lowest free one are passed over for free.\<close>

lemma first_fit_skip:
  "\<exists>us rest. bs = us @ rest \<and> (\<forall>b \<in> set us. snd b) \<and> first_free k bs = k + extent us \<and>
     first_fit k sz bs = first_fit (k + extent us) sz rest"
proof (induction bs arbitrary: k rule: extent.induct)
  case (2 n u bs)
  show ?case
  proof (cases u)
    case True
    obtain us rest where "bs = us @ rest" "\<forall>b \<in> set us. snd b" "first_free (k + n) bs = k + n + extent us"
      "first_fit (k + n) sz bs = first_fit (k + n + extent us) sz rest"
      using 2 by blast
    then show ?thesis using True by (intro exI [of _ "(n, u) # us"] exI [of _ rest]) (auto simp: add.assoc)
  next
    case False
    then show ?thesis by (intro exI [of _ "[]"] exI [of _ "(n, u) # bs"]) simp
  qed
qed (intro exI [of _ "[]"], simp)

lemma word_sub_pos: "b \<le> a \<Longrightarrow> (of_nat a :: u32) - of_nat b = of_nat (a - b)"
  by (simp add: of_nat_diff)

lemma word_pos_le: "a < 2 ^ 32 \<Longrightarrow> b < 2 ^ 32 \<Longrightarrow> (of_nat a :: u32) \<le> of_nat b \<longleftrightarrow> a \<le> b"
  "a < 2 ^ 32 \<Longrightarrow> b < 2 ^ 32 \<Longrightarrow> (of_nat a :: u32) < of_nat b \<longleftrightarrow> a < b"
  by (simp_all add: word_le_nat_alt word_less_nat_alt)

lemma tag_bit [simp]: "bit (tag m u) 0 \<longleftrightarrow> u"
  by (simp add: tag_def)

text \<open>The size a block offers, as the code computes it.\<close>

lemma block_room: "12 < n \<Longrightarrow> (of_nat (k + n) :: u32) - (of_nat k + 12) = of_nat (n - 12)"
  using word_sub_pos [of "k + 12" "k + n"] by simp

lemma last_start:
  assumes "heap_frame m e" "sz \<le> e - 12"
  shows "mem_size_aligned m - of_nat sz = of_nat (e - 12 - sz)"
proof -
  have "mem_size_aligned m = of_nat (e - 12)" using assms(1) by (simp only: heap_frame_def)
  then show ?thesis using word_sub_pos [OF assms(2)] by (simp only:)
qed

lemma scan_spec:
  assumes "heap_frame m e" "tiles m p k bs" "k + extent bs = e" "sz \<le> e - 12"
  shows "smem_scan m (of_nat sz) (of_nat k) = Some (map_option of_nat (first_fit k sz bs))"
  using assms(2,3)
proof (induction bs arbitrary: p k rule: extent.induct)
  case 1
  have "12 < e" "e + 12 < 2 ^ 32" using assms(1) by (auto simp: heap_frame_def)
  moreover note last_start [OF assms(1,4)]
  ultimately have "\<not> (of_nat k :: u32) \<le> mem_size_aligned m - of_nat sz"
    using 1(2) by (simp add: word_pos_le)
  then show ?case by (subst smem_scan.simps) simp
next
  case (2 n u bs)
  have b: "k + n + extent bs = e" "e + 12 < 2 ^ 32" "12 < n" using 2(2,3) assms(1) by (auto simp: heap_frame_def)
  have h: "items m (of_nat k) = \<lparr>pool_ptr = tag m u, mem_next = of_nat (k + n), mem_prev = of_nat p\<rparr>"
    using 2(2) by (simp add: hdr_def)
  note msa = last_start [OF assms(1,4)]
  have room: "(of_nat sz :: u32) \<le> of_nat (n - 12) \<longleftrightarrow> sz + 12 \<le> n"
    using b assms(4) by (subst word_pos_le) auto
  show ?case
  proof (cases "k \<le> e - 12 - sz")
    case True
    then have le: "(of_nat k :: u32) \<le> mem_size_aligned m - of_nat sz"
      unfolding msa using b by (subst word_pos_le) auto
    have rest: "smem_scan m (of_nat sz) (of_nat (k + n)) = Some (map_option of_nat (first_fit (k + n) sz bs))"
      using 2(1) [of k "k + n"] 2(2) b(1) by simp
    have "smem_scan m (of_nat sz) (of_nat k) =
        (if \<not> u \<and> sz + 12 \<le> n then Some (Some (of_nat k)) else smem_scan m (of_nat sz) (of_nat (k + n)))"
      using le h block_room [OF b(3), of k] room by (subst smem_scan.simps) (simp del: of_nat_add)
    then show ?thesis using rest by simp
  next
    case False
    then have "\<not> (of_nat k :: u32) \<le> mem_size_aligned m - of_nat sz"
      unfolding msa using b by (subst word_pos_le) auto
    moreover have "first_fit k sz ((n, u) # bs) = None"
      using False first_fit_bound [of k sz "(n, u) # bs"] b(1) assms(4) by (cases "first_fit k sz ((n, u) # bs)") auto
    ultimately show ?thesis by (subst smem_scan.simps) simp
  qed
qed

lemma skip_used_spec:
  assumes "heap_frame m e" "tiles m p k bs" "k + extent bs = e"
  shows "smem_skip_used m (of_nat k) = Some (of_nat (first_free k bs))"
  using assms(2,3)
proof (induction bs arbitrary: p k rule: extent.induct)
  case 1
  then show ?case using assms(1) by (subst smem_skip_used.simps) (simp add: heap_frame_def hdr_def)
next
  case (2 n u bs)
  have b: "k + n + extent bs = e" "e + 12 < 2 ^ 32" "12 < n" using 2(2,3) assms(1) by (auto simp: heap_frame_def)
  have "(of_nat k :: u32) \<noteq> heap_end m"
    using assms(1) b by (simp add: heap_frame_def word_pos_eq)
  moreover have "items m (of_nat k) = \<lparr>pool_ptr = tag m u, mem_next = of_nat (k + n), mem_prev = of_nat p\<rparr>"
    using 2(2) by (simp add: hdr_def)
  ultimately show ?case
    using 2(1) [of k "k + n"] 2(2) b(1) by (subst smem_skip_used.simps) (simp del: of_nat_add)
qed

text \<open>Where the walk stops, it has found the end marker or a free block.\<close>

lemma skip_used_ends:
  assumes "smem_skip_used m p = Some q"
  shows "q = heap_end m \<or> \<not> MEM_ISUSED (items m q)"
proof -
  define P where "P m p q \<longleftrightarrow> q = heap_end m \<or> \<not> MEM_ISUSED (items m q)" for m :: rt_small_mem and p q :: u32
  have "P m p q"
    by (rule smem_skip_used.raw_induct [OF _ assms]) (auto simp: P_def split: if_splits)
  then show ?thesis by (simp add: P_def)
qed

subsection \<open>Splitting a block\<close>

text \<open>Tiles whose first header got another predecessor.\<close>

lemma tiles_prev:
  assumes "tiles m p k ys" "\<And>i. k < i \<Longrightarrow> i < k + extent ys \<Longrightarrow> hdr m' i = hdr m i"
    "ys \<noteq> [] \<Longrightarrow> hdr m' k = (hdr m k)\<lparr>mem_prev := of_nat p'\<rparr>" "smem_addr m' = smem_addr m"
  shows "tiles m' p' k ys"
proof (cases ys)
  case (Cons y zs)
  obtain n u where y: "y = (n, u)" by fastforce
  have "tag m' u = tag m u" using assms(4) by (simp add: tag_def MEM_USED_def MEM_FREED_def)
  moreover have "tiles m' k (k + n) zs \<longleftrightarrow> tiles m k (k + n) zs"
    using assms(1,2,4) Cons y by (intro tiles_cong) auto
  ultimately show ?thesis using assms(1,3) Cons y by simp
qed simp

lemma tiles_pos: "tiles m p k ((n, u) # bs) \<Longrightarrow> k < k + extent ((n, u) # bs)"
  by simp

lemma extent_0: "tiles m p k bs \<Longrightarrow> extent bs = 0 \<Longrightarrow> bs = []"
  by (cases bs) auto

text \<open>The frame does not depend on headers other than the end marker.\<close>

lemma heap_frame_cong:
  assumes "heap_frame m e" "smem_obj m' = smem_obj m" "smem_addr m' = smem_addr m" "heap_ptr m' = heap_ptr m"
    "heap_end m' = heap_end m" "mem_size_aligned m' = mem_size_aligned m"
    "pool_ptr (hdr m' e) = pool_ptr (hdr m e)" "mem_next (hdr m' e) = mem_next (hdr m e)"
  shows "heap_frame m' e"
  using assms by (simp add: heap_frame_def MEM_USED_def)

definition same_heap :: "rt_small_mem \<Rightarrow> rt_small_mem \<Rightarrow> bool" where
  "same_heap m m' \<longleftrightarrow> smem_obj m' = smem_obj m \<and> smem_addr m' = smem_addr m \<and> heap_ptr m' = heap_ptr m \<and>
     heap_end m' = heap_end m \<and> mem_size_aligned m' = mem_size_aligned m"

lemma heap_frame_same:
  "heap_frame m e \<Longrightarrow> same_heap m m' \<Longrightarrow> pool_ptr (hdr m' e) = pool_ptr (hdr m e) \<Longrightarrow>
   mem_next (hdr m' e) = mem_next (hdr m e) \<Longrightarrow> heap_frame m' e"
  by (rule heap_frame_cong) (auto simp: same_heap_def)

lemma split_tiled:
  assumes "tiled m (xs @ (n, u) # ys)" "0 < sz" "4 dvd sz" "sz + 24 < n"
  shows "\<exists>m'. smem_split (of_nat (extent xs)) (of_nat sz) m = m' \<and>
    tiled m' (xs @ (sz + 12, u) # (n - sz - 12, False) # ys) \<and> lfree m' = lfree m \<and>
    mem_used m' = mem_used m \<and> mem_max m' = mem_max m \<and> heap_bytes m' = heap_bytes m \<and> same_heap m m'"
proof -
  let ?k = "extent xs" and ?k2 = "extent xs + (sz + 12)" and ?kn = "extent xs + n"
  let ?e = "extent (xs @ (n, u) # ys)"
  have fr: "heap_frame m ?e" and ti: "tiles m 0 0 xs" "tiles m (last_pos 0 0 xs) ?k ((n, u) # ys)"
    using assms(1) by (auto simp: tiled_def)
  have b: "?e + 12 < 2 ^ 32" using heap_frame_small [OF fr] .
  have lt: "?k < 2 ^ 32" "?k2 < 2 ^ 32" "?kn < 2 ^ 32" "?k < ?k2" "?k2 < ?kn" "?kn \<le> ?e" using b assms(4) by auto
  have h: "hdr m ?k = \<lparr>pool_ptr = tag m u, mem_next = of_nat ?kn, mem_prev = of_nat (last_pos 0 0 xs)\<rparr>"
    using ti(2) by simp
  define m1 where "m1 = upd_item (of_nat ?k2) (\<lambda>_. \<lparr>pool_ptr = MEM_FREED m, mem_next = of_nat ?kn, mem_prev = of_nat ?k\<rparr>) m"
  define m2 where "m2 = upd_item (of_nat ?k) (mem_next_update (\<lambda>_. of_nat ?k2)) m1"
  define m' where "m' = (if ?kn \<noteq> ?e then upd_item (of_nat ?kn) (mem_prev_update (\<lambda>_. of_nat ?k2)) m2 else m2)"
  note defs = m1_def m2_def m'_def
  have w2: "of_nat ?k + 12 + of_nat sz = (of_nat ?k2 :: u32)" by simp
  have e: "mem_size_aligned m + 12 = of_nat ?e"
  proof -
    have "mem_size_aligned m = of_nat (?e - 12)" "12 < ?e" using fr by (simp_all only: heap_frame_def)
    then show ?thesis by (metis le_add_diff_inverse2 less_imp_le of_nat_add of_nat_numeral)
  qed
  have n2: "mem_next (items m2 (of_nat ?k2)) = of_nat ?kn"
    using lt hdr_upd [of ?k ?k2 _ m1] hdr_upd [of ?k2 ?k2 _ m] unfolding defs by (simp add: hdr_def del: of_nat_add)
  have split: "smem_split (of_nat ?k) (of_nat sz) m = m'"
  proof -
    have "mem_next (items m (of_nat ?k)) = of_nat ?kn" using h by (simp add: hdr_def)
    then have "smem_split (of_nat ?k) (of_nat sz) m =
        (if mem_next (items m2 (of_nat ?k2)) \<noteq> mem_size_aligned m2 + 12
         then upd_item (mem_next (items m2 (of_nat ?k2))) (mem_prev_update (\<lambda>_. of_nat ?k2)) m2 else m2)"
      unfolding smem_split_def Let_def smem_sizes w2 m1_def m2_def by (simp only:)
    moreover have "mem_size_aligned m2 = mem_size_aligned m" by (simp add: defs)
    moreover have "(of_nat ?kn :: u32) = of_nat ?e \<longleftrightarrow> ?kn = ?e" using lt b by (subst word_pos_eq) auto
    ultimately show ?thesis unfolding n2 e by (simp only: e m'_def not_False_eq_True)
  qed
  have hd: "hdr m' i = (if i = ?k then (hdr m ?k)\<lparr>mem_next := of_nat ?k2\<rparr>
      else if i = ?k2 then \<lparr>pool_ptr = MEM_FREED m, mem_next = of_nat ?kn, mem_prev = of_nat ?k\<rparr>
      else if i = ?kn \<and> ?kn \<noteq> ?e then (hdr m i)\<lparr>mem_prev := of_nat ?k2\<rparr> else hdr m i)" if "i < 2 ^ 32" for i
    using lt that by (simp add: defs hdr_upd del: of_nat_add)
  have same: "same_heap m m'" by (simp add: defs same_heap_def)
  have addr: "smem_addr m' = smem_addr m" using same by (simp add: same_heap_def)
  have "heap_frame m' ?e"
    by (rule heap_frame_same [OF fr same]) (use hd [of ?e] lt b in auto)
  moreover have "tiles m' 0 0 xs"
    using ti(1) tiles_cong [of 0 xs m' m 0] hd addr lt by simp
  moreover have "tiles m' (last_pos 0 0 xs) ?k ((sz + 12, u) # (n - sz - 12, False) # ys)"
  proof -
    have "tag m' u = tag m u" "tag m' False = MEM_FREED m" using addr by (simp_all add: tag_def MEM_USED_def MEM_FREED_def)
    moreover have "tiles m' ?k2 ?kn ys"
    proof (rule tiles_prev [of m ?k])
      show "tiles m ?k ?kn ys" using ti(2) by simp
      show "ys \<noteq> [] \<Longrightarrow> hdr m' ?kn = (hdr m ?kn)\<lparr>mem_prev := of_nat ?k2\<rparr>"
        using hd [of ?kn] lt extent_0 [of m ?k ?kn ys] ti(2) by auto
      show "?kn < i \<Longrightarrow> i < ?kn + extent ys \<Longrightarrow> hdr m' i = hdr m i" for i using hd [of i] lt b by simp
    qed (rule addr)
    moreover have "4 dvd n" using ti(2) by simp
    moreover have "?k2 + (n - sz - 12) = ?kn" using assms(4) by simp
    ultimately show ?thesis
      using hd [of ?k] hd [of ?k2] lt h assms(2-4) by (simp del: of_nat_add)
  qed
  moreover have "extent (xs @ (sz + 12, u) # (n - sz - 12, False) # ys) = ?e" using assms(4) by simp
  ultimately have "tiled m' (xs @ (sz + 12, u) # (n - sz - 12, False) # ys)"
    unfolding tiled_def by simp
  then show ?thesis
    using split same by (intro exI [of _ m']) (simp add: defs upd_item_def)
qed

subsection \<open>Allocation\<close>

text \<open>First fit on layouts: the block at position \<open>j\<close> is taken, and cut if enough is left over.\<close>

definition cut :: "nat \<Rightarrow> nat \<Rightarrow> layout" where
  "cut sz n = (if sz + 36 \<le> n then [(sz + 12, True), (n - sz - 12, False)] else [(n, True)])"

fun fit_alloc :: "nat \<Rightarrow> nat \<Rightarrow> layout \<Rightarrow> (nat \<times> layout) option" where
  "fit_alloc k sz [] = None"
| "fit_alloc k sz ((n, u) # bs) =
     (if \<not> u \<and> sz + 12 \<le> n then Some (k, cut sz n @ bs)
      else map_option (apsnd ((#) (n, u))) (fit_alloc (k + n) sz bs))"

lemma fit_alloc_None: "fit_alloc k sz bs = None \<longleftrightarrow> first_fit k sz bs = None"
  by (induction k sz bs rule: first_fit.induct) auto

lemma fit_alloc_at:
  "first_fit k sz bs = Some j \<Longrightarrow> \<exists>xs n ys. bs = xs @ (n, False) # ys \<and> j = k + extent xs \<and> sz + 12 \<le> n \<and>
     fit_alloc k sz bs = Some (j, xs @ cut sz n @ ys)"
proof (induction k sz bs rule: first_fit.induct)
  case (2 k sz n u bs)
  show ?case
  proof (cases "\<not> u \<and> sz + 12 \<le> n")
    case True
    then show ?thesis using 2(2) by (intro exI [of _ "[]"] exI [of _ n] exI [of _ bs]) simp
  next
    case False
    then obtain xs n' ys where "bs = xs @ (n', False) # ys" "j = k + n + extent xs" "sz + 12 \<le> n'"
      "fit_alloc (k + n) sz bs = Some (j, xs @ cut sz n' @ ys)"
      using 2 by auto
    then show ?thesis using False by (intro exI [of _ "(n, u) # xs"] exI [of _ n'] exI [of _ ys]) auto
  qed
qed simp

lemma coalesced_append:
  "coalesced (xs @ ys) \<longleftrightarrow> coalesced xs \<and> coalesced ys \<and> (xs = [] \<or> ys = [] \<or> snd (last xs) \<or> snd (hd ys))"
proof (induction xs rule: coalesced.induct)
  fix x
  show "coalesced ([x] @ ys) \<longleftrightarrow> coalesced [x] \<and> coalesced ys \<and> ([x] = [] \<or> ys = [] \<or> snd (last [x]) \<or> snd (hd ys))"
    by (cases x; cases ys) auto
qed auto

lemma first_free_append:
  "first_free k (xs @ ys) = (if list_all snd xs then first_free (k + extent xs) ys else first_free k xs)"
  by (induction k xs rule: first_free.induct) (auto simp: add.assoc)

lemma first_free_inside:
  "\<not> list_all snd xs \<Longrightarrow> tiles m p k xs \<Longrightarrow> first_free k xs < k + extent xs"
proof (induction xs arbitrary: p k rule: extent.induct)
  case (2 n u bs)
  then show ?case by (cases u) fastforce+
qed simp

lemma tiles_dvd: "tiles m p k xs \<Longrightarrow> 4 dvd extent xs"
  by (induction xs arbitrary: p k rule: extent.induct) auto

text \<open>Changing one block between used and free.\<close>

lemma retag_tiled:
  assumes "tiled m (xs @ (n, u) # ys)"
  shows "tiled (upd_item (of_nat (extent xs)) (pool_ptr_update (\<lambda>_. tag m v)) m) (xs @ (n, v) # ys)"
proof -
  let ?k = "extent xs" and ?e = "extent (xs @ (n, u) # ys)"
  let ?m = "upd_item (of_nat ?k) (pool_ptr_update (\<lambda>_. tag m v)) m"
  have fr: "heap_frame m ?e" and ti: "tiles m 0 0 xs" "tiles m (last_pos 0 0 xs) ?k ((n, u) # ys)"
    using assms by (auto simp: tiled_def)
  have b: "?e + 12 < 2 ^ 32" using heap_frame_small [OF fr] .
  have hd: "hdr ?m i = (if i = ?k then (hdr m ?k)\<lparr>pool_ptr := tag m v\<rparr> else hdr m i)" if "i < 2 ^ 32" for i
    using that b by (simp add: hdr_upd)
  have "heap_frame ?m ?e"
    by (rule heap_frame_same [OF fr]) (use hd [of ?e] b ti(2) in \<open>auto simp: same_heap_def\<close>)
  moreover have "tiles ?m 0 0 xs" using ti(1) tiles_cong [of 0 xs ?m m 0] hd b by simp
  moreover have "tiles ?m (last_pos 0 0 xs) ?k ((n, v) # ys)"
    using ti(2) hd [of ?k] tiles_cong [of "?k + n" ys ?m m ?k] hd b by simp
  ultimately show ?thesis by (simp add: tiled_def)
qed

lemma tiled_cong:
  assumes "tiled m bs" "items m' = items m" "same_heap m m'"
  shows "tiled m' bs"
proof -
  have h: "hdr m' i = hdr m i" for i using assms(2) by (simp add: hdr_def)
  have "heap_frame m' (extent bs)"
    using heap_frame_same [of m "extent bs" m'] assms(1,3) h by (simp add: tiled_def)
  moreover have "tiles m' 0 0 bs"
    using tiles_cong [of 0 bs m' m 0] h assms(1,3) by (simp add: tiled_def same_heap_def)
  ultimately show ?thesis by (simp add: tiled_def)
qed

lemma and_3: "(x :: u32) AND 3 = 0 \<longleftrightarrow> unat x mod 4 = 0"
proof -
  have "x AND 3 = take_bit 2 x" by (simp add: take_bit_eq_mask mask_eq_exp_minus_1)
  then have "unat (x AND 3) = unat x mod 4" by (simp add: unat_mod take_bit_eq_mod)
  then show ?thesis by (metis unat_eq_zero)
qed

text \<open>The assertions about the block that is handed out.\<close>

lemma take_asserts:
  assumes "heap_frame m e" "k + 12 + sz \<le> e" "4 dvd k"
  shows "heap_ptr m + of_nat k + 12 + of_nat sz \<le> heap_ptr m + heap_end m"
    "(heap_ptr m + of_nat k + 12) mod 4 = 0" "(heap_ptr m + of_nat k) AND 3 = 0"
    "(heap_ptr m + (of_nat k + 12)) AND 3 = 0"
proof -
  define h where "h = unat (heap_ptr m)"
  then have h: "heap_ptr m = of_nat h" "h < 2 ^ 32" using unsigned_less [of "heap_ptr m"] by simp_all
  have f: "h mod 4 = 0" "h + e + 12 < 2 ^ 32" "heap_end m = of_nat e" using assms(1) h by (simp_all add: heap_frame_def)
  have w: "heap_ptr m + of_nat k + 12 + of_nat sz = of_nat (h + k + 12 + sz)"
    "heap_ptr m + of_nat k + 12 = of_nat (h + k + 12)" "heap_ptr m + of_nat k = of_nat (h + k)"
    "heap_ptr m + heap_end m = of_nat (h + e)" "heap_ptr m + (of_nat k + 12) = of_nat (h + k + 12)"
    using h f(3) by simp_all
  have d: "(h + k) mod 4 = 0" "(h + k + 12) mod 4 = 0" using f(1) assms(3) by presburger+
  show "heap_ptr m + of_nat k + 12 + of_nat sz \<le> heap_ptr m + heap_end m"
    unfolding w(1,4) using assms(2) f(2) by (subst word_pos_le) auto
  have u: "unat (of_nat (h + k + 12) :: u32) = h + k + 12" "unat (of_nat (h + k) :: u32) = h + k"
    using assms(2) f(2) by (intro word_pos; simp)+
  show "(heap_ptr m + of_nat k + 12) mod 4 = 0"
    unfolding w(2) word_unat_eq_iff using u(1) d(2) by (simp only: unat_mod) simp
  show "(heap_ptr m + of_nat k) AND 3 = 0" unfolding w(3) and_3 u(2) by (rule d(1))
  show "(heap_ptr m + (of_nat k + 12)) AND 3 = 0" unfolding w(5) and_3 u(1) by (rule d(2))
qed

lemma account_fields [simp]:
  "items (smem_account n m) = items m" "same_heap m' (smem_account n m) = same_heap m' m"
  "lfree (smem_account n m) = lfree m" "mem_used (smem_account n m) = mem_used m + n"
  "heap_bytes (smem_account n m) = heap_bytes m"
  by (simp_all add: smem_account_def Let_def same_heap_def)

lemma same_heap_refl [simp]: "same_heap m m"
  by (simp add: same_heap_def)

lemma account_tiled [simp]: "tiled m bs \<Longrightarrow> tiled (smem_account n m) bs"
  by (erule tiled_cong) simp_all

lemma same_heap_trans: "same_heap m m1 \<Longrightarrow> same_heap m1 m2 \<Longrightarrow> same_heap m m2"
  by (simp add: same_heap_def)

lemma extent_cut [simp]: "sz + 12 \<le> n \<Longrightarrow> extent (cut sz n) = n"
  by (simp add: cut_def)

text \<open>The space is divided and accounted for, the block is still marked free.\<close>

lemma divide_tiled:
  assumes "tiled m (xs @ (n, False) # ys)" "0 < sz" "4 dvd sz" "sz + 12 \<le> n"
  defines "k \<equiv> of_nat (extent xs)" and "w \<equiv> of_nat sz"
  shows "\<exists>m1. (if mem_next (items m k) - (k + SIZEOF_STRUCT_MEM) \<ge> w + SIZEOF_STRUCT_MEM + MIN_SIZE_ALIGNED
      then smem_account (w + SIZEOF_STRUCT_MEM) (smem_split k w m)
      else smem_account (mem_next (items m k) - k) m) = m1 \<and>
    (\<exists>c cs. cut sz n = (c, True) # cs \<and> tiled m1 (xs @ (c, False) # cs @ ys)) \<and> lfree m1 = lfree m \<and>
    mem_used m1 = mem_used m + of_nat (used_total (cut sz n)) \<and> heap_bytes m1 = heap_bytes m \<and> same_heap m m1"
proof -
  let ?k = "extent xs" and ?e = "extent (xs @ (n, False) # ys)"
  have fr: "heap_frame m ?e" and ti: "tiles m (last_pos 0 0 xs) ?k ((n, False) # ys)"
    using assms(1) by (auto simp: tiled_def)
  have b: "?e + 12 < 2 ^ 32" "12 < n" using heap_frame_small [OF fr] ti by auto
  have nx: "mem_next (items m k) = of_nat (?k + n)" using ti by (simp add: hdr_def k_def)
  have room: "mem_next (items m k) - (k + SIZEOF_STRUCT_MEM) \<ge> w + SIZEOF_STRUCT_MEM + MIN_SIZE_ALIGNED \<longleftrightarrow> sz + 36 \<le> n"
  proof -
    have "w + SIZEOF_STRUCT_MEM + MIN_SIZE_ALIGNED = of_nat (sz + 24)" by (simp add: w_def)
    moreover have "mem_next (items m k) - (k + SIZEOF_STRUCT_MEM) = of_nat (n - 12)"
      unfolding nx using block_room [OF b(2), of ?k] by (simp add: k_def)
    ultimately show ?thesis using b assms(4) by (simp only:) (subst word_pos_le; auto)
  qed
  show ?thesis
  proof (cases "sz + 36 \<le> n")
    case True
    then obtain m' where "smem_split k w m = m'" "tiled m' (xs @ (sz + 12, False) # (n - sz - 12, False) # ys)"
      "lfree m' = lfree m" "mem_used m' = mem_used m" "heap_bytes m' = heap_bytes m" "same_heap m m'"
      using split_tiled [OF assms(1-3)] unfolding k_def w_def by auto
    then show ?thesis using True room by (simp add: cut_def w_def)
  next
    case False
    have "mem_next (items m k) - k = of_nat n" unfolding nx unfolding k_def by simp
    then show ?thesis using False room assms(1) by (simp add: cut_def)
  qed
qed

lemma cut_first: "\<exists>c cs. cut sz n = (c, True) # cs \<and> list_all (\<lambda>b. \<not> snd b) cs \<and> coalesced (cut sz n) \<and> length cs \<le> 1"
  by (simp add: cut_def)

lemma take_spec:
  assumes "heap_rep m (xs @ (n, False) # ys)" "0 < sz" "4 dvd sz" "sz + 12 \<le> n"
  shows "\<exists>m'. smem_take (of_nat (extent xs)) (of_nat sz) m = Some m' \<and> heap_rep m' (xs @ cut sz n @ ys) \<and>
    heap_bytes m' = heap_bytes m \<and> same_heap m m'"
proof -
  let ?k = "extent xs" and ?e = "extent (xs @ (n, False) # ys)"
  have td: "tiled m (xs @ (n, False) # ys)" and co: "coalesced (xs @ (n, False) # ys)"
    and lf: "lfree m = of_nat (first_free 0 (xs @ (n, False) # ys))"
    and us: "mem_used m = of_nat (used_total (xs @ (n, False) # ys))"
    using assms(1) by (auto simp: heap_rep_def)
  have fr: "heap_frame m ?e" and ti: "tiles m 0 0 xs" using td by (auto simp: tiled_def)
  have b: "?e + 12 < 2 ^ 32" using heap_frame_small [OF fr] .
  obtain m1 c cs where m1: "(if mem_next (items m (of_nat ?k)) - (of_nat ?k + SIZEOF_STRUCT_MEM) \<ge> of_nat sz + SIZEOF_STRUCT_MEM + MIN_SIZE_ALIGNED
      then smem_account (of_nat sz + SIZEOF_STRUCT_MEM) (smem_split (of_nat ?k) (of_nat sz) m)
      else smem_account (mem_next (items m (of_nat ?k)) - of_nat ?k) m) = m1"
    "cut sz n = (c, True) # cs" "tiled m1 (xs @ (c, False) # cs @ ys)" "lfree m1 = lfree m"
    "mem_used m1 = mem_used m + of_nat (used_total (cut sz n))" "heap_bytes m1 = heap_bytes m" "same_heap m m1"
    using divide_tiled [OF td assms(2-4)] by blast
  let ?bs = "xs @ cut sz n @ ys"
  define m2 where "m2 = upd_item (of_nat ?k) (pool_ptr_update (\<lambda>_. MEM_USED m1)) m1"
  have m2: "tiled m2 ?bs" "lfree m2 = lfree m" "same_heap m m2" "heap_bytes m2 = heap_bytes m"
    "mem_used m2 = of_nat (used_total ?bs)"
    using retag_tiled [OF m1(3), of True] m1(2,4-7) us by (auto simp: m2_def tag_def same_heap_def)
  have fr2: "heap_frame m2 ?e" using m2(1) assms(4) by (simp add: tiled_def)
  have co2: "coalesced ?bs"
    using co cut_first [of sz n] by (auto simp: coalesced_append cut_def split: if_splits) (cases ys; auto)+
  have skip: "smem_skip_used m2 (of_nat ?k) = Some (of_nat (first_free ?k (cut sz n @ ys)))"
    using skip_used_spec [OF fr2, of "last_pos 0 0 xs" ?k "cut sz n @ ys"] m2(1) assms(4) by (simp add: tiled_def)
  have free: "of_nat ?k = lfree m2 \<longleftrightarrow> list_all snd xs"
  proof -
    have le: "first_free 0 (xs @ (n, False) # ys) < 2 ^ 32"
      using first_free_le(2) [of 0 "xs @ (n, False) # ys"] b by simp
    have "of_nat ?k = lfree m2 \<longleftrightarrow> ?k = first_free 0 (xs @ (n, False) # ys)"
      unfolding m2(2) lf using b le by (subst word_pos_eq) auto
    also have "\<dots> \<longleftrightarrow> list_all snd xs"
      using first_free_inside [OF _ ti] by (auto simp: first_free_append)
    finally show ?thesis .
  qed
  have asserts: "heap_ptr m' + of_nat ?k + SIZEOF_STRUCT_MEM + of_nat sz \<le> heap_ptr m' + heap_end m'"
    "(heap_ptr m' + of_nat ?k + SIZEOF_STRUCT_MEM) mod RT_ALIGN_SIZE = 0" "(heap_ptr m' + of_nat ?k) AND (RT_ALIGN_SIZE - 1) = 0"
    if "same_heap m m'" for m'
    using take_asserts [OF fr, of ?k sz] tiles_dvd [OF ti] assms(4) that by (simp_all add: same_heap_def RT_ALIGN_SIZE_def)
  show ?thesis
  proof (cases "list_all snd xs")
    case True
    let ?p = "first_free ?k (cut sz n @ ys)"
    have ff: "first_free 0 ?bs = ?p" using True by (simp add: first_free_append)
    have ok: "of_nat ?p = heap_end m2 \<or> \<not> MEM_ISUSED (items m2 (of_nat ?p))"
      using skip_used_ends [OF skip] .
    let ?m = "m2\<lparr>lfree := of_nat ?p\<rparr>"
    have same: "same_heap m ?m" using m2(3) by (simp add: same_heap_def)
    have "smem_take (of_nat ?k) (of_nat sz) m = Some ?m"
      unfolding smem_take_def m1(1) Let_def m2_def [symmetric]
      using free [THEN iffD2, OF True] skip ok asserts [OF same] by (simp del: smem_sizes isused_tag)
    moreover have "heap_rep ?m ?bs"
      using m2 co2 ff tiled_cong [OF m2(1), of ?m] by (simp add: heap_rep_def same_heap_def)
    ultimately show ?thesis using m2(4) same by auto
  next
    case False
    have "first_free 0 ?bs = first_free 0 (xs @ (n, False) # ys)" using False by (simp add: first_free_append)
    then have "heap_rep m2 ?bs" using m2 co2 lf by (simp add: heap_rep_def)
    moreover have "smem_take (of_nat ?k) (of_nat sz) m = Some m2"
      unfolding smem_take_def m1(1) Let_def m2_def [symmetric]
      using free False asserts [OF m2(3)] by (simp del: smem_sizes isused_tag)
    ultimately show ?thesis using m2(3,4) by auto
  qed
qed

text \<open>The request, rounded up to the alignment and to the smallest block.\<close>

definition aligned :: "u32 \<Rightarrow> nat" where
  "aligned sz = unat (RT_ALIGN sz RT_ALIGN_SIZE)"

definition rounded :: "u32 \<Rightarrow> nat" where
  "rounded sz = max 12 (aligned sz)"

lemma aligned_dvd [simp]: "4 dvd aligned sz"
  by (simp add: aligned_def RT_ALIGN_def RT_ALIGN_SIZE_def)

lemma aligned_exact: "unat sz + 3 < 2 ^ 32 \<Longrightarrow> aligned sz = 4 * ((unat sz + 3) div 4)"
  unfolding aligned_def by (rule unat_RT_ALIGN) simp_all

lemma aligned_small: "aligned sz < 2 ^ 32" "aligned sz + 3 < 2 ^ 32"
proof -
  show "aligned sz < 2 ^ 32" unfolding aligned_def using unsigned_less [of "RT_ALIGN sz RT_ALIGN_SIZE"] by simp
  moreover obtain q where "aligned sz = 4 * q" using aligned_dvd [of sz] by blast
  ultimately show "aligned sz + 3 < 2 ^ 32" by simp
qed

lemma aligned_again: "aligned (RT_ALIGN sz RT_ALIGN_SIZE) = aligned sz"
proof -
  have "unat (RT_ALIGN sz RT_ALIGN_SIZE) + 3 < 2 ^ 32" using aligned_small(2) [of sz] by (simp add: aligned_def)
  from aligned_exact [OF this] show ?thesis using aligned_dvd [of sz] unfolding aligned_def by presburger
qed

lemma max_if: "max (b :: nat) a = (if a < b then b else a)"
  by (simp add: max_def)

text \<open>Allocation always returns, and is first fit on the layout.\<close>

lemma alloc_spec:
  assumes "heap_rep m bs" "24 \<le> extent bs"
  shows "case (if sz = 0 then None else fit_alloc 0 (rounded sz) bs) of
      None \<Rightarrow> rt_smem_alloc sz m = Some (None, m)
    | Some (j, bs') \<Rightarrow> \<exists>m'. rt_smem_alloc sz m = Some (Some (of_nat (j + 12)), m') \<and> heap_rep m' bs' \<and>
        heap_bytes m' = heap_bytes m \<and> same_heap m m'"
proof (cases "sz = 0")
  case True
  then show ?thesis by (simp add: rt_smem_alloc_def)
next
  case False
  let ?e = "extent bs" and ?a = "aligned sz"
  have td: "tiled m bs" and lf: "lfree m = of_nat (first_free 0 bs)" using assms(1) by (auto simp: heap_rep_def)
  then have fr: "heap_frame m ?e" and ti: "tiles m 0 0 bs" by (auto simp: tiled_def)
  have b: "?e + 12 < 2 ^ 32" using heap_frame_small [OF fr] .
  have al: "unat (RT_ALIGN sz RT_ALIGN_SIZE) = ?a" by (simp add: aligned_def)
  have msa: "unat (mem_size_aligned m) = ?e - 12"
  proof -
    have "mem_size_aligned m = of_nat (?e - 12)" using fr by (simp only: heap_frame_def)
    then show ?thesis using b by (simp only: word_pos)
  qed
  have obj: "smem_obj m = ObjStatic" using fr by (simp add: heap_frame_def)
  have too_big: "RT_ALIGN sz RT_ALIGN_SIZE > mem_size_aligned m \<longleftrightarrow> ?e - 12 < ?a"
    by (simp only: word_less_nat_alt al msa)
  show ?thesis
  proof (cases "?e - 12 < ?a")
    case True
    have "first_fit 0 (rounded sz) bs = None"
      using first_fit_bound [of 0 "rounded sz" bs] True assms(2) by (cases "first_fit 0 (rounded sz) bs") (auto simp: rounded_def)
    then have "fit_alloc 0 (rounded sz) bs = None" using fit_alloc_None by blast
    then show ?thesis
      using True too_big False obj by (simp add: rt_smem_alloc_def Let_def)
  next
    case small: False
    let ?w = "if RT_ALIGN sz RT_ALIGN_SIZE < MIN_SIZE_ALIGNED then MIN_SIZE_ALIGNED else RT_ALIGN sz RT_ALIGN_SIZE"
    have le: "rounded sz \<le> ?e - 12" using small assms(2) by (simp add: rounded_def)
    have w: "?w = of_nat (rounded sz)"
    proof -
      have twelve: "unat (MIN_SIZE_ALIGNED :: u32) = 12" by simp
      have "RT_ALIGN sz RT_ALIGN_SIZE < MIN_SIZE_ALIGNED \<longleftrightarrow> ?a < 12"
        unfolding word_less_nat_alt al twelve ..
      then have "unat ?w = rounded sz" unfolding rounded_def max_if using al twelve by (cases "?a < 12") (simp_all only: if_True if_False)
      moreover have "unat (of_nat (rounded sz) :: u32) = rounded sz" using le b by (intro word_pos) simp
      ultimately show ?thesis unfolding word_unat_eq_iff by (simp only:)
    qed
    obtain us rest where sk: "bs = us @ rest" "first_free 0 bs = extent us"
      "first_fit 0 (rounded sz) bs = first_fit (extent us) (rounded sz) rest"
      using first_fit_skip [of bs 0 "rounded sz"] by auto
    have "tiles m (last_pos 0 0 us) (extent us) rest" using ti sk(1) by simp
    moreover have "extent us + extent rest = ?e" using sk(1) by simp
    ultimately have scan: "smem_scan m ?w (lfree m) = Some (map_option of_nat (first_fit 0 (rounded sz) bs))"
      using scan_spec [OF fr _ _ le] sk(2,3) unfolding w lf by simp
    show ?thesis
    proof (cases "first_fit 0 (rounded sz) bs")
      case None
      then have "fit_alloc 0 (rounded sz) bs = None" using fit_alloc_None by blast
      then show ?thesis
        using scan small too_big False obj None by (simp add: rt_smem_alloc_def Let_def del: smem_sizes)
    next
      case (Some j)
      from fit_alloc_at [OF this] obtain xs n ys where at: "bs = xs @ (n, False) # ys" "j = extent xs"
        "rounded sz + 12 \<le> n" "fit_alloc 0 (rounded sz) bs = Some (j, xs @ cut (rounded sz) n @ ys)" by auto
      have "0 < rounded sz" "4 dvd rounded sz" using aligned_dvd [of sz] by (simp_all add: rounded_def max_def)
      from take_spec [OF assms(1) [unfolded at(1)] this at(3)] obtain m' where
        "smem_take (of_nat j) (of_nat (rounded sz)) m = Some m'" "heap_rep m' (xs @ cut (rounded sz) n @ ys)"
        "heap_bytes m' = heap_bytes m" "same_heap m m'" unfolding at(2) by blast
      then show ?thesis
        using scan small too_big False obj at(4) Some unfolding w [symmetric]
        by (simp add: rt_smem_alloc_def Let_def add.commute del: smem_sizes(2,3))
    qed
  qed
qed

subsection \<open>Release\<close>

text \<open>Two neighbours become one block.\<close>

definition join :: "nat \<Rightarrow> nat \<Rightarrow> rt_small_mem \<Rightarrow> rt_small_mem" where
  "join p q m =
     (let m = upd_item (of_nat q) (pool_ptr_update (\<lambda>_. 0)) m;
          m = upd_item (of_nat p) (mem_next_update (\<lambda>_. mem_next (items m (of_nat q)))) m
      in upd_item (mem_next (items m (of_nat q))) (mem_prev_update (\<lambda>_. of_nat p)) m)"

lemma join_fields [simp]:
  "same_heap m' (join p q m) = same_heap m' m" "lfree (join p q m) = lfree m" "mem_used (join p q m) = mem_used m"
  "heap_bytes (join p q m) = heap_bytes m"
  by (simp_all add: join_def Let_def same_heap_def)

lemma join_tiled:
  assumes "tiled m (xs @ (a, u) # (c, v) # ys)"
  shows "tiled (join (extent xs) (extent xs + a) m) (xs @ (a + c, u) # ys)"
proof -
  let ?p = "extent xs" and ?q = "extent xs + a" and ?n = "extent xs + a + c" and ?e = "extent (xs @ (a, u) # (c, v) # ys)"
  let ?m = "join ?p ?q m"
  have fr: "heap_frame m ?e" and ti: "tiles m 0 0 xs" "tiles m (last_pos 0 0 xs) ?p ((a, u) # (c, v) # ys)"
    using assms by (auto simp: tiled_def)
  have b: "?e + 12 < 2 ^ 32" using heap_frame_small [OF fr] .
  have lt: "?p < 2 ^ 32" "?q < 2 ^ 32" "?n < 2 ^ 32" "?p < ?q" "?q < ?n" "?n \<le> ?e" using b ti(2) by auto
  have h: "hdr m ?p = \<lparr>pool_ptr = tag m u, mem_next = of_nat ?q, mem_prev = of_nat (last_pos 0 0 xs)\<rparr>"
    "hdr m ?q = \<lparr>pool_ptr = tag m v, mem_next = of_nat ?n, mem_prev = of_nat ?p\<rparr>"
    using ti(2) by (simp_all add: add.assoc)
  define m1 where "m1 = upd_item (of_nat ?q) (pool_ptr_update (\<lambda>_. 0)) m"
  define m2 where "m2 = upd_item (of_nat ?p) (mem_next_update (\<lambda>_. of_nat ?n)) m1"
  have n1: "mem_next (items m1 (of_nat ?q)) = of_nat ?n"
    using hdr_upd [of ?q ?q _ m] lt h(2) unfolding m1_def by (simp add: hdr_def del: of_nat_add)
  have n2: "mem_next (items m2 (of_nat ?q)) = of_nat ?n"
    using hdr_upd [of ?p ?q _ m1] lt n1 unfolding m2_def by (simp add: hdr_def del: of_nat_add)
  have j: "?m = upd_item (of_nat ?n) (mem_prev_update (\<lambda>_. of_nat ?p)) m2"
    unfolding join_def Let_def m1_def [symmetric] n1 m2_def [symmetric] n2 ..
  have hd: "hdr ?m i = (if i = ?n then (hdr m i)\<lparr>mem_prev := of_nat ?p\<rparr>
      else if i = ?p then (hdr m ?p)\<lparr>mem_next := of_nat ?n\<rparr>
      else if i = ?q then (hdr m ?q)\<lparr>pool_ptr := 0\<rparr> else hdr m i)" if "i < 2 ^ 32" for i
    using lt that unfolding j m2_def m1_def by (simp add: hdr_upd del: of_nat_add)
  have same: "same_heap m ?m" by simp
  have addr: "smem_addr ?m = smem_addr m" using same by (simp add: same_heap_def)
  have "heap_frame ?m ?e"
    by (rule heap_frame_same [OF fr same]) (use hd [of ?e] lt b in auto)
  moreover have "tiles ?m 0 0 xs"
    using ti(1) tiles_cong [of 0 xs ?m m 0] hd addr lt by simp
  moreover have "tiles ?m ?p ?n ys"
  proof (rule tiles_prev [of m ?q])
    show "tiles m ?q ?n ys" using ti(2) by (simp add: add.assoc)
    show "ys \<noteq> [] \<Longrightarrow> hdr ?m ?n = (hdr m ?n)\<lparr>mem_prev := of_nat ?p\<rparr>" using hd [of ?n] lt by simp
    show "?n < i \<Longrightarrow> i < ?n + extent ys \<Longrightarrow> hdr ?m i = hdr m i" for i using hd [of i] lt b by simp
  qed (rule addr)
  moreover have "tag ?m u = tag m u" using addr by (simp add: tag_def MEM_USED_def MEM_FREED_def)
  ultimately show ?thesis
    using ti(2) hd [of ?p] lt h(1) by (simp add: tiled_def add.assoc del: of_nat_add)
qed

text \<open>Joining a free block with its free neighbours, on layouts.\<close>

definition absorb :: "nat \<Rightarrow> layout \<Rightarrow> layout" where
  "absorb n ys = (case ys of (c, False) # zs \<Rightarrow> (n + c, False) # zs | _ \<Rightarrow> (n, False) # ys)"

lemma absorb_block: "\<exists>c zs. absorb n ys = (c, False) # zs"
proof (cases ys)
  case (Cons y zs)
  then show ?thesis by (cases y; cases "snd y") (auto simp: absorb_def)
qed (simp add: absorb_def)

definition release :: "layout \<Rightarrow> nat \<Rightarrow> layout \<Rightarrow> layout" where
  "release xs n ys =
     (case absorb n ys of
        (c, _) # zs \<Rightarrow> (if xs \<noteq> [] \<and> \<not> snd (last xs) then butlast xs @ (fst (last xs) + c, False) # zs
          else xs @ (c, False) # zs))"

definition free_rep :: "rt_small_mem \<Rightarrow> layout \<Rightarrow> bool" where
  "free_rep m bs \<longleftrightarrow> tiled m bs \<and> lfree m = of_nat (first_free 0 bs)"

lemma plug_forward_spec:
  assumes "free_rep m (xs @ (n, False) # ys)"
  shows "free_rep (plug_forward (of_nat (extent xs)) m) (xs @ absorb n ys)"
    "same_heap m (plug_forward (of_nat (extent xs)) m)" "mem_used (plug_forward (of_nat (extent xs)) m) = mem_used m"
    "heap_bytes (plug_forward (of_nat (extent xs)) m) = heap_bytes m"
proof -
  let ?k = "extent xs" and ?q = "extent xs + n" and ?e = "extent (xs @ (n, False) # ys)"
  let ?m = "plug_forward (of_nat ?k) m"
  have td: "tiled m (xs @ (n, False) # ys)" and lf: "lfree m = of_nat (first_free 0 (xs @ (n, False) # ys))"
    using assms by (auto simp: free_rep_def)
  have fr: "heap_frame m ?e" and ti: "tiles m (last_pos 0 0 xs) ?k ((n, False) # ys)" "tiles m 0 0 xs"
    using td by (auto simp: tiled_def)
  have b: "?e + 12 < 2 ^ 32" using heap_frame_small [OF fr] .
  have lt: "?k < 2 ^ 32" "?q < 2 ^ 32" "?k < ?q" "?q \<le> ?e" using b ti by auto
  have ff: "first_free 0 (xs @ (n, False) # ys) \<le> ?k"
    using first_free_inside [OF _ ti(2)] by (auto simp: first_free_append less_imp_le)
  have ne: "lfree m \<noteq> of_nat ?q" unfolding lf using ff lt by (subst word_pos_eq) auto
  have nx: "mem_next (items m (of_nat ?k)) = of_nat ?q" using ti by (simp add: hdr_def)
  have kq: "(of_nat ?k :: u32) \<noteq> of_nat ?q" using lt by (subst word_pos_eq) auto
  have end_eq: "of_nat ?q = heap_end m \<longleftrightarrow> ys = []"
  proof -
    have "heap_end m = of_nat ?e" using fr by (simp only: heap_frame_def)
    then have "of_nat ?q = heap_end m \<longleftrightarrow> ?q = ?e" using lt b by (simp only:) (subst word_pos_eq; auto)
    then show ?thesis using extent_0 [of m ?k ?q ys] ti by auto
  qed
  have "free_rep ?m (xs @ absorb n ys) \<and> same_heap m ?m \<and> mem_used ?m = mem_used m \<and> heap_bytes ?m = heap_bytes m"
  proof (cases "\<exists>c zs. ys = (c, False) # zs")
    case True
    then obtain c zs where ys: "ys = (c, False) # zs" by blast
    have "\<not> MEM_ISUSED (items m (of_nat ?q))" using ti ys by (simp add: hdr_def)
    then have "?m = join ?k ?q m"
      using nx kq ne end_eq ys by (simp add: plug_forward_def join_def Let_def del: isused_tag of_nat_add)
    moreover have "tiled (join ?k ?q m) (xs @ (n + c, False) # zs)"
      using join_tiled td unfolding ys by blast
    moreover have "first_free 0 (xs @ (n + c, False) # zs) = first_free 0 (xs @ (n, False) # ys)"
      by (simp add: first_free_append)
    ultimately show ?thesis
      using lf by (simp add: free_rep_def absorb_def ys)
  next
    case False
    then have "absorb n ys = (n, False) # ys" by (auto simp: absorb_def split: list.splits bool.splits)
    moreover have "MEM_ISUSED (items m (of_nat ?q)) \<or> of_nat ?q = heap_end m"
      using end_eq False ti by (cases ys) (auto simp: hdr_def)
    then have "?m = m" using nx by (auto simp: plug_forward_def simp del: isused_tag of_nat_add)
    ultimately show ?thesis
      using assms by simp
  qed
  then show "free_rep ?m (xs @ absorb n ys)" "same_heap m ?m" "mem_used ?m = mem_used m" "heap_bytes ?m = heap_bytes m"
    by simp_all
qed

lemma plug_backward_spec:
  assumes "free_rep m (xs @ (n, False) # ys)"
  defines "m' \<equiv> plug_backward (of_nat (extent xs)) m"
  shows "free_rep m' (if xs \<noteq> [] \<and> \<not> snd (last xs) then butlast xs @ (fst (last xs) + n, False) # ys else xs @ (n, False) # ys)
    \<and> same_heap m m' \<and> mem_used m' = mem_used m \<and> heap_bytes m' = heap_bytes m"
proof (cases xs rule: rev_cases)
  case Nil
  have "mem_prev (items m (of_nat 0)) = of_nat 0" using assms(1) Nil by (simp add: free_rep_def tiled_def hdr_def)
  then have "m' = m" using Nil by (simp add: m'_def plug_backward_def)
  then show ?thesis using assms(1) Nil by simp
next
  case (snoc ws w)
  obtain c v where w: "w = (c, v)" by fastforce
  let ?p = "extent ws" and ?k = "extent ws + c" and ?e = "extent (xs @ (n, False) # ys)"
  have td: "tiled m (xs @ (n, False) # ys)" and lf: "lfree m = of_nat (first_free 0 (xs @ (n, False) # ys))"
    using assms by (auto simp: free_rep_def)
  have fr: "heap_frame m ?e" and ti: "tiles m 0 0 ws" "tiles m (last_pos 0 0 ws) ?p ((c, v) # (n, False) # ys)"
    using td snoc w by (auto simp: tiled_def)
  have b: "?e + 12 < 2 ^ 32" using heap_frame_small [OF fr] .
  have lt: "?p < 2 ^ 32" "?k < 2 ^ 32" "?p < ?k" "?k \<le> ?e" using b ti snoc w by auto
  have k: "extent xs = ?k" using snoc w by simp
  have pv: "mem_prev (items m (of_nat ?k)) = of_nat ?p" "MEM_ISUSED (items m (of_nat ?p)) \<longleftrightarrow> v"
    using ti(2) by (auto simp: hdr_def)
  have pk: "(of_nat ?p :: u32) \<noteq> of_nat ?k" using lt by (subst word_pos_eq) auto
  show ?thesis
  proof (cases v)
    case True
    then have "m' = m" using pv by (auto simp: m'_def k plug_backward_def simp del: isused_tag of_nat_add)
    then show ?thesis using assms(1) True snoc w by simp
  next
    case False
    have "first_free 0 (xs @ (n, False) # ys) \<le> ?p"
      using first_free_inside [OF _ ti(1)] False snoc w by (auto simp: first_free_append less_imp_le)
    then have ne: "lfree m \<noteq> of_nat ?k" unfolding lf using lt by (subst word_pos_eq) auto
    have "m' = join ?p ?k m"
      using pv pk ne False by (simp add: m'_def k plug_backward_def join_def Let_def del: isused_tag of_nat_add)
    moreover have "tiled (join ?p ?k m) (ws @ (c + n, False) # ys)"
      using join_tiled [of m ws c False n False ys] td snoc w False by simp
    moreover have "first_free 0 (ws @ (c + n, False) # ys) = first_free 0 (xs @ (n, False) # ys)"
      using False snoc w by (simp add: first_free_append)
    ultimately show ?thesis using lf False snoc w by (simp add: free_rep_def)
  qed
qed

lemma plug_holes_spec:
  assumes "free_rep m (xs @ (n, False) # ys)"
  shows "\<exists>m'. plug_holes (of_nat (extent xs)) m = Some m' \<and> free_rep m' (release xs n ys) \<and> same_heap m m' \<and>
    mem_used m' = mem_used m \<and> heap_bytes m' = heap_bytes m"
proof -
  let ?k = "extent xs" and ?e = "extent (xs @ (n, False) # ys)"
  have fr: "heap_frame m ?e" and n: "12 < n" using assms by (auto simp: free_rep_def tiled_def)
  have "(of_nat ?k :: u32) < heap_end m"
  proof -
    have "heap_end m = of_nat ?e" using fr by (simp only: heap_frame_def)
    then show ?thesis using heap_frame_small [OF fr] n by (simp only:) (subst word_pos_le; simp)
  qed
  moreover obtain c zs where a: "absorb n ys = (c, False) # zs"
    using absorb_block by blast
  note f = plug_forward_spec [OF assms, unfolded a]
  note b = plug_backward_spec [OF f(1)]
  ultimately show ?thesis
    using b f(2-4) same_heap_trans [of m "plug_forward (of_nat ?k) m"]
    by (simp add: plug_holes_def release_def a)
qed

lemma absorb_cases:
  obtains (join) c zs where "ys = (c, False) # zs" "absorb n ys = (n + c, False) # zs"
  | (keep) "absorb n ys = (n, False) # ys" "ys = [] \<or> snd (hd ys)"
proof (cases ys)
  case Nil
  then show ?thesis using keep by (simp add: absorb_def)
next
  case (Cons y zs)
  then show ?thesis using join keep by (cases y; cases "snd y") (auto simp: absorb_def)
qed

lemma coalesced_single [simp]: "coalesced [b]" "coalesced ((n, u) # ys) \<longleftrightarrow> coalesced ys \<and> (u \<or> ys = [] \<or> snd (hd ys))"
  by (cases b; simp) (cases ys; auto)

lemma coalesced_release:
  assumes "coalesced xs" "coalesced ys"
  shows "coalesced (release xs n ys)"
proof -
  have tl: "coalesced zs \<and> (zs = [] \<or> snd (hd zs))" if "absorb n ys = (c, False) # zs" for c zs
    by (rule absorb_cases [of ys n]) (use that assms(2) in auto)
  obtain c zs where a: "absorb n ys = (c, False) # zs" using absorb_block by blast
  show ?thesis
  proof (cases xs rule: rev_cases)
    case Nil
    then show ?thesis using a tl [OF a] by (simp add: release_def)
  next
    case (snoc ws w)
    then show ?thesis
      using a tl [OF a] assms(1) by (cases w) (auto simp: release_def coalesced_append)
  qed
qed

lemma used_total_release [simp]: "used_total (release xs n ys) = used_total xs + used_total ys"
proof -
  obtain c zs where a: "absorb n ys = (c, False) # zs" using absorb_block by blast
  have u: "used_total zs = used_total ys"
    by (rule absorb_cases [of ys n]) (use a in auto)
  show ?thesis
  proof (cases xs rule: rev_cases)
    case (snoc ws w)
    then show ?thesis using a u by (cases w) (auto simp: release_def)
  qed (use a u in \<open>simp add: release_def\<close>)
qed

lemma extent_release [simp]: "extent (release xs n ys) = extent xs + n + extent ys"
proof -
  obtain c zs where a: "absorb n ys = (c, False) # zs" using absorb_block by blast
  have u: "c + extent zs = n + extent ys"
    by (rule absorb_cases [of ys n]) (use a in auto)
  show ?thesis
  proof (cases xs rule: rev_cases)
    case (snoc ws w)
    then show ?thesis using a u by (cases w) (auto simp: release_def)
  qed (use a u in \<open>simp add: release_def\<close>)
qed

text \<open>Releasing a block in use always returns.\<close>

lemma free_spec:
  assumes "heap_rep m (xs @ (n, True) # ys)"
  shows "\<exists>m'. rt_smem_free (Some (of_nat (extent xs + 12))) m = Some m' \<and> heap_rep m' (release xs n ys) \<and>
    heap_bytes m' = heap_bytes m \<and> same_heap m m'"
proof -
  let ?k = "extent xs" and ?bs = "xs @ (n, True) # ys" and ?e = "extent (xs @ (n, True) # ys)"
  have td: "tiled m ?bs" and co: "coalesced ?bs" and lf: "lfree m = of_nat (first_free 0 ?bs)"
    and us: "mem_used m = of_nat (used_total ?bs)"
    using assms by (auto simp: heap_rep_def)
  have fr: "heap_frame m ?e" and ti: "tiles m 0 0 xs" "tiles m (last_pos 0 0 xs) ?k ((n, True) # ys)"
    using td by (auto simp: tiled_def)
  have b: "?e + 12 < 2 ^ 32" "12 < n" using heap_frame_small [OF fr] ti by auto
  have addr: "smem_addr m AND MEM_MASK = smem_addr m" "smem_obj m = ObjStatic" "heap_end m = of_nat ?e"
    using fr by (auto simp: heap_frame_def)
  have mem: "(of_nat (?k + 12) :: u32) - SIZEOF_STRUCT_MEM = of_nat ?k" by simp
  have h: "pool_ptr (items m (of_nat ?k)) = MEM_USED m" "mem_next (items m (of_nat ?k)) = of_nat (?k + n)"
    using ti(2) by (simp_all add: hdr_def tag_def)
  have nxt: "pool_ptr (items m (of_nat (?k + n))) AND MEM_MASK = smem_addr m"
  proof (cases ys)
    case Nil
    then show ?thesis using fr tag_pool [OF addr(1)] by (simp add: heap_frame_def hdr_def)
  next
    case (Cons y zs)
    then show ?thesis using ti(2) tag_pool [OF addr(1)] by (cases y) (simp add: hdr_def tag_def)
  qed
  have al: "(heap_ptr m + of_nat (?k + 12)) AND (RT_ALIGN_SIZE - 1) = 0"
    using take_asserts(4) [OF fr, of ?k 0] tiles_dvd [OF ti(1)] b(2) by (simp add: RT_ALIGN_SIZE_def add.commute)
  have lt: "(of_nat (?k + 12) :: u32) < heap_end m"
    unfolding addr(3) using b by (subst word_pos_le) auto
  define m1 where "m1 = upd_item (of_nat ?k) (pool_ptr_update (\<lambda>_. MEM_FREED m)) m"
  define m2 where "m2 = (if of_nat ?k < lfree m1 then m1\<lparr>lfree := of_nat ?k\<rparr> else m1)"
  define m3 where "m3 = m2\<lparr>mem_used := mem_used m2 - (mem_next (items m2 (of_nat ?k)) - of_nat ?k)\<rparr>"
  have t1: "tiled m1 (xs @ (n, False) # ys)" using retag_tiled [OF td, of False] by (simp add: m1_def tag_def)
  have s3: "same_heap m1 m3" "same_heap m m3" "items m3 = items m1" "heap_bytes m3 = heap_bytes m"
    by (simp_all add: m3_def m2_def m1_def same_heap_def upd_item_def)
  have lf3: "lfree m3 = of_nat (first_free 0 (xs @ (n, False) # ys))"
  proof (cases "list_all snd xs")
    case True
    have "?k < first_free 0 ?bs" "first_free 0 ?bs \<le> ?e"
      using True first_free_le(1) [of "?k + n" ys] first_free_le(2) [of 0 ?bs] b(2) by (auto simp: first_free_append)
    then have "of_nat ?k < lfree m" unfolding lf using b by (subst word_pos_le) auto
    then show ?thesis using True by (simp add: m3_def m2_def m1_def first_free_append)
  next
    case False
    have "first_free 0 ?bs < ?k" using False first_free_inside [OF False ti(1)] by (simp add: first_free_append)
    then have "\<not> of_nat ?k < lfree m" unfolding lf using b by (subst word_pos_le) auto
    then show ?thesis using False lf by (simp add: m3_def m2_def m1_def first_free_append)
  qed
  have "free_rep m3 (xs @ (n, False) # ys)"
    using tiled_cong [OF t1 s3(3,1)] lf3 by (simp add: free_rep_def)
  from plug_holes_spec [OF this] obtain m' where m': "plug_holes (of_nat ?k) m3 = Some m'"
    "free_rep m' (release xs n ys)" "same_heap m3 m'" "mem_used m' = mem_used m3" "heap_bytes m' = heap_bytes m3" by blast
  have "mem_next (items m2 (of_nat ?k)) = of_nat (?k + n)"
    using h(2) by (simp add: m2_def m1_def upd_item_def)
  then have "mem_used m3 = of_nat (used_total xs + used_total ys)"
    using us by (simp add: m3_def m2_def m1_def)
  then have "heap_rep m' (release xs n ys)"
    using m' coalesced_release co by (simp add: heap_rep_def free_rep_def coalesced_append)
  moreover have "rt_smem_free (Some (of_nat (?k + 12))) m = Some m'"
  proof -
    have "MEM_POOL (items m (of_nat ?k)) = smem_addr m" "MEM_ISUSED (items m (of_nat ?k))"
      "MEM_POOL (items m (of_nat (?k + n))) = smem_addr m"
      using h(1) nxt tag_pool [OF addr(1)] by (simp_all add: MEM_POOL_def)
    then show ?thesis
      unfolding rt_smem_free_def option.case mem Let_def m1_def [symmetric] m2_def [symmetric] m3_def [symmetric] h(2)
      using al addr(2) lt m'(1) by (simp del: isused_tag of_nat_add smem_sizes)
  qed
  ultimately show ?thesis using m'(3,5) s3(2,4) same_heap_trans by fastforce
qed

subsection \<open>Resizing\<close>

text \<open>The positions of the blocks in use, without their headers.\<close>

fun used_at :: "nat \<Rightarrow> layout \<Rightarrow> nat list" where
  "used_at k [] = []"
| "used_at k ((n, u) # bs) = (if u then [k + 12] else []) @ used_at (k + n) bs"

lemma used_at_append [simp]: "used_at k (xs @ ys) = used_at k xs @ used_at (k + extent xs) ys"
  by (induction k xs rule: used_at.induct) (auto simp: add.assoc)

lemma used_at_cut [simp]: "used_at k (cut sz n) = [k + 12]"
  by (simp add: cut_def)

lemma used_at_absorb [simp]: "used_at k (absorb n ys) = used_at (k + n) ys"
  by (rule absorb_cases [of ys n]) (auto simp: add.assoc)

lemma used_at_release [simp]: "used_at k (release xs n ys) = used_at k xs @ used_at (k + extent xs + n) ys"
proof -
  obtain c zs where a: "absorb n ys = (c, False) # zs" using absorb_block by blast
  then have u: "used_at (k + extent xs + c) zs = used_at (k + extent xs + n) ys"
    using used_at_absorb [of "k + extent xs" n ys] by simp
  show ?thesis
  proof (cases xs rule: rev_cases)
    case (snoc ws w)
    then show ?thesis using a u by (cases w) (auto simp: release_def add.assoc)
  qed (use a u in \<open>simp add: release_def\<close>)
qed

lemma fit_alloc_used:
  assumes "fit_alloc k sz bs = Some (j, bs')"
  shows "extent bs' = extent bs" "\<exists>as cs. used_at k bs = as @ cs \<and> used_at k bs' = as @ (j + 12) # cs"
proof -
  have "first_fit k sz bs \<noteq> None" using assms fit_alloc_None [of k sz bs] by auto
  then obtain i where i: "first_fit k sz bs = Some i" by blast
  then obtain xs n ys where d: "bs = xs @ (n, False) # ys" "j = k + extent xs" "sz + 12 \<le> n" "bs' = xs @ cut sz n @ ys"
    using fit_alloc_at [OF i] assms by auto
  then show "extent bs' = extent bs" by simp
  show "\<exists>as cs. used_at k bs = as @ cs \<and> used_at k bs' = as @ (j + 12) # cs"
    using d by (intro exI [of _ "used_at k xs"] exI [of _ "used_at (k + extent xs + n) ys"]) simp
qed

text \<open>An allocation leaves the blocks in use where they are.\<close>

lemma fit_alloc_keeps:
  "fit_alloc k sz (xs @ (n, True) # ys) = Some (j, bs') \<Longrightarrow>
   \<exists>xs' ys'. bs' = xs' @ (n, True) # ys' \<and> extent xs' = extent xs"
proof (induction xs arbitrary: k bs' rule: extent.induct)
  case 1
  then obtain b where "bs' = [] @ (n, True) # b" by auto
  then show ?case by (metis (no_types))
next
  case (2 c u xs)
  show ?case
  proof (cases "\<not> u \<and> sz + 12 \<le> c")
    case True
    then show ?thesis using 2(2) by (intro exI [of _ "cut sz c @ xs"] exI [of _ ys]) simp
  next
    case False
    then obtain bs1 where b: "fit_alloc (k + c) sz (xs @ (n, True) # ys) = Some (j, bs1)" "bs' = (c, u) # bs1"
      using 2(2) by auto
    then obtain xs' ys' where "bs1 = xs' @ (n, True) # ys'" "extent xs' = extent xs" using 2(1) by blast
    then show ?thesis using b(2) by (intro exI [of _ "(c, u) # xs'"] exI [of _ ys']) simp
  qed
qed

lemma tag_cong: "same_heap m m' \<Longrightarrow> tag m' = tag m"
  by (auto simp: fun_eq_iff tag_def MEM_USED_def MEM_FREED_def same_heap_def)

text \<open>Cutting off the tail of a block in use.\<close>

lemma shrink_spec:
  assumes "heap_rep m (xs @ (n, True) # ys)" "0 < a" "4 dvd a" "a + 36 < n"
  defines "k \<equiv> of_nat (extent xs)" and "w \<equiv> of_nat a"
  defines "m1 \<equiv> smem_split k w (m\<lparr>mem_used := mem_used m - (of_nat (n - 12) - w)\<rparr>)"
  shows "\<exists>m'. plug_holes (k + SIZEOF_STRUCT_MEM + w) (if k + SIZEOF_STRUCT_MEM + w < lfree m1
        then m1\<lparr>lfree := k + SIZEOF_STRUCT_MEM + w\<rparr> else m1) = Some m' \<and>
    heap_rep m' (release (xs @ [(a + 12, True)]) (n - a - 12) ys) \<and> heap_bytes m' = heap_bytes m \<and> same_heap m m'"
proof -
  let ?bs = "xs @ (n, True) # ys" and ?m = "m\<lparr>mem_used := mem_used m - (of_nat (n - 12) - w)\<rparr>"
  let ?xs = "xs @ [(a + 12, True)]" and ?n = "n - a - 12" and ?e = "extent (xs @ (n, True) # ys)"
  have td: "tiled m ?bs" and co: "coalesced ?bs" and lf: "lfree m = of_nat (first_free 0 ?bs)"
    and us: "mem_used m = of_nat (used_total ?bs)"
    using assms(1) by (auto simp: heap_rep_def)
  have fr: "heap_frame m ?e" and ti: "tiles m 0 0 xs" using td by (auto simp: tiled_def)
  have b: "?e + 12 < 2 ^ 32" using heap_frame_small [OF fr] .
  have "tiled ?m ?bs" by (rule tiled_cong [OF td]) (simp_all add: same_heap_def)
  from split_tiled [OF this, of a] assms(2-4) obtain t1: "tiled m1 (?xs @ (?n, False) # ys)" and
    f1: "lfree m1 = lfree m" "mem_used m1 = mem_used m - (of_nat (n - 12) - w)" "heap_bytes m1 = heap_bytes m" "same_heap ?m m1"
    unfolding m1_def k_def w_def by auto
  have same: "same_heap m m1" using f1(4) by (simp add: same_heap_def)
  have k2: "k + SIZEOF_STRUCT_MEM + w = of_nat (extent ?xs)" by (simp add: k_def w_def)
  let ?m2 = "if of_nat (extent ?xs) < lfree m1 then m1\<lparr>lfree := of_nat (extent ?xs)\<rparr> else m1"
  have s2: "same_heap m1 ?m2" "items ?m2 = items m1" "heap_bytes ?m2 = heap_bytes m" "mem_used ?m2 = mem_used m1"
    using f1(3) by (simp_all add: same_heap_def)
  have lf2: "lfree ?m2 = of_nat (first_free 0 (?xs @ (?n, False) # ys))"
  proof (cases "list_all snd xs")
    case True
    have "extent ?xs < first_free 0 ?bs" "first_free 0 ?bs \<le> ?e"
      using True first_free_le(1) [of "extent xs + n" ys] first_free_le(2) [of 0 ?bs] assms(4) by (auto simp: first_free_append)
    then have "of_nat (extent ?xs) < lfree m1" unfolding f1(1) lf using b by (subst word_pos_le) auto
    then show ?thesis using True by (simp add: first_free_append)
  next
    case False
    have "first_free 0 ?bs < extent xs" using False first_free_inside [OF False ti] by (simp add: first_free_append)
    then have "\<not> of_nat (extent ?xs) < lfree m1" unfolding f1(1) lf using b assms(4) by (subst word_pos_le) auto
    then show ?thesis using False lf f1(1) by (simp add: first_free_append)
  qed
  have "free_rep ?m2 (?xs @ (?n, False) # ys)"
    using tiled_cong [OF t1 s2(2,1)] lf2 by (simp add: free_rep_def)
  from plug_holes_spec [OF this] obtain m' where m': "plug_holes (of_nat (extent ?xs)) ?m2 = Some m'"
    "free_rep m' (release ?xs ?n ys)" "same_heap ?m2 m'" "mem_used m' = mem_used ?m2" "heap_bytes m' = heap_bytes ?m2" by blast
  have "mem_used m1 = of_nat (used_total ?xs + used_total ys)"
  proof -
    have "(of_nat (n - 12) :: u32) - w = of_nat (n - 12 - a)" unfolding w_def using assms(4) by (intro word_sub_pos) simp
    moreover have "(of_nat (used_total ?bs) :: u32) - of_nat (n - 12 - a) = of_nat (used_total ?bs - (n - 12 - a))"
      by (intro word_sub_pos) simp
    moreover have "used_total ?bs - (n - 12 - a) = used_total ?xs + used_total ys" using assms(4) by simp
    ultimately show ?thesis unfolding f1(2) us by (simp only:)
  qed
  moreover have "coalesced ?xs" using co by (auto simp: coalesced_append)
  ultimately have "heap_rep m' (release ?xs ?n ys)"
    using m' s2 coalesced_release co by (simp add: heap_rep_def free_rep_def coalesced_append)
  moreover have "same_heap m m'" using same s2(1) m'(3) same_heap_trans by blast
  ultimately show ?thesis unfolding k2 using m'(1,5) s2(3) by auto
qed

text \<open>The outcomes of resizing the block in use between \<open>xs\<close> and \<open>ys\<close>: the new layout and the pointer.\<close>

inductive resized :: "layout \<Rightarrow> nat \<Rightarrow> layout \<Rightarrow> nat \<Rightarrow> nat option \<Rightarrow> layout \<Rightarrow> bool" for xs n ys a where
  refused: "0 < a \<Longrightarrow> resized xs n ys a None (xs @ (n, True) # ys)"
| released: "a = 0 \<Longrightarrow> resized xs n ys a None (release xs n ys)"
| fits: "n = a + 12 \<Longrightarrow> 0 < a \<Longrightarrow> resized xs n ys a (Some (extent xs + 12)) (xs @ (n, True) # ys)"
| shrunk: "0 < a \<Longrightarrow> a + 36 < n \<Longrightarrow>
    resized xs n ys a (Some (extent xs + 12)) (release (xs @ [(a + 12, True)]) (n - a - 12) ys)"
| moved: "0 < a \<Longrightarrow> fit_alloc 0 (max 12 a) (xs @ (n, True) # ys) = Some (j, xs' @ (n, True) # ys') \<Longrightarrow>
    extent xs' = extent xs \<Longrightarrow> resized xs n ys a (Some (j + 12)) (release xs' n ys')"

text \<open>\<open>rt_memcpy\<close> of a block of \<open>c\<close> bytes to a place for \<open>a\<close> bytes.\<close>

definition copied :: "rt_small_mem \<Rightarrow> rt_small_mem \<Rightarrow> nat \<Rightarrow> nat \<Rightarrow> nat \<Rightarrow> bool" where
  "copied m m' p q c \<longleftrightarrow> (\<forall>i<c. heap_bytes m' (of_nat (q + i)) = heap_bytes m (of_nat (p + i)))"

lemma copied_same: "heap_bytes m' = heap_bytes m \<Longrightarrow> copied m m' p p c"
  by (simp add: copied_def)

lemma copied_copy:
  assumes "c < 2 ^ 32"
  shows "copied m (heap_copy (of_nat q) (of_nat p) (of_nat c) m) p q c"
  unfolding copied_def
proof (intro allI impI)
  fix i assume i: "i < c"
  have "(of_nat i :: u32) < of_nat c" using i assms by (subst word_pos_le) auto
  then show "heap_bytes (heap_copy (of_nat q) (of_nat p) (of_nat c) m) (of_nat (q + i)) = heap_bytes m (of_nat (p + i))"
    by (simp add: heap_copy_def)
qed

lemma copy_rep [simp]: "heap_rep (heap_copy q p c m) bs \<longleftrightarrow> heap_rep m bs"
proof -
  have "tiled (heap_copy q p c m) bs \<longleftrightarrow> tiled m bs"
    using tiled_cong [of m bs "heap_copy q p c m"] tiled_cong [of "heap_copy q p c m" bs m]
    by (auto simp: heap_copy_def same_heap_def)
  then show ?thesis by (simp add: heap_rep_def heap_copy_def)
qed

lemma copy_same_heap [simp]: "same_heap m' (heap_copy q p c m) = same_heap m' m"
  by (simp add: heap_copy_def same_heap_def)

lemma realloc_spec:
  assumes "heap_rep m (xs @ (n, True) # ys)" "24 \<le> extent (xs @ (n, True) # ys)"
  shows "\<exists>r m' bs'. rt_smem_realloc (Some (of_nat (extent xs + 12))) sz m = Some (map_option of_nat r, m') \<and>
    heap_rep m' bs' \<and> same_heap m m' \<and> resized xs n ys (aligned sz) r bs' \<and>
    (case r of None \<Rightarrow> True | Some q \<Rightarrow> copied m m' (extent xs + 12) q (min (n - 12) (aligned sz)))"
proof -
  let ?k = "extent xs" and ?bs = "xs @ (n, True) # ys" and ?e = "extent (xs @ (n, True) # ys)" and ?a = "aligned sz"
  let ?w = "RT_ALIGN sz RT_ALIGN_SIZE"
  have td: "tiled m ?bs" using assms(1) by (simp add: heap_rep_def)
  have fr: "heap_frame m ?e" and ti: "tiles m 0 0 xs" "tiles m (last_pos 0 0 xs) ?k ((n, True) # ys)"
    using td by (auto simp: tiled_def)
  have b: "?e + 12 < 2 ^ 32" "12 < n" using heap_frame_small [OF fr] ti by auto
  have st: "smem_obj m = ObjStatic" "mem_size_aligned m = of_nat (?e - 12)" "heap_end m = of_nat ?e"
    using fr by (simp_all only: heap_frame_def)
  have w: "?w = of_nat ?a" "?a < 2 ^ 32" using aligned_small(1) [of sz] by (simp_all add: aligned_def)
  have big: "?w > mem_size_aligned m \<longleftrightarrow> ?e - 12 < ?a"
    unfolding st(2) w(1) using w(2) b by (intro word_pos_le) auto
  have zero: "?w = 0 \<longleftrightarrow> ?a = 0" unfolding aligned_def by (metis unat_eq_zero)
  have al: "(heap_ptr m + of_nat (?k + 12)) AND (RT_ALIGN_SIZE - 1) = 0"
    using take_asserts(4) [OF fr, of ?k 0] tiles_dvd [OF ti(1)] b(2) by (simp add: RT_ALIGN_SIZE_def add.commute)
  have lt: "(of_nat (?k + 12) :: u32) < heap_end m"
    unfolding st(3) using b by (subst word_pos_le) auto
  have mem: "(of_nat (?k + 12) :: u32) - SIZEOF_STRUCT_MEM = of_nat ?k" by simp
  have old: "mem_next (items m (of_nat ?k)) - of_nat ?k - SIZEOF_STRUCT_MEM = of_nat (n - 12)"
    using ti(2) block_room [OF b(2), of ?k] by (simp add: hdr_def diff_diff_eq)
  have n32: "n < 2 ^ 32" using b by simp
  have fit: "of_nat (n - 12) = (of_nat ?a :: u32) \<longleftrightarrow> n = ?a + 12"
    using w(2) n32 b(2) by (subst word_pos_eq) auto
  have cut: "(of_nat ?a :: u32) + SIZEOF_STRUCT_MEM + MIN_SIZE < of_nat (n - 12) \<longleftrightarrow> ?a + 36 < n" if "?a \<le> ?e - 12"
  proof -
    have "(of_nat ?a :: u32) + SIZEOF_STRUCT_MEM + MIN_SIZE = of_nat (?a + 24)" by simp
    moreover have "?a + 24 < 2 ^ 32" using that b assms(2) by simp
    ultimately show ?thesis using n32 by (simp only:) (subst word_pos_le; auto)
  qed
  note realloc = rt_smem_realloc_def w(1) option.case mem old Let_def
  consider "?e - 12 < ?a" | "?a = 0" | "?a \<le> ?e - 12" "0 < ?a" "n = ?a + 12"
    | "?a \<le> ?e - 12" "0 < ?a" "?a + 36 < n" | "?a \<le> ?e - 12" "0 < ?a" "n \<noteq> ?a + 12" "\<not> ?a + 36 < n" by linarith
  then show ?thesis
  proof cases
    case 1
    then have "rt_smem_realloc (Some (of_nat (?k + 12))) sz m = Some (None, m)"
      using big st(1) by (simp add: rt_smem_realloc_def Let_def)
    moreover have "resized xs n ys ?a None ?bs" using 1 by (intro resized.refused) simp
    ultimately show ?thesis using assms(1) by (intro exI [of _ None] exI [of _ m] exI [of _ ?bs]) simp
  next
    case 2
    obtain m' where m': "rt_smem_free (Some (of_nat (?k + 12))) m = Some m'" "heap_rep m' (release xs n ys)" "same_heap m m'"
      using free_spec [OF assms(1)] by blast
    have "rt_smem_realloc (Some (of_nat (?k + 12))) sz m = Some (None, m')"
      using big 2 zero st(1) m'(1) by (simp add: rt_smem_realloc_def Let_def del: of_nat_add)
    then show ?thesis
      using m'(2,3) resized.released [OF 2] by (intro exI [of _ None] exI [of _ m'] exI [of _ "release xs n ys"]) simp
  next
    case 3
    have "rt_smem_realloc (Some (of_nat (?k + 12))) sz m = Some (Some (of_nat (?k + 12)), m)"
      using big zero st(1) al lt fit 3 unfolding realloc by (simp del: of_nat_add smem_sizes)
    moreover have "resized xs n ys ?a (Some (?k + 12)) ?bs" using 3 by (intro resized.fits)
    ultimately show ?thesis
      using assms(1) copied_same [of m m] by (intro exI [of _ "Some (?k + 12)"] exI [of _ m] exI [of _ ?bs]) simp
  next
    case 4
    obtain m' where m': "heap_rep m' (release (xs @ [(?a + 12, True)]) (n - ?a - 12) ys)" "heap_bytes m' = heap_bytes m"
      "same_heap m m'" "rt_smem_realloc (Some (of_nat (?k + 12))) sz m = Some (Some (of_nat (?k + 12)), m')"
    proof -
      from shrink_spec [OF assms(1) 4(2) aligned_dvd 4(3)] obtain m' where m': "heap_rep m' (release (xs @ [(?a + 12, True)]) (n - ?a - 12) ys)" "heap_bytes m' = heap_bytes m"
        "same_heap m m'" "plug_holes (of_nat ?k + SIZEOF_STRUCT_MEM + of_nat ?a)
          (if of_nat ?k + SIZEOF_STRUCT_MEM + of_nat ?a < lfree (smem_split (of_nat ?k) (of_nat ?a) (m\<lparr>mem_used := mem_used m - (of_nat (n - 12) - of_nat ?a)\<rparr>))
           then (smem_split (of_nat ?k) (of_nat ?a) (m\<lparr>mem_used := mem_used m - (of_nat (n - 12) - of_nat ?a)\<rparr>))\<lparr>lfree := of_nat ?k + SIZEOF_STRUCT_MEM + of_nat ?a\<rparr>
           else smem_split (of_nat ?k) (of_nat ?a) (m\<lparr>mem_used := mem_used m - (of_nat (n - 12) - of_nat ?a)\<rparr>)) = Some m'" by blast
      have "rt_smem_realloc (Some (of_nat (?k + 12))) sz m = Some (Some (of_nat (?k + 12)), m')"
        using big zero st(1) al lt fit cut 4 m'(4) unfolding realloc by (simp del: of_nat_add of_nat_diff smem_sizes)
      then show ?thesis using that m' by blast
    qed
    then show ?thesis
      using resized.shrunk [OF 4(2,3), of xs ys] copied_same
      by (intro exI [of _ "Some (?k + 12)"] exI [of _ m'] exI [of _ "release (xs @ [(?a + 12, True)]) (n - ?a - 12) ys"]) simp
  next
    case 5
    have rd: "rounded ?w = max 12 ?a" unfolding rounded_def aligned_again ..
    have w0: "?w \<noteq> 0" using zero 5(2) by simp
    note al_spec = alloc_spec [OF assms(1,2), of ?w, unfolded rd if_not_P [OF w0]]
    have re: "rt_smem_realloc (Some (of_nat (?k + 12))) sz m = (rt_smem_alloc ?w m \<bind> (\<lambda>(nmem, m). case nmem of
          None \<Rightarrow> Some (None, m)
        | Some q \<Rightarrow> rt_smem_free (Some (of_nat (?k + 12)))
            (heap_copy q (of_nat (?k + 12)) (if of_nat (n - 12) < (of_nat ?a :: u32) then of_nat (n - 12) else of_nat ?a) m) \<bind>
            (\<lambda>m. Some (Some q, m))))"
      using big zero st(1) al lt fit cut 5 unfolding realloc by (simp del: of_nat_add of_nat_diff smem_sizes)
    show ?thesis
    proof (cases "fit_alloc 0 (max 12 ?a) ?bs")
      case None
      then have "rt_smem_realloc (Some (of_nat (?k + 12))) sz m = Some (None, m)"
        using al_spec unfolding re by simp
      then show ?thesis
        using assms(1) resized.refused [OF 5(2)] by (intro exI [of _ None] exI [of _ m] exI [of _ ?bs]) simp
    next
      case (Some jb)
      obtain j bs1 where jb: "jb = (j, bs1)" by fastforce
      obtain xs' ys' where d: "bs1 = xs' @ (n, True) # ys'" "extent xs' = ?k"
        using fit_alloc_keeps Some jb by blast
      obtain m1 where m1: "rt_smem_alloc ?w m = Some (Some (of_nat (j + 12)), m1)" "heap_rep m1 bs1"
        "heap_bytes m1 = heap_bytes m" "same_heap m m1" using al_spec Some jb by auto
      let ?c = "min (n - 12) ?a"
      have c: "(if of_nat (n - 12) < (of_nat ?a :: u32) then of_nat (n - 12) else of_nat ?a) = (of_nat ?c :: u32)"
        using word_pos_le(2) [of "n - 12" ?a] n32 w(2) by (auto simp: min_def)
      let ?m2 = "heap_copy (of_nat (j + 12)) (of_nat (?k + 12)) (of_nat ?c) m1"
      have "heap_rep ?m2 (xs' @ (n, True) # ys')" using m1(2) d(1) by simp
      from free_spec [OF this] obtain m' where m': "rt_smem_free (Some (of_nat (?k + 12))) ?m2 = Some m'"
        "heap_rep m' (release xs' n ys')" "heap_bytes m' = heap_bytes ?m2" "same_heap ?m2 m'"
        unfolding d(2) by blast
      have "same_heap m m'" using m1(4) m'(4) by (simp add: same_heap_def heap_copy_def)
      moreover have "copied m m' (?k + 12) (j + 12) ?c"
        using copied_copy [of ?c m1 "j + 12" "?k + 12"] w(2) m'(3) m1(3) by (simp add: copied_def del: of_nat_add)
      moreover have "rt_smem_realloc (Some (of_nat (?k + 12))) sz m = Some (Some (of_nat (j + 12)), m')"
        unfolding re m1(1) c by (simp add: m'(1) del: of_nat_add)
      moreover have "resized xs n ys ?a (Some (j + 12)) (release xs' n ys')"
        using Some jb d 5(2) by (intro resized.moved) simp_all
      ultimately show ?thesis
        using m'(2) by (intro exI [of _ "Some (j + 12)"] exI [of _ m'] exI [of _ "release xs' n ys'"]) (simp del: of_nat_add)
    qed
  qed
qed

subsection \<open>Initialisation\<close>

lemma even_mask:
  assumes d: "4 dvd unat (x :: u32)"
  shows "x AND MEM_MASK = x"
proof (rule bit_word_eqI)
  fix k assume "k < LENGTH(32)"
  have "\<not> bit (unat x) 0" using d by (auto simp: bit_0)
  then have "\<not> bit x 0" by (simp add: bit_unsigned_iff)
  then show "bit (x AND MEM_MASK) k = bit x k" using \<open>k < LENGTH(32)\<close> by (cases k) (auto simp: MEM_MASK_eq bit_simps bit_1_iff)
qed

lemma init_spec:
  assumes "unat begin_addr + unat sz < 2 ^ 32" "100 \<le> unat sz"
  shows "\<exists>m n. rt_smem_init mem0 bytes0 begin_addr sz = Some m \<and> heap_rep m [(n, False)] \<and> 24 \<le> n \<and>
    unat begin_addr \<le> unat (heap_ptr m) \<and> unat (heap_ptr m) + n + 12 \<le> unat begin_addr + unat sz"
proof -
  let ?b = "unat begin_addr" and ?w = "RT_ALIGN begin_addr RT_ALIGN_SIZE"
  define h where "h = 4 * ((?b + 3) div 4)"
  define e where "e = 4 * ((?b + unat sz) div 4)"
  have hb: "?b \<le> h" "h \<le> ?b + 3" "4 dvd h" "4 dvd e" "e \<le> ?b + unat sz" "?b + unat sz \<le> e + 3"
    unfolding h_def e_def by auto
  have lt: "h + 56 < 2 ^ 32" "e < 2 ^ 32" "h + 56 + 24 + 12 < e" using hb assms by auto
  have "?b + 3 < 2 ^ 32" using assms by simp
  then have "unat ?w = h" using unat_RT_ALIGN [of begin_addr] by (simp add: h_def)
  moreover have "unat (of_nat h :: u32) = h" using lt by (intro word_pos) simp
  ultimately have w: "?w = of_nat h" unfolding word_unat_eq_iff by (simp only:)
  have start: "?w + sizeof_small_mem = of_nat (h + 56)" by (simp add: w sizeof_small_mem_def)
  have uw: "unat (of_nat (h + 56) :: u32) = h + 56" using lt by (intro word_pos) simp
  have align: "RT_ALIGN (of_nat (h + 56) :: u32) RT_ALIGN_SIZE = of_nat (h + 56)"
  proof -
    have d: "4 dvd h + 56" using hb(3) by presburger
    have "unat (of_nat (h + 56) :: u32) + 3 < 2 ^ 32" unfolding uw using lt by simp
    then have "unat (RT_ALIGN (of_nat (h + 56) :: u32) RT_ALIGN_SIZE) = 4 * ((h + 56 + 3) div 4)"
      using unat_RT_ALIGN [of "of_nat (h + 56) :: u32"] unfolding uw by simp
    also have "\<dots> = h + 56" using d by presburger
    finally show ?thesis using uw unfolding word_unat_eq_iff by (simp only:)
  qed
  have fin: "RT_ALIGN_DOWN (begin_addr + sz) RT_ALIGN_SIZE = of_nat e"
  proof -
    have "unat (begin_addr + sz) = ?b + unat sz" using assms(1) by (simp add: unat_word_ariths)
    then have "unat (RT_ALIGN_DOWN (begin_addr + sz) RT_ALIGN_SIZE) = e" by (simp add: e_def)
    then show ?thesis unfolding word_unat_eq_iff word_pos [OF lt(2)] .
  qed
  have twice: "2 * SIZEOF_STRUCT_MEM = (of_nat 24 :: u32)" by simp
  have big: "(of_nat e :: u32) > of_nat 24" "of_nat e - of_nat 24 \<ge> (of_nat (h + 56) :: u32)"
    "of_nat e - of_nat (h + 56) - of_nat 24 = (of_nat (e - h - 80) :: u32)"
  proof -
    show "(of_nat e :: u32) > of_nat 24" using lt by (subst word_pos_le) auto
    have "(of_nat e :: u32) - of_nat 24 = of_nat (e - 24)" using lt by (intro word_sub_pos) simp
    then show "of_nat e - of_nat 24 \<ge> (of_nat (h + 56) :: u32)" using lt by (simp only:) (subst word_pos_le; simp)
    have "(of_nat e :: u32) - of_nat (h + 56) = of_nat (e - (h + 56))" using lt by (intro word_sub_pos) simp
    moreover have "(of_nat (e - (h + 56)) :: u32) - of_nat 24 = of_nat (e - (h + 56) - 24)" using lt by (intro word_sub_pos) simp
    ultimately show "of_nat e - of_nat (h + 56) - of_nat 24 = (of_nat (e - h - 80) :: u32)" by (simp add: add.commute)
  qed
  define s where "s = e - h - 80"
  have sz: "12 < s" "4 dvd s" "h + 56 + (s + 12) + 12 = e"
    using lt hb(3,4) by (auto simp: s_def intro: dvd_diff_nat)
  define m0 where "m0 = \<lparr>smem_obj = ObjStatic, smem_addr = ?w, mem_address = of_nat (h + 56), mem_total = of_nat s,
    mem_used = 0, mem_max = 0, heap_ptr = of_nat (h + 56), heap_end = 0, lfree = 0,
    mem_size_aligned = of_nat s, items = mem0, heap_bytes = bytes0\<rparr>"
  define m1 where "m1 = upd_item 0 (\<lambda>_. \<lparr>pool_ptr = MEM_FREED m0, mem_next = of_nat s + SIZEOF_STRUCT_MEM, mem_prev = 0\<rparr>) m0"
  define m2 where "m2 = m1\<lparr>heap_end := mem_next (items m1 0)\<rparr>"
  define m3 where "m3 = upd_item (heap_end m2) (\<lambda>_. \<lparr>pool_ptr = MEM_USED m2, mem_next = of_nat s + SIZEOF_STRUCT_MEM,
    mem_prev = of_nat s + SIZEOF_STRUCT_MEM\<rparr>) m2"
  let ?m = "m3\<lparr>lfree := 0\<rparr>"
  have init: "rt_smem_init mem0 bytes0 begin_addr sz = Some ?m"
    unfolding rt_smem_init_def Let_def start align fin twice
    using big by (simp only: simp_thms if_True s_def [symmetric] m0_def [symmetric] m1_def [symmetric] m2_def [symmetric] m3_def [symmetric])
  have hend: "heap_end ?m = of_nat (s + 12)" "heap_end m2 = of_nat (s + 12)"
    by (simp_all add: m3_def m2_def m1_def upd_item_def)
  have neq: "(of_nat (s + 12) :: u32) \<noteq> 0"
  proof -
    have "(of_nat (s + 12) :: u32) = of_nat 0 \<longleftrightarrow> s + 12 = 0" using sz(3) lt(2) by (intro word_pos_eq) auto
    then show ?thesis by simp
  qed
  have it: "items ?m (of_nat (s + 12)) = \<lparr>pool_ptr = MEM_USED m2, mem_next = of_nat (s + 12), mem_prev = of_nat (s + 12)\<rparr>"
    "items ?m 0 = \<lparr>pool_ptr = MEM_FREED m0, mem_next = of_nat (s + 12), mem_prev = 0\<rparr>"
    using neq hend(2) by (simp_all add: m3_def m2_def m1_def upd_item_def del: of_nat_add)
  have same: "smem_addr ?m = ?w" "smem_addr m2 = ?w" "smem_addr m0 = ?w" "heap_ptr ?m = of_nat (h + 56)" "smem_obj ?m = ObjStatic"
    "mem_size_aligned ?m = of_nat s" "mem_used ?m = 0"
    by (simp_all add: m3_def m2_def m1_def m0_def upd_item_def)
  have uh: "unat (heap_ptr ?m) = h + 56" unfolding same(4) by (rule uw)
  have "heap_frame ?m (s + 12)"
    unfolding heap_frame_def
  proof (intro conjI)
    show "smem_addr ?m AND MEM_MASK = smem_addr ?m"
      unfolding same(1) w using hb(3) lt(1) by (intro even_mask) simp
    show "unat (heap_ptr ?m) mod 4 = 0" unfolding uh using hb(3) by presburger
    show "unat (heap_ptr ?m) + (s + 12) + 12 < 2 ^ 32" unfolding uh using sz(3) lt(2) by simp
    show "pool_ptr (hdr ?m (s + 12)) = MEM_USED ?m" "mem_next (hdr ?m (s + 12)) = of_nat (s + 12)"
      unfolding hdr_def it(1) using same(1,2) by (simp_all add: MEM_USED_def)
    show "4 dvd s + 12" using sz(2) by presburger
  qed (use same hend sz in simp_all)
  moreover have "hdr ?m 0 = \<lparr>pool_ptr = tag ?m False, mem_next = of_nat (0 + (s + 12)), mem_prev = of_nat 0\<rparr>"
  proof -
    have "hdr ?m 0 = items ?m 0" by (simp add: hdr_def)
    also note it(2)
    also have "MEM_FREED m0 = tag ?m False" using same(1,3) by (simp add: tag_def MEM_FREED_def)
    moreover have "(of_nat 0 :: u32) = 0" by simp
    ultimately show ?thesis by (simp only: add_0)
  qed
  ultimately have "heap_rep ?m [(s + 12, False)]"
    using sz same(7) by (simp add: heap_rep_def tiled_def dvd_add) 
  moreover have "?b \<le> h + 56" "h + 56 + (s + 12) + 12 \<le> ?b + unat sz" using hb sz(3) by linarith+
  ultimately show ?thesis
    using init uh sz(1) by (intro exI [of _ ?m] exI [of _ "s + 12"]) simp
qed

subsection \<open>Any sequence of requests\<close>

text \<open>A client that holds the pointers \<open>live\<close> and passes only these back.\<close>

datatype heap_op = Malloc u32 | Free nat | Realloc nat u32

fun heap_step :: "heap_op \<Rightarrow> rt_small_mem \<times> u32 list \<Rightarrow> (rt_small_mem \<times> u32 list) option" where
  "heap_step (Malloc sz) (m, live) = do {
     (r, m) \<leftarrow> rt_smem_alloc sz m;
     Some (m, case r of None \<Rightarrow> live | Some p \<Rightarrow> p # live)
   }"
| "heap_step (Free i) (m, live) =
     (if i < length live
      then do {
        m \<leftarrow> rt_smem_free (Some (live ! i)) m;
        Some (m, take i live @ drop (Suc i) live)
      }
      else Some (m, live))"
| "heap_step (Realloc i sz) (m, live) =
     (if i < length live
      then do {
        (r, m) \<leftarrow> rt_smem_realloc (Some (live ! i)) sz m;
        Some (m, case r of
            Some q \<Rightarrow> live[i := q]
          | None \<Rightarrow> if RT_ALIGN sz RT_ALIGN_SIZE = 0 then take i live @ drop (Suc i) live else live)
      }
      else Some (m, live))"

fun heap_run :: "heap_op list \<Rightarrow> rt_small_mem \<times> u32 list \<Rightarrow> (rt_small_mem \<times> u32 list) option" where
  "heap_run [] s = Some s"
| "heap_run (x # xs) s = do { s \<leftarrow> heap_step x s; heap_run xs s }"

text \<open>The client's pointers are those of the blocks in use, each once.\<close>

definition holds :: "rt_small_mem \<Rightarrow> u32 list \<Rightarrow> layout \<Rightarrow> bool" where
  "holds m live bs \<longleftrightarrow> heap_rep m bs \<and> 24 \<le> extent bs \<and> mset live = image_mset of_nat (mset (used_at 0 bs))"

lemma used_split:
  "p \<in> set (used_at k bs) \<Longrightarrow> \<exists>xs n ys. bs = xs @ (n, True) # ys \<and> p = k + extent xs + 12"
proof (induction k bs rule: used_at.induct)
  case (2 k n u bs)
  show ?case
  proof (cases "u \<and> p = k + 12")
    case True
    then show ?thesis by (intro exI [of _ "[]"] exI [of _ n] exI [of _ bs]) simp
  next
    case False
    then have "p \<in> set (used_at (k + n) bs)" using 2(2) by (auto split: if_splits)
    then obtain xs c ys where "bs = xs @ (c, True) # ys" "p = k + n + extent xs + 12" using 2(1) by blast
    then show ?thesis by (intro exI [of _ "(n, u) # xs"] exI [of _ c] exI [of _ ys]) simp
  qed
qed simp

lemma holds_nth:
  assumes "holds m live bs" "i < length live"
  obtains xs n ys where "bs = xs @ (n, True) # ys" "live ! i = of_nat (extent xs + 12)"
    "mset (take i live @ drop (Suc i) live) = image_mset of_nat (mset (used_at 0 xs @ used_at (extent xs + n) ys))"
proof -
  have "live ! i \<in># mset live" using assms(2) by simp
  then obtain p where p: "p \<in> set (used_at 0 bs)" "live ! i = of_nat p"
    using assms(1) unfolding holds_def by auto
  obtain xs n ys where d: "bs = xs @ (n, True) # ys" "p = extent xs + 12" using used_split [OF p(1)] by auto
  have "mset live = add_mset (live ! i) (mset (take i live @ drop (Suc i) live))"
    using assms(2) by (metis id_take_nth_drop mset.simps(2) mset_append union_mset_add_mset_right)
  then have "mset (take i live @ drop (Suc i) live) = image_mset of_nat (mset (used_at 0 xs @ used_at (extent xs + n) ys))"
    using assms(1) d p(2) by (simp add: holds_def)
  then show ?thesis using that d p(2) by blast
qed

lemma mset_update: "i < length xs \<Longrightarrow> mset (xs[i := x]) = add_mset x (mset (take i xs @ drop (Suc i) xs))"
  by (simp add: upd_conv_take_nth_drop)

lemma resized_used:
  assumes "resized xs n ys a r bs'"
  shows "mset (used_at 0 bs') = (case r of
      Some q \<Rightarrow> add_mset q (mset (used_at 0 xs @ used_at (extent xs + n) ys))
    | None \<Rightarrow> if a = 0 then mset (used_at 0 xs @ used_at (extent xs + n) ys)
        else mset (used_at 0 (xs @ (n, True) # ys)))"
    "12 < n \<Longrightarrow> extent bs' = extent (xs @ (n, True) # ys)"
proof -
  show "mset (used_at 0 bs') = (case r of
      Some q \<Rightarrow> add_mset q (mset (used_at 0 xs @ used_at (extent xs + n) ys))
    | None \<Rightarrow> if a = 0 then mset (used_at 0 xs @ used_at (extent xs + n) ys)
        else mset (used_at 0 (xs @ (n, True) # ys)))"
    using assms
  proof cases
    case (moved j xs' ys')
    obtain as cs where u: "used_at 0 (xs @ (n, True) # ys) = as @ cs" "used_at 0 (xs' @ (n, True) # ys') = as @ (j + 12) # cs"
      using fit_alloc_used(2) [OF moved(4)] by blast
    have "mset (used_at 0 (xs' @ (n, True) # ys')) = add_mset (j + 12) (mset (used_at 0 (xs @ (n, True) # ys)))"
      unfolding u by simp
    then show ?thesis using moved(1,2,5) by simp
  qed auto
  show "12 < n \<Longrightarrow> extent bs' = extent (xs @ (n, True) # ys)"
    using assms
  proof cases
    case (moved j xs' ys')
    then show ?thesis using fit_alloc_used(1) [OF moved(4)] by simp
  qed auto
qed

lemma heap_step_ok:
  assumes "holds m live bs"
  shows "\<exists>m' live' bs'. heap_step x (m, live) = Some (m', live') \<and> holds m' live' bs' \<and> same_heap m m' \<and>
    extent bs' = extent bs"
proof -
  have rep: "heap_rep m bs" "24 \<le> extent bs" using assms by (auto simp: holds_def)
  show ?thesis
  proof (cases x)
    case (Malloc sz)
    show ?thesis
    proof (cases "if sz = 0 then None else fit_alloc 0 (rounded sz) bs")
      case None
      then show ?thesis using alloc_spec [OF rep, of sz] assms Malloc by (intro exI [of _ m] exI [of _ live] exI [of _ bs]) simp
    next
      case (Some jb)
      then obtain j bs' where jb: "jb = (j, bs')" "fit_alloc 0 (rounded sz) bs = Some (j, bs')"
        by (cases jb) (auto split: if_splits)
      obtain m' where m': "rt_smem_alloc sz m = Some (Some (of_nat (j + 12)), m')" "heap_rep m' bs'" "same_heap m m'"
        using alloc_spec [OF rep, of sz] Some jb(1) by auto
      obtain as cs where "used_at 0 bs = as @ cs" "used_at 0 bs' = as @ (j + 12) # cs"
        using fit_alloc_used(2) [OF jb(2)] by blast
      then have "holds m' (of_nat (j + 12) # live) bs'"
        using assms m'(2) fit_alloc_used(1) [OF jb(2)] by (simp add: holds_def)
      then show ?thesis using m'(1,3) Malloc fit_alloc_used(1) [OF jb(2)] by auto
    qed
  next
    case (Free i)
    show ?thesis
    proof (cases "i < length live")
      case True
      obtain xs n ys where d: "bs = xs @ (n, True) # ys" "live ! i = of_nat (extent xs + 12)"
        "mset (take i live @ drop (Suc i) live) = image_mset of_nat (mset (used_at 0 xs @ used_at (extent xs + n) ys))"
        using holds_nth [OF assms True] .
      obtain m' where m': "rt_smem_free (Some (live ! i)) m = Some m'" "heap_rep m' (release xs n ys)" "same_heap m m'"
        using free_spec rep(1) d(1,2) by metis
      have "holds m' (take i live @ drop (Suc i) live) (release xs n ys)"
        using m'(2) rep(2) d(1,3) unfolding holds_def by simp
      then show ?thesis using True m'(1,3) Free d(1) by auto
    qed (use assms Free in auto)
  next
    case (Realloc i sz)
    show ?thesis
    proof (cases "i < length live")
      case True
      obtain xs n ys where d: "bs = xs @ (n, True) # ys" "live ! i = of_nat (extent xs + 12)"
        "mset (take i live @ drop (Suc i) live) = image_mset of_nat (mset (used_at 0 xs @ used_at (extent xs + n) ys))"
        using holds_nth [OF assms True] .
      have n: "12 < n" using rep(1) d(1) by (simp add: heap_rep_def tiled_def)
      obtain r m' bs' where m': "rt_smem_realloc (Some (live ! i)) sz m = Some (map_option of_nat r, m')" "heap_rep m' bs'"
        "same_heap m m'" "resized xs n ys (aligned sz) r bs'"
        using realloc_spec [OF rep [unfolded d(1)], of sz] unfolding d(2) by blast
      note u = resized_used [OF m'(4)]
      have zero: "RT_ALIGN sz RT_ALIGN_SIZE = 0 \<longleftrightarrow> aligned sz = 0" unfolding aligned_def by (metis unat_eq_zero)
      let ?live = "case map_option of_nat r of Some q \<Rightarrow> live[i := q]
        | None \<Rightarrow> if RT_ALIGN sz RT_ALIGN_SIZE = 0 then take i live @ drop (Suc i) live else live"
      have "mset ?live = image_mset of_nat (mset (used_at 0 bs'))"
        using u(1) d(3) zero True mset_update [OF True] assms d(1) by (cases r) (auto simp: holds_def)
      then have "holds m' ?live bs'" using m'(2) u(2) [OF n] rep(2) d(1) by (simp add: holds_def)
      moreover have "heap_step x (m, live) = Some (m', ?live)" using True m'(1) Realloc by simp
      ultimately show ?thesis using m'(3) u(2) [OF n] d(1) by blast
    qed (use assms Realloc in auto)
  qed
qed

lemma heap_run_ok:
  "holds m live bs \<Longrightarrow> \<exists>m' live' bs'. heap_run ops (m, live) = Some (m', live') \<and> holds m' live' bs' \<and>
     same_heap m m' \<and> extent bs' = extent bs"
proof (induction ops arbitrary: m live bs)
  case Nil
  then show ?case by auto
next
  case (Cons x ops)
  obtain m1 live1 bs1 where s: "heap_step x (m, live) = Some (m1, live1)" "holds m1 live1 bs1" "same_heap m m1"
    "extent bs1 = extent bs"
    using heap_step_ok [OF Cons.prems] by blast
  from Cons.IH [OF s(2)] s show ?case using same_heap_trans by fastforce
qed

subsection \<open>Properties\<close>

text \<open>How many bytes the block at \<open>p\<close> offers, read from its header.\<close>

definition usable :: "rt_small_mem \<Rightarrow> u32 \<Rightarrow> nat" where
  "usable m p = unat (mem_next (items m (p - SIZEOF_STRUCT_MEM))) - unat p"

lemma usable_block:
  assumes "tiled m (xs @ (n, u) # ys)"
  shows "unat (of_nat (extent xs + 12) :: u32) = extent xs + 12" "usable m (of_nat (extent xs + 12)) = n - 12" "12 < n"
proof -
  have fr: "heap_frame m (extent (xs @ (n, u) # ys))" and ti: "tiles m (last_pos 0 0 xs) (extent xs) ((n, u) # ys)"
    using assms by (auto simp: tiled_def)
  have b: "extent xs + n + 12 < 2 ^ 32" using heap_frame_small [OF fr] by simp
  show n: "12 < n" using ti by simp
  show p: "unat (of_nat (extent xs + 12) :: u32) = extent xs + 12" using b n by (intro word_pos) simp
  have "(of_nat (extent xs + 12) :: u32) - SIZEOF_STRUCT_MEM = of_nat (extent xs)" by simp
  moreover have "mem_next (items m (of_nat (extent xs))) = of_nat (extent xs + n)" using ti by (simp add: hdr_def)
  moreover have "unat (of_nat (extent xs + n) :: u32) = extent xs + n" using b by (intro word_pos) simp
  ultimately show "usable m (of_nat (extent xs + 12)) = n - 12" unfolding usable_def p by (simp only:)
qed

lemma two_blocks:
  assumes "xs @ (n, u) # ys = xs' @ (n', u') # ys'"
  shows "extent xs = extent xs' \<or> extent xs + n \<le> extent xs' \<or> extent xs' + n' \<le> extent xs"
  using assms by (auto simp: append_eq_append_conv2 append_eq_Cons_conv Cons_eq_append_conv)

lemma used_at_ge: "p \<in> set (used_at k bs) \<Longrightarrow> k + 12 \<le> p"
  by (induction k bs rule: used_at.induct) (auto split: if_splits)

lemma used_at_distinct: "tiles m p k bs \<Longrightarrow> distinct (used_at k bs)"
  by (induction bs arbitrary: p k rule: extent.induct) (auto dest: used_at_ge)

lemma used_at_le: "tiles m q k bs \<Longrightarrow> p \<in> set (used_at k bs) \<Longrightarrow> p < k + extent bs"
  by (induction bs arbitrary: q k rule: extent.induct) fastforce+

text \<open>C6: However a client allocates, resizes and releases, each request returns, and in the end its
  pointers are all different and their blocks lie inside the heap and do not overlap, not even with each
  other's headers; the heap lies inside the memory it was given.\<close>

theorem heap_always_sound:
  assumes "unat begin_addr + unat sz < 2 ^ 32" "100 \<le> unat sz"
  shows "\<exists>m0 m live. rt_smem_init mem0 bytes0 begin_addr sz = Some m0 \<and> heap_run ops (m0, []) = Some (m, live) \<and>
    unat begin_addr \<le> unat (heap_ptr m) \<and> unat (heap_ptr m) + unat (heap_end m) + 12 \<le> unat begin_addr + unat sz \<and>
    distinct live \<and> (\<forall>p \<in> set live. 12 \<le> unat p \<and> unat p + usable m p \<le> unat (heap_end m)) \<and>
    (\<forall>p \<in> set live. \<forall>q \<in> set live. p \<noteq> q \<longrightarrow>
       unat p + usable m p + 12 \<le> unat q \<or> unat q + usable m q + 12 \<le> unat p)"
proof -
  obtain m0 n where m0: "rt_smem_init mem0 bytes0 begin_addr sz = Some m0" "heap_rep m0 [(n, False)]" "24 \<le> n"
    "unat begin_addr \<le> unat (heap_ptr m0)" "unat (heap_ptr m0) + n + 12 \<le> unat begin_addr + unat sz"
    using init_spec [OF assms] by blast
  have "holds m0 [] [(n, False)]" using m0(2,3) by (simp add: holds_def)
  then obtain m live bs where run: "heap_run ops (m0, []) = Some (m, live)" "holds m live bs" "same_heap m0 m"
    "extent bs = n" using heap_run_ok [of m0 "[]"] by fastforce
  have td: "tiled m bs" and lv: "mset live = image_mset of_nat (mset (used_at 0 bs))"
    using run(2) by (auto simp: holds_def heap_rep_def)
  have fr: "heap_frame m n" and ti: "tiles m 0 0 bs" using td run(4) by (auto simp: tiled_def)
  have b: "n + 12 < 2 ^ 32" using heap_frame_small [OF fr] .
  have e: "unat (heap_end m) = n"
  proof -
    have "heap_end m = of_nat n" using fr by (simp only: heap_frame_def)
    then show ?thesis using b by (simp only:) (simp add: word_pos)
  qed
  have blk: "\<exists>xs c ys. bs = xs @ (c, True) # ys \<and> unat p = extent xs + 12 \<and> usable m p = c - 12 \<and> 12 < c"
    if "p \<in> set live" for p
  proof -
    have "p \<in># mset live" using that by simp
    then obtain k where k: "k \<in> set (used_at 0 bs)" "p = of_nat k" unfolding lv by auto
    obtain xs c ys where d: "bs = xs @ (c, True) # ys" "k = extent xs + 12" using used_split [OF k(1)] by auto
    show ?thesis using usable_block [OF td [unfolded d(1)]] d k(2) by blast
  qed
  have "inj_on (of_nat :: nat \<Rightarrow> u32) (set (used_at 0 bs))"
  proof (rule inj_onI)
    fix i k assume "i \<in> set (used_at 0 bs)" "k \<in> set (used_at 0 bs)" "(of_nat i :: u32) = of_nat k"
    moreover from this have "i < 2 ^ 32" "k < 2 ^ 32" using used_at_le [OF ti] b run(4) by fastforce+
    ultimately show "i = k" using word_pos_eq by blast
  qed
  then have "distinct (map (of_nat :: nat \<Rightarrow> u32) (used_at 0 bs))"
    using used_at_distinct [OF ti] by (simp add: distinct_map)
  moreover have "mset live = mset (map of_nat (used_at 0 bs))" using lv by simp
  ultimately have "distinct live" by (metis mset_eq_imp_distinct_iff)
  moreover have "12 \<le> unat p \<and> unat p + usable m p \<le> unat (heap_end m)" if p: "p \<in> set live" for p
  proof -
    obtain xs c ys where "bs = xs @ (c, True) # ys" "unat p = extent xs + 12" "usable m p = c - 12" "12 < c"
      using blk [OF p] by blast
    then show ?thesis using run(4) e by auto
  qed
  moreover have "unat p + usable m p + 12 \<le> unat q \<or> unat q + usable m q + 12 \<le> unat p"
    if pq: "p \<in> set live" "q \<in> set live" "p \<noteq> q" for p q
  proof -
    obtain xs c ys where p: "bs = xs @ (c, True) # ys" "unat p = extent xs + 12" "usable m p = c - 12" "12 < c"
      using blk [OF pq(1)] by blast
    obtain xs' c' ys' where q: "bs = xs' @ (c', True) # ys'" "unat q = extent xs' + 12" "usable m q = c' - 12" "12 < c'"
      using blk [OF pq(2)] by blast
    have "extent xs \<noteq> extent xs'" using pq(3) p(2) q(2) by (auto simp: word_unat_eq_iff)
    then show ?thesis using two_blocks [of xs c True ys xs' c' True ys'] p q by auto
  qed
  ultimately show ?thesis
    using m0(1,4,5) run(1,3) e unfolding same_heap_def by (intro exI [of _ m0] exI [of _ m] exI [of _ live]) simp
qed

theorem heap_always_sound_witness:
  "\<exists>m0 m live. rt_smem_init (\<lambda>_. undefined) (\<lambda>_. 0) 0x20000001 300 = Some m0 \<and>
    heap_run [Malloc 10, Malloc 20, Realloc 0 40, Free 1, Malloc 200] (m0, []) = Some (m, live) \<and> distinct live"
  using heap_always_sound [of "0x20000001" 300 "\<lambda>_. undefined" "\<lambda>_. 0" "[Malloc 10, Malloc 20, Realloc 0 40, Free 1, Malloc 200]"]
  by auto

text \<open>A heap of 300 bytes in which one block is in use.\<close>

definition small_heap :: "rt_small_mem" where
  "small_heap = (case rt_smem_init (\<lambda>_. undefined) (\<lambda>_. 0) 0x20000000 300 of
     Some m \<Rightarrow> (case rt_smem_alloc 40 m of Some (_, m) \<Rightarrow> m))"


lemma small_heap_rep: "heap_rep small_heap [(52, True), (180, False)]"
proof -
  obtain m n where m: "rt_smem_init (\<lambda>_. undefined) (\<lambda>_. 0) 0x20000000 300 = Some m" "heap_rep m [(n, False)]" "24 \<le> n"
    using init_spec [of "0x20000000" 300 "\<lambda>_. undefined" "\<lambda>_. 0"] by auto
  have "map_option heap_end (rt_smem_init (\<lambda>_. undefined) (\<lambda>_. 0) 0x20000000 300) = Some 232" by code_simp
  then have "heap_end m = 232" using m(1) by simp
  moreover have "heap_end m = of_nat n" "n + 12 < 2 ^ 32"
    using m(2) heap_frame_small by (auto simp: heap_rep_def tiled_def heap_frame_def)
  ultimately have "unat (of_nat n :: u32) = 232" by simp
  then have n: "n = 232" using \<open>n + 12 < 2 ^ 32\<close> by (subst (asm) word_pos) auto
  have "rounded 40 = 40" by (simp add: rounded_def aligned_exact)
  then obtain m' where "rt_smem_alloc 40 m = Some (Some (of_nat 12), m')" "heap_rep m' [(52, True), (180, False)]"
    using alloc_spec [OF m(2), of 40] m(3) n by (auto simp: cut_def)
  then show ?thesis using m(1) by (simp add: small_heap_def)
qed


text \<open>C15: Releasing what was just allocated undoes the allocation: whatever block was handed out, the free
  space is joined up again to exactly the layout before.\<close>

theorem smem_free_undoes_alloc:
  assumes "heap_rep m bs" "24 \<le> extent bs" "rt_smem_alloc sz m = Some (Some p, m1)"
  shows "\<exists>m2. rt_smem_free (Some p) m1 = Some m2 \<and> heap_rep m2 bs"
proof -
  have "sz \<noteq> 0" using assms(3) by (auto simp: rt_smem_alloc_def)
  then obtain j bs1 where fa: "fit_alloc 0 (rounded sz) bs = Some (j, bs1)"
    using alloc_spec [OF assms(1,2), of sz] assms(3) by (cases "fit_alloc 0 (rounded sz) bs") auto
  then have m1: "p = of_nat (j + 12)" "heap_rep m1 bs1"
    using alloc_spec [OF assms(1,2), of sz] assms(3) \<open>sz \<noteq> 0\<close> by auto
  obtain i where i: "first_fit 0 (rounded sz) bs = Some i"
    using fa fit_alloc_None [of 0 "rounded sz" bs] by (cases "first_fit 0 (rounded sz) bs") auto
  obtain xs n ys where d: "bs = xs @ (n, False) # ys" "j = extent xs" "rounded sz + 12 \<le> n"
    "bs1 = xs @ cut (rounded sz) n @ ys"
    using fit_alloc_at [OF i] fa by auto
  have co: "coalesced (xs @ (n, False) # ys)" using assms(1) d(1) by (simp add: heap_rep_def)
  obtain c cs where c: "cut (rounded sz) n = (c, True) # cs" using cut_first by blast
  have "absorb c (cs @ ys) = (n, False) # ys"
  proof (cases "rounded sz + 36 \<le> n")
    case True
    then show ?thesis using c d(3) by (auto simp: cut_def absorb_def)
  next
    case False
    have "ys = [] \<or> snd (hd ys)" using co by (simp add: coalesced_append)
    then have "absorb n ys = (n, False) # ys" by (cases ys n rule: absorb_cases) auto
    then show ?thesis using c False by (simp add: cut_def)
  qed
  then have "release xs c (cs @ ys) = bs"
    using co d(1) by (auto simp: release_def coalesced_append)
  then show ?thesis
    using free_spec [of m1 xs c "cs @ ys"] m1 d(2,4) c by auto
qed

theorem smem_free_undoes_alloc_witness:
  "\<exists>m1 m2. rt_smem_alloc 9 small_heap = Some (Some 64, m1) \<and> rt_smem_free (Some 64) m1 = Some m2 \<and>
    heap_rep m2 [(52, True), (180, False)]"
proof -
  have "rounded 9 = 12" by (simp add: rounded_def aligned_exact)
  then obtain m1 where m1: "rt_smem_alloc 9 small_heap = Some (Some 64, m1)"
    using alloc_spec [OF small_heap_rep, of 9] by (auto simp: cut_def)
  show ?thesis using smem_free_undoes_alloc [OF small_heap_rep _ m1] m1 by auto
qed



subsection \<open>Two ways in which a request goes wrong\<close>

text \<open>Rounding a request of almost \<open>2^32\<close> bytes up wraps to zero: the caller is given a block of 12 bytes.\<close>

theorem smem_huge_request_wraps:
  "\<exists>m'. rt_smem_alloc 0xffffffff small_heap = Some (Some 64, m') \<and> usable m' 64 = 12"
proof -
  have "rounded 0xffffffff = 12" by (simp add: rounded_def aligned_def) code_simp
  then obtain m' where m': "rt_smem_alloc 0xffffffff small_heap = Some (Some 64, m')"
    "heap_rep m' [(52, True), (24, True), (156, False)]"
    using alloc_spec [OF small_heap_rep, of "0xffffffff"] by (auto simp: cut_def)
  have "tiled m' ([(52, True)] @ (24, True) # [(156, False)])" using m'(2) by (simp add: heap_rep_def)
  from usable_block(2) [OF this] show ?thesis using m'(1) by simp
qed

text \<open>
  On a heap of 8 bytes the smallest request, 12 bytes, makes the bound of the search wrap around: the
  loop never leaves the end marker.
\<close>

definition tiny_heap :: "rt_small_mem" where
  "tiny_heap = (case rt_smem_init (\<lambda>_. undefined) (\<lambda>_. 0) 0x20000000 88 of Some m \<Rightarrow> m)"

lemma scan_stuck:
  assumes "smem_scan m sz p = Some y"
  shows "\<not> (p \<le> mem_size_aligned m - sz \<and> MEM_ISUSED (items m p) \<and> mem_next (items m p) = p)"
proof -
  define P where "P m sz p y \<longleftrightarrow> \<not> (p \<le> mem_size_aligned m - sz \<and> MEM_ISUSED (items m p) \<and> mem_next (items m p) = p)"
    for m :: rt_small_mem and sz p :: u32 and y :: "u32 option"
  have "P m sz p y"
    by (rule smem_scan.raw_induct [OF _ assms]) (auto simp: P_def split: if_splits)
  then show ?thesis by (simp add: P_def)
qed

theorem smem_tiny_heap_hangs: "rt_smem_alloc 4 tiny_heap = None"
proof -
  have f: "mem_size_aligned tiny_heap = 8" "lfree tiny_heap = 0" "smem_obj tiny_heap = ObjStatic"
    "pool_ptr (items tiny_heap 0) = 0x20000000" "mem_next (items tiny_heap 0) = 20"
    "pool_ptr (items tiny_heap 20) = 0x20000001" "mem_next (items tiny_heap 20) = 20" by code_simp+
  have "\<not> MEM_ISUSED (items tiny_heap 0)" "MEM_ISUSED (items tiny_heap 20)" by code_simp+
  then have "smem_scan tiny_heap 12 20 = None"
    using scan_stuck [of tiny_heap 12 20] f by (cases "smem_scan tiny_heap 12 20") (auto simp: word_le_nat_alt)
  then have "smem_scan tiny_heap 12 0 = None"
    using f \<open>\<not> MEM_ISUSED (items tiny_heap 0)\<close> by (subst smem_scan.simps) (simp add: word_le_nat_alt)
  moreover have "RT_ALIGN 4 RT_ALIGN_SIZE = (4 :: u32)" by code_simp
  ultimately show ?thesis
    using f by (simp add: rt_smem_alloc_def word_less_nat_alt)
qed

end
