(* ===== verification/Drv8301.thy ===== *)
theory Drv8301 imports Prelude
begin

text \<open>
  The gate driver, \<open>src/firmware/src/Drivers/DRV8301/drv8301.c\<close> and \<open>drv8301.h\<close>: a chip with two status
  and two control registers of 11 bits, read and written by 16-bit words over SPI.

  The STM32 HAL and the chip are outside the source. The HAL calls are a record of functions on a
  state of the hardware that the model leaves open. A failed \<open>HAL_SPI_TransmitReceive\<close>
  returns what the receive buffer held. The enums are taken as 16-bit integers.
\<close>

unbundle bit_operations_syntax

subsection \<open>Registers and settings\<close>

definition DRV8301_DATA_MASK :: u16 where "DRV8301_DATA_MASK = 0x07ff"
definition DRV8301_FAULT_TYPE_MASK :: u16 where "DRV8301_FAULT_TYPE_MASK = 0x07ff"
definition DRV8301_STATUS1_FETLC_OC_BITS :: u16 where "DRV8301_STATUS1_FETLC_OC_BITS = push_bit 0 1"
definition DRV8301_STATUS1_FETHC_OC_BITS :: u16 where "DRV8301_STATUS1_FETHC_OC_BITS = push_bit 1 1"
definition DRV8301_STATUS1_FETLB_OC_BITS :: u16 where "DRV8301_STATUS1_FETLB_OC_BITS = push_bit 2 1"
definition DRV8301_STATUS1_FETHB_OC_BITS :: u16 where "DRV8301_STATUS1_FETHB_OC_BITS = push_bit 3 1"
definition DRV8301_STATUS1_FETLA_OC_BITS :: u16 where "DRV8301_STATUS1_FETLA_OC_BITS = push_bit 4 1"
definition DRV8301_STATUS1_FETHA_OC_BITS :: u16 where "DRV8301_STATUS1_FETHA_OC_BITS = push_bit 5 1"
definition DRV8301_STATUS1_OTW_BITS :: u16 where "DRV8301_STATUS1_OTW_BITS = push_bit 6 1"
definition DRV8301_STATUS1_OTSD_BITS :: u16 where "DRV8301_STATUS1_OTSD_BITS = push_bit 7 1"
definition DRV8301_STATUS1_PVDD_UV_BITS :: u16 where "DRV8301_STATUS1_PVDD_UV_BITS = push_bit 8 1"
definition DRV8301_STATUS1_GVDD_UV_BITS :: u16 where "DRV8301_STATUS1_GVDD_UV_BITS = push_bit 9 1"
definition DRV8301_STATUS1_FAULT_BITS :: u16 where "DRV8301_STATUS1_FAULT_BITS = push_bit 10 1"
definition DRV8301_STATUS2_ID_BITS :: u16 where "DRV8301_STATUS2_ID_BITS = push_bit 0 15"
definition DRV8301_STATUS2_GVDD_OV_BITS :: u16 where "DRV8301_STATUS2_GVDD_OV_BITS = push_bit 7 1"
definition DRV8301_CTRL1_GATE_CURRENT_BITS :: u16 where "DRV8301_CTRL1_GATE_CURRENT_BITS = push_bit 0 3"
definition DRV8301_CTRL1_GATE_RESET_BITS :: u16 where "DRV8301_CTRL1_GATE_RESET_BITS = push_bit 2 1"
definition DRV8301_CTRL1_PWM_MODE_BITS :: u16 where "DRV8301_CTRL1_PWM_MODE_BITS = push_bit 3 1"
definition DRV8301_CTRL1_OC_MODE_BITS :: u16 where "DRV8301_CTRL1_OC_MODE_BITS = push_bit 4 3"
definition DRV8301_CTRL1_OC_ADJ_SET_BITS :: u16 where "DRV8301_CTRL1_OC_ADJ_SET_BITS = push_bit 6 31"
definition DRV8301_CTRL2_OCTW_SET_BITS :: u16 where "DRV8301_CTRL2_OCTW_SET_BITS = push_bit 0 3"
definition DRV8301_CTRL2_GAIN_BITS :: u16 where "DRV8301_CTRL2_GAIN_BITS = push_bit 2 3"
definition DRV8301_CTRL2_DC_CAL_1_BITS :: u16 where "DRV8301_CTRL2_DC_CAL_1_BITS = push_bit 4 1"
definition DRV8301_CTRL2_DC_CAL_2_BITS :: u16 where "DRV8301_CTRL2_DC_CAL_2_BITS = push_bit 5 1"
definition DRV8301_CTRL2_OC_TOFF_BITS :: u16 where "DRV8301_CTRL2_OC_TOFF_BITS = push_bit 6 1"
definition DRV8301_CtrlMode_Read :: u16 where "DRV8301_CtrlMode_Read = push_bit 15 1"
definition DRV8301_CtrlMode_Write :: u16 where "DRV8301_CtrlMode_Write = push_bit 15 0"
definition DRV8301_RegName_Status_1 :: u16 where "DRV8301_RegName_Status_1 = push_bit 11 0"
definition DRV8301_RegName_Status_2 :: u16 where "DRV8301_RegName_Status_2 = push_bit 11 1"
definition DRV8301_RegName_Control_1 :: u16 where "DRV8301_RegName_Control_1 = push_bit 11 2"
definition DRV8301_RegName_Control_2 :: u16 where "DRV8301_RegName_Control_2 = push_bit 11 3"
definition DRV8301_FaultType_NoFault :: u16 where "DRV8301_FaultType_NoFault = push_bit 0 0"
definition DRV8301_FaultType_GVDD_OV :: u16 where "DRV8301_FaultType_GVDD_OV = push_bit 10 1"
definition DRV8301_ShuntAmpNumber_1 :: u16 where "DRV8301_ShuntAmpNumber_1 = 1"
definition DRV8301_ShuntAmpNumber_2 :: u16 where "DRV8301_ShuntAmpNumber_2 = 2"

lemmas drv_consts = DRV8301_DATA_MASK_def DRV8301_FAULT_TYPE_MASK_def DRV8301_STATUS1_FETLC_OC_BITS_def DRV8301_STATUS1_FETHC_OC_BITS_def DRV8301_STATUS1_FETLB_OC_BITS_def DRV8301_STATUS1_FETHB_OC_BITS_def DRV8301_STATUS1_FETLA_OC_BITS_def DRV8301_STATUS1_FETHA_OC_BITS_def DRV8301_STATUS1_OTW_BITS_def DRV8301_STATUS1_OTSD_BITS_def DRV8301_STATUS1_PVDD_UV_BITS_def DRV8301_STATUS1_GVDD_UV_BITS_def DRV8301_STATUS1_FAULT_BITS_def DRV8301_STATUS2_ID_BITS_def DRV8301_STATUS2_GVDD_OV_BITS_def DRV8301_CTRL1_GATE_CURRENT_BITS_def DRV8301_CTRL1_GATE_RESET_BITS_def DRV8301_CTRL1_PWM_MODE_BITS_def DRV8301_CTRL1_OC_MODE_BITS_def DRV8301_CTRL1_OC_ADJ_SET_BITS_def DRV8301_CTRL2_OCTW_SET_BITS_def DRV8301_CTRL2_GAIN_BITS_def DRV8301_CTRL2_DC_CAL_1_BITS_def DRV8301_CTRL2_DC_CAL_2_BITS_def DRV8301_CTRL2_OC_TOFF_BITS_def DRV8301_CtrlMode_Read_def DRV8301_CtrlMode_Write_def DRV8301_RegName_Status_1_def DRV8301_RegName_Status_2_def DRV8301_RegName_Control_1_def DRV8301_RegName_Control_2_def DRV8301_FaultType_NoFault_def DRV8301_FaultType_GVDD_OV_def DRV8301_ShuntAmpNumber_1_def DRV8301_ShuntAmpNumber_2_def

record DRV8301_Obj =
  spiHandle :: nat
  EngpioHandle :: nat
  EngpioNumber :: u16
  nCSgpioHandle :: nat
  nCSgpioNumber :: u16
  RxTimeOut :: bool
  enableTimeOut :: bool

record DRV_SPI_8301_Stat1_t =
  FAULT :: bool
  GVDD_UV :: bool
  PVDD_UV :: bool
  OTSD :: bool
  OTW :: bool
  FETHA_OC :: bool
  FETLA_OC :: bool
  FETHB_OC :: bool
  FETLB_OC :: bool
  FETHC_OC :: bool
  FETLC_OC :: bool

record DRV_SPI_8301_Stat2_t =
  GVDD_OV :: bool
  DeviceID :: u16

record DRV_SPI_8301_CTRL1_t =
  DRV8301_CURRENT :: u16
  DRV8301_RESET :: u16
  PWM_MODE :: u16
  OC_MODE :: u16
  OC_ADJ_SET :: u16

record DRV_SPI_8301_CTRL2_t =
  OCTW_SET :: u16
  GAIN :: u16
  DC_CAL_CH1p2 :: u16
  OC_TOFF :: u16

record DRV_SPI_8301_Vars_t =
  Stat_Reg_1 :: DRV_SPI_8301_Stat1_t
  Stat_Reg_2 :: DRV_SPI_8301_Stat2_t
  Ctrl_Reg_1 :: DRV_SPI_8301_CTRL1_t
  Ctrl_Reg_2 :: DRV_SPI_8301_CTRL2_t
  Stat_Reg_1_Value :: u16
  Stat_Reg_2_Value :: u16
  Ctrl_Reg_1_Value :: u16
  Ctrl_Reg_2_Value :: u16
  SndCmd :: bool
  RcvCmd :: bool

record 'w hal =
  hal_gpio_write :: "nat \<Rightarrow> u16 \<Rightarrow> bool \<Rightarrow> 'w \<Rightarrow> 'w"
  hal_spi_transmit :: "nat \<Rightarrow> u16 \<Rightarrow> 'w \<Rightarrow> 'w"
  hal_spi_transmit_receive :: "nat \<Rightarrow> u16 \<Rightarrow> u16 \<Rightarrow> 'w \<Rightarrow> u16 \<times> 'w"
  hal_delay_us :: "u32 \<Rightarrow> 'w \<Rightarrow> 'w"
  hal_mdelay :: "u32 \<Rightarrow> 'w \<Rightarrow> 'w"

subsection \<open>Words on the bus\<close>

definition DRV8301_buildCtrlWord :: "u16 \<Rightarrow> u16 \<Rightarrow> u16 \<Rightarrow> u16" where
  "DRV8301_buildCtrlWord ctrlMode regName data =
     ctrlMode OR regName OR (data AND DRV8301_DATA_MASK)"

definition DRV8301_nCS :: "'w hal \<Rightarrow> DRV8301_Obj \<Rightarrow> bool \<Rightarrow> 'w \<Rightarrow> 'w" where
  "DRV8301_nCS hal h level w =
     hal_delay_us hal 1 (hal_gpio_write hal (nCSgpioHandle h) (nCSgpioNumber h) level w)"

definition DRV8301_readSpi :: "'w hal \<Rightarrow> DRV8301_Obj \<Rightarrow> u16 \<Rightarrow> 'w \<Rightarrow> (u16 \<times> 'w) option" where
  "DRV8301_readSpi hal h regName w =
     (let w = DRV8301_nCS hal h False w;
          zerobuff = 0;
          controlword = DRV8301_buildCtrlWord DRV8301_CtrlMode_Read regName 0;
          w = hal_spi_transmit hal (spiHandle h) controlword w;
          w = DRV8301_nCS hal h True w;
          w = DRV8301_nCS hal h False w;
          (recbuff, w) = hal_spi_transmit_receive hal (spiHandle h) zerobuff 0xbeef w;
          w = hal_delay_us hal 1 w;
          w = DRV8301_nCS hal h True w
      in do {
        rt_assert (recbuff \<noteq> 0xbeef);
        Some (recbuff AND DRV8301_DATA_MASK, w)
      })"

definition DRV8301_writeSpi :: "'w hal \<Rightarrow> DRV8301_Obj \<Rightarrow> u16 \<Rightarrow> u16 \<Rightarrow> 'w \<Rightarrow> 'w" where
  "DRV8301_writeSpi hal h regName data w =
     (let w = DRV8301_nCS hal h False w;
          controlword = DRV8301_buildCtrlWord DRV8301_CtrlMode_Write regName data;
          w = hal_spi_transmit hal (spiHandle h) controlword w;
          w = hal_delay_us hal 1 w
      in DRV8301_nCS hal h True w)"

subsection \<open>Handle and enable\<close>

definition DRV8301_resetRxTimeout :: "DRV8301_Obj \<Rightarrow> DRV8301_Obj" where
  "DRV8301_resetRxTimeout h = h\<lparr>RxTimeOut := False\<rparr>"

definition DRV8301_resetEnableTimeout :: "DRV8301_Obj \<Rightarrow> DRV8301_Obj" where
  "DRV8301_resetEnableTimeout h = h\<lparr>enableTimeOut := False\<rparr>"

text \<open>\<open>sizeof(DRV8301_Obj)\<close>: two pointers, a half word, a pointer, a half word, two flags, aligned.\<close>

definition sizeof_DRV8301_Obj :: u32 where "sizeof_DRV8301_Obj = 20"

definition DRV8301_init :: "DRV8301_Obj \<Rightarrow> u32 \<Rightarrow> DRV8301_Obj option" where
  "DRV8301_init mem numBytes =
     (if numBytes < sizeof_DRV8301_Obj then None
      else Some (DRV8301_resetEnableTimeout (DRV8301_resetRxTimeout mem)))"

definition DRV8301_setEnGpioHandle :: "nat \<Rightarrow> DRV8301_Obj \<Rightarrow> DRV8301_Obj" where
  "DRV8301_setEnGpioHandle g h = h\<lparr>EngpioHandle := g\<rparr>"

definition DRV8301_setEnGpioNumber :: "u16 \<Rightarrow> DRV8301_Obj \<Rightarrow> DRV8301_Obj" where
  "DRV8301_setEnGpioNumber n h = h\<lparr>EngpioNumber := n\<rparr>"

definition DRV8301_setnCSGpioHandle :: "nat \<Rightarrow> DRV8301_Obj \<Rightarrow> DRV8301_Obj" where
  "DRV8301_setnCSGpioHandle g h = h\<lparr>nCSgpioHandle := g\<rparr>"

definition DRV8301_setnCSGpioNumber :: "u16 \<Rightarrow> DRV8301_Obj \<Rightarrow> DRV8301_Obj" where
  "DRV8301_setnCSGpioNumber n h = h\<lparr>nCSgpioNumber := n\<rparr>"

definition DRV8301_setSpiHandle :: "nat \<Rightarrow> DRV8301_Obj \<Rightarrow> DRV8301_Obj" where
  "DRV8301_setSpiHandle p h = h\<lparr>spiHandle := p\<rparr>"

partial_function (option) DRV8301_wait_no_fault :: "'w hal \<Rightarrow> DRV8301_Obj \<Rightarrow> 'w \<Rightarrow> 'w option" where
  "DRV8301_wait_no_fault hal h w = do {
     (status, w) \<leftarrow> DRV8301_readSpi hal h DRV8301_RegName_Status_1 w;
     if status AND DRV8301_STATUS1_FAULT_BITS \<noteq> 0 then DRV8301_wait_no_fault hal h w else Some w
   }"

definition DRV8301_enable :: "'w hal \<Rightarrow> DRV8301_Obj \<Rightarrow> 'w \<Rightarrow> 'w option" where
  "DRV8301_enable hal h w = do {
     let w = hal_gpio_write hal (EngpioHandle h) (EngpioNumber h) True w;
     let w = hal_mdelay hal 10 w;
     w \<leftarrow> DRV8301_wait_no_fault hal h w;
     Some (hal_mdelay hal 1 w)
   }"

subsection \<open>Status\<close>

definition DRV8301_isFault :: "'w hal \<Rightarrow> DRV8301_Obj \<Rightarrow> 'w \<Rightarrow> (bool \<times> 'w) option" where
  "DRV8301_isFault hal h w = do {
     (readWord, w) \<leftarrow> DRV8301_readSpi hal h DRV8301_RegName_Status_1 w;
     Some (readWord AND DRV8301_STATUS1_FAULT_BITS \<noteq> 0, w)
   }"

definition DRV8301_isReset :: "'w hal \<Rightarrow> DRV8301_Obj \<Rightarrow> 'w \<Rightarrow> (bool \<times> 'w) option" where
  "DRV8301_isReset hal h w = do {
     (readWord, w) \<leftarrow> DRV8301_readSpi hal h DRV8301_RegName_Control_1 w;
     Some (readWord AND DRV8301_CTRL1_GATE_RESET_BITS \<noteq> 0, w)
   }"

definition DRV8301_getFaultType :: "'w hal \<Rightarrow> DRV8301_Obj \<Rightarrow> 'w \<Rightarrow> (u16 \<times> 'w) option" where
  "DRV8301_getFaultType hal h w = do {
     (readWord, w) \<leftarrow> DRV8301_readSpi hal h DRV8301_RegName_Status_1 w;
     if readWord AND DRV8301_STATUS1_FAULT_BITS \<noteq> 0 then
       let faultType = readWord AND DRV8301_FAULT_TYPE_MASK in
       if faultType = DRV8301_FaultType_NoFault then do {
         (readWord, w) \<leftarrow> DRV8301_readSpi hal h DRV8301_RegName_Status_2 w;
         Some (if readWord AND DRV8301_STATUS2_GVDD_OV_BITS \<noteq> 0 then DRV8301_FaultType_GVDD_OV
               else faultType, w)
       }
       else Some (faultType, w)
     else Some (DRV8301_FaultType_NoFault, w)
   }"

definition DRV8301_getId :: "'w hal \<Rightarrow> DRV8301_Obj \<Rightarrow> 'w \<Rightarrow> (u16 \<times> 'w) option" where
  "DRV8301_getId hal h w = do {
     (data, w) \<leftarrow> DRV8301_readSpi hal h DRV8301_RegName_Status_2 w;
     Some (data AND DRV8301_STATUS2_ID_BITS, w)
   }"

subsection \<open>Single settings\<close>

text \<open>
  The getters below share a shape: read the register and clear \<open>bits\<close>. So do the setters: read,
  clear \<open>bits\<close>, set the new value, write.
\<close>

definition drv_get :: "'w hal \<Rightarrow> DRV8301_Obj \<Rightarrow> u16 \<Rightarrow> u16 \<Rightarrow> 'w \<Rightarrow> (u16 \<times> 'w) option" where
  "drv_get hal h regName bits w = do {
     (data, w) \<leftarrow> DRV8301_readSpi hal h regName w;
     Some (data AND NOT bits, w)
   }"

definition drv_set :: "'w hal \<Rightarrow> DRV8301_Obj \<Rightarrow> u16 \<Rightarrow> u16 \<Rightarrow> u16 \<Rightarrow> 'w \<Rightarrow> 'w option" where
  "drv_set hal h regName bits value w = do {
     (data, w) \<leftarrow> DRV8301_readSpi hal h regName w;
     let data = (data AND NOT bits) OR value;
     Some (DRV8301_writeSpi hal h regName data w)
   }"

definition DRV8301_getOcLevel :: "'w hal \<Rightarrow> DRV8301_Obj \<Rightarrow> 'w \<Rightarrow> (u16 \<times> 'w) option" where
  "DRV8301_getOcLevel hal h w = drv_get hal h DRV8301_RegName_Control_1 DRV8301_CTRL1_OC_ADJ_SET_BITS w"

definition DRV8301_setOcLevel :: "'w hal \<Rightarrow> DRV8301_Obj \<Rightarrow> u16 \<Rightarrow> 'w \<Rightarrow> 'w option" where
  "DRV8301_setOcLevel hal h value w = drv_set hal h DRV8301_RegName_Control_1 DRV8301_CTRL1_OC_ADJ_SET_BITS value w"

definition DRV8301_getOcMode :: "'w hal \<Rightarrow> DRV8301_Obj \<Rightarrow> 'w \<Rightarrow> (u16 \<times> 'w) option" where
  "DRV8301_getOcMode hal h w = drv_get hal h DRV8301_RegName_Control_1 DRV8301_CTRL1_OC_MODE_BITS w"

definition DRV8301_setOcMode :: "'w hal \<Rightarrow> DRV8301_Obj \<Rightarrow> u16 \<Rightarrow> 'w \<Rightarrow> 'w option" where
  "DRV8301_setOcMode hal h value w = drv_set hal h DRV8301_RegName_Control_1 DRV8301_CTRL1_OC_MODE_BITS value w"

definition DRV8301_getOcOffTimeMode :: "'w hal \<Rightarrow> DRV8301_Obj \<Rightarrow> 'w \<Rightarrow> (u16 \<times> 'w) option" where
  "DRV8301_getOcOffTimeMode hal h w = drv_get hal h DRV8301_RegName_Control_2 DRV8301_CTRL2_OC_TOFF_BITS w"

definition DRV8301_setOcOffTimeMode :: "'w hal \<Rightarrow> DRV8301_Obj \<Rightarrow> u16 \<Rightarrow> 'w \<Rightarrow> 'w option" where
  "DRV8301_setOcOffTimeMode hal h value w = drv_set hal h DRV8301_RegName_Control_2 DRV8301_CTRL2_OC_TOFF_BITS value w"

definition DRV8301_getOcTwMode :: "'w hal \<Rightarrow> DRV8301_Obj \<Rightarrow> 'w \<Rightarrow> (u16 \<times> 'w) option" where
  "DRV8301_getOcTwMode hal h w = drv_get hal h DRV8301_RegName_Control_2 DRV8301_CTRL2_OCTW_SET_BITS w"

definition DRV8301_setOcTwMode :: "'w hal \<Rightarrow> DRV8301_Obj \<Rightarrow> u16 \<Rightarrow> 'w \<Rightarrow> 'w option" where
  "DRV8301_setOcTwMode hal h value w = drv_set hal h DRV8301_RegName_Control_2 DRV8301_CTRL2_OCTW_SET_BITS value w"

definition DRV8301_getPeakCurrent :: "'w hal \<Rightarrow> DRV8301_Obj \<Rightarrow> 'w \<Rightarrow> (u16 \<times> 'w) option" where
  "DRV8301_getPeakCurrent hal h w = drv_get hal h DRV8301_RegName_Control_1 DRV8301_CTRL1_GATE_CURRENT_BITS w"

definition DRV8301_setPeakCurrent :: "'w hal \<Rightarrow> DRV8301_Obj \<Rightarrow> u16 \<Rightarrow> 'w \<Rightarrow> 'w option" where
  "DRV8301_setPeakCurrent hal h value w = drv_set hal h DRV8301_RegName_Control_1 DRV8301_CTRL1_GATE_CURRENT_BITS value w"

definition DRV8301_getPwmMode :: "'w hal \<Rightarrow> DRV8301_Obj \<Rightarrow> 'w \<Rightarrow> (u16 \<times> 'w) option" where
  "DRV8301_getPwmMode hal h w = drv_get hal h DRV8301_RegName_Control_1 DRV8301_CTRL1_PWM_MODE_BITS w"

definition DRV8301_setPwmMode :: "'w hal \<Rightarrow> DRV8301_Obj \<Rightarrow> u16 \<Rightarrow> 'w \<Rightarrow> 'w option" where
  "DRV8301_setPwmMode hal h value w = drv_set hal h DRV8301_RegName_Control_1 DRV8301_CTRL1_PWM_MODE_BITS value w"

definition DRV8301_getShuntAmpGain :: "'w hal \<Rightarrow> DRV8301_Obj \<Rightarrow> 'w \<Rightarrow> (u16 \<times> 'w) option" where
  "DRV8301_getShuntAmpGain hal h w = drv_get hal h DRV8301_RegName_Control_2 DRV8301_CTRL2_GAIN_BITS w"

definition DRV8301_setShuntAmpGain :: "'w hal \<Rightarrow> DRV8301_Obj \<Rightarrow> u16 \<Rightarrow> 'w \<Rightarrow> 'w option" where
  "DRV8301_setShuntAmpGain hal h value w = drv_set hal h DRV8301_RegName_Control_2 DRV8301_CTRL2_GAIN_BITS value w"

definition dc_cal_bits :: "u16 \<Rightarrow> u16" where
  "dc_cal_bits ampNumber =
     (if ampNumber = DRV8301_ShuntAmpNumber_1 then DRV8301_CTRL2_DC_CAL_1_BITS
      else if ampNumber = DRV8301_ShuntAmpNumber_2 then DRV8301_CTRL2_DC_CAL_2_BITS
      else 0)"

definition DRV8301_getDcCalMode :: "'w hal \<Rightarrow> DRV8301_Obj \<Rightarrow> u16 \<Rightarrow> 'w \<Rightarrow> (u16 \<times> 'w) option" where
  "DRV8301_getDcCalMode hal h ampNumber w =
     drv_get hal h DRV8301_RegName_Control_2 (dc_cal_bits ampNumber) w"

definition DRV8301_setDcCalMode ::
    "'w hal \<Rightarrow> DRV8301_Obj \<Rightarrow> u16 \<Rightarrow> u16 \<Rightarrow> 'w \<Rightarrow> 'w option" where
  "DRV8301_setDcCalMode hal h ampNumber mode w =
     drv_set hal h DRV8301_RegName_Control_2 (dc_cal_bits ampNumber) mode w"

definition DRV8301_reset :: "'w hal \<Rightarrow> DRV8301_Obj \<Rightarrow> 'w \<Rightarrow> 'w option" where
  "DRV8301_reset hal h w = do {
     (data, w) \<leftarrow> DRV8301_readSpi hal h DRV8301_RegName_Control_1 w;
     let data = data OR DRV8301_CTRL1_GATE_RESET_BITS;
     Some (DRV8301_writeSpi hal h DRV8301_RegName_Control_1 data w)
   }"

subsection \<open>All settings\<close>

definition stat1_of :: "u16 \<Rightarrow> DRV_SPI_8301_Stat1_t" where
  "stat1_of d = \<lparr>
     FAULT = (d AND DRV8301_STATUS1_FAULT_BITS \<noteq> 0),
     GVDD_UV = (d AND DRV8301_STATUS1_GVDD_UV_BITS \<noteq> 0),
     PVDD_UV = (d AND DRV8301_STATUS1_PVDD_UV_BITS \<noteq> 0),
     OTSD = (d AND DRV8301_STATUS1_OTSD_BITS \<noteq> 0),
     OTW = (d AND DRV8301_STATUS1_OTW_BITS \<noteq> 0),
     FETHA_OC = (d AND DRV8301_STATUS1_FETHA_OC_BITS \<noteq> 0),
     FETLA_OC = (d AND DRV8301_STATUS1_FETLA_OC_BITS \<noteq> 0),
     FETHB_OC = (d AND DRV8301_STATUS1_FETHB_OC_BITS \<noteq> 0),
     FETLB_OC = (d AND DRV8301_STATUS1_FETLB_OC_BITS \<noteq> 0),
     FETHC_OC = (d AND DRV8301_STATUS1_FETHC_OC_BITS \<noteq> 0),
     FETLC_OC = (d AND DRV8301_STATUS1_FETLC_OC_BITS \<noteq> 0)\<rparr>"

definition stat2_of :: "u16 \<Rightarrow> DRV_SPI_8301_Stat2_t" where
  "stat2_of d = \<lparr>
     GVDD_OV = (d AND DRV8301_STATUS2_GVDD_OV_BITS \<noteq> 0),
     DeviceID = d AND DRV8301_STATUS2_ID_BITS\<rparr>"

definition ctrl1_of :: "u16 \<Rightarrow> DRV_SPI_8301_CTRL1_t" where
  "ctrl1_of d = \<lparr>
     DRV8301_CURRENT = d AND DRV8301_CTRL1_GATE_CURRENT_BITS,
     DRV8301_RESET = d AND DRV8301_CTRL1_GATE_RESET_BITS,
     PWM_MODE = d AND DRV8301_CTRL1_PWM_MODE_BITS,
     OC_MODE = d AND DRV8301_CTRL1_OC_MODE_BITS,
     OC_ADJ_SET = d AND DRV8301_CTRL1_OC_ADJ_SET_BITS\<rparr>"

definition ctrl2_of :: "u16 \<Rightarrow> DRV_SPI_8301_CTRL2_t" where
  "ctrl2_of d = \<lparr>
     OCTW_SET = d AND DRV8301_CTRL2_OCTW_SET_BITS,
     GAIN = d AND DRV8301_CTRL2_GAIN_BITS,
     DC_CAL_CH1p2 = d AND (DRV8301_CTRL2_DC_CAL_1_BITS OR DRV8301_CTRL2_DC_CAL_2_BITS),
     OC_TOFF = d AND DRV8301_CTRL2_OC_TOFF_BITS\<rparr>"

definition DRV8301_writeData ::
    "'w hal \<Rightarrow> DRV8301_Obj \<Rightarrow> DRV_SPI_8301_Vars_t \<Rightarrow> 'w \<Rightarrow> DRV_SPI_8301_Vars_t \<times> 'w" where
  "DRV8301_writeData hal h v w =
     (if SndCmd v then
        let drvDataNew = DRV8301_CURRENT (Ctrl_Reg_1 v) OR DRV8301_RESET (Ctrl_Reg_1 v)
              OR PWM_MODE (Ctrl_Reg_1 v) OR OC_MODE (Ctrl_Reg_1 v) OR OC_ADJ_SET (Ctrl_Reg_1 v);
            w = DRV8301_writeSpi hal h DRV8301_RegName_Control_1 drvDataNew w;
            drvDataNew = OCTW_SET (Ctrl_Reg_2 v) OR GAIN (Ctrl_Reg_2 v)
              OR DC_CAL_CH1p2 (Ctrl_Reg_2 v) OR OC_TOFF (Ctrl_Reg_2 v);
            w = DRV8301_writeSpi hal h DRV8301_RegName_Control_2 drvDataNew w
        in (v\<lparr>SndCmd := False\<rparr>, w)
      else (v, w))"

definition DRV8301_readData ::
    "'w hal \<Rightarrow> DRV8301_Obj \<Rightarrow> DRV_SPI_8301_Vars_t \<Rightarrow> 'w \<Rightarrow> (DRV_SPI_8301_Vars_t \<times> 'w) option" where
  "DRV8301_readData hal h v w =
     (if RcvCmd v then do {
        (d, w) \<leftarrow> DRV8301_readSpi hal h DRV8301_RegName_Status_1 w;
        let v = v\<lparr>Stat_Reg_1 := stat1_of d, Stat_Reg_1_Value := d\<rparr>;
        (d, w) \<leftarrow> DRV8301_readSpi hal h DRV8301_RegName_Status_2 w;
        let v = v\<lparr>Stat_Reg_2 := stat2_of d, Stat_Reg_2_Value := d\<rparr>;
        (d, w) \<leftarrow> DRV8301_readSpi hal h DRV8301_RegName_Control_1 w;
        let v = v\<lparr>Ctrl_Reg_1 := ctrl1_of d, Ctrl_Reg_1_Value := d\<rparr>;
        (d, w) \<leftarrow> DRV8301_readSpi hal h DRV8301_RegName_Control_2 w;
        let v = v\<lparr>Ctrl_Reg_2 := ctrl2_of d, Ctrl_Reg_2_Value := d\<rparr>;
        Some (v\<lparr>RcvCmd := False\<rparr>, w)
      }
      else Some (v, w))"

definition DRV8301_setupSpi ::
    "'w hal \<Rightarrow> DRV8301_Obj \<Rightarrow> DRV_SPI_8301_Vars_t \<Rightarrow> 'w \<Rightarrow> (DRV_SPI_8301_Vars_t \<times> 'w) option" where
  "DRV8301_setupSpi hal h v w = do {
     let v = v\<lparr>SndCmd := False, RcvCmd := False\<rparr>;
     let w = hal_mdelay hal 1 w;
     (d, w) \<leftarrow> DRV8301_readSpi hal h DRV8301_RegName_Status_1 w;
     let v = v\<lparr>Stat_Reg_1 := stat1_of d\<rparr>;
     (d, w) \<leftarrow> DRV8301_readSpi hal h DRV8301_RegName_Status_2 w;
     let v = v\<lparr>Stat_Reg_2 := stat2_of d\<rparr>;
     (d, w) \<leftarrow> DRV8301_readSpi hal h DRV8301_RegName_Control_1 w;
     let v = v\<lparr>Ctrl_Reg_1 := ctrl1_of d\<rparr>;
     (d, w) \<leftarrow> DRV8301_readSpi hal h DRV8301_RegName_Control_2 w;
     let v = v\<lparr>Ctrl_Reg_2 := ctrl2_of d\<rparr>;
     Some (v, w)
   }"

end
