(* ===== verification/DrvProps.thy ===== *)
theory DrvProps imports Drv8301
begin

text \<open>
  What the gate driver's code achieves on a chip that behaves as its header says: a setter changes
  one field and nothing else, and the set-up of a motor leaves the chip with the settings asked for.
\<close>

subsection \<open>The chip as the bus sees it\<close>

text \<open>
  A frame is the word clocked in while the chip is selected. It takes effect when the chip is
  deselected: a read prepares the reply to the next frame, a write changes a control register. The
  status registers ignore writes. \<open>chip_high\<close> leaves open what a write of the reset bit does.
\<close>

record drv_chip =
  chip_selected :: bool
  chip_shift :: "u16 option"
  chip_reply :: u16
  chip_regs :: "nat \<Rightarrow> u16"

definition frame_addr :: "u16 \<Rightarrow> nat" where
  "frame_addr d = unat (drop_bit 11 d AND 15)"

definition chip_low :: "drv_chip \<Rightarrow> drv_chip" where
  "chip_low c = (if chip_selected c then c else c\<lparr>chip_selected := True, chip_shift := None\<rparr>)"

definition chip_high :: "drv_chip \<Rightarrow> drv_chip" where
  "chip_high c =
     (let c' = c\<lparr>chip_selected := False, chip_shift := None\<rparr> in
      case (if chip_selected c then chip_shift c else None) of
        None \<Rightarrow> c'
      | Some d \<Rightarrow>
          let a = frame_addr d in
          if bit d 15 then c'\<lparr>chip_reply := (d AND 0x7800) OR (chip_regs c a AND 0x7ff)\<rparr>
          else if a = 2 \<or> a = 3 then c'\<lparr>chip_regs := (chip_regs c)(a := d AND 0x7ff)\<rparr>
          else c')"

definition chip_resets :: "drv_chip \<Rightarrow> bool" where
  "chip_resets c =
     (case chip_shift c of None \<Rightarrow> False | Some d \<Rightarrow> \<not> bit d 15 \<and> frame_addr d = 2 \<and> bit d 2)"

text \<open>The HAL drives that chip through the pins and the bus of the handle.\<close>

definition drv_wired :: "'w hal \<Rightarrow> DRV8301_Obj \<Rightarrow> ('w \<Rightarrow> drv_chip) \<Rightarrow> bool" where
  "drv_wired hal h view \<longleftrightarrow>
     (\<forall>w. view (hal_gpio_write hal (nCSgpioHandle h) (nCSgpioNumber h) False w) = chip_low (view w)) \<and>
     (\<forall>w. \<not> chip_resets (view w) \<longrightarrow>
        view (hal_gpio_write hal (nCSgpioHandle h) (nCSgpioNumber h) True w) = chip_high (view w)) \<and>
     (\<forall>w. view (hal_gpio_write hal (EngpioHandle h) (EngpioNumber h) True w) = view w) \<and>
     (\<forall>w d. chip_selected (view w) \<longrightarrow>
        view (hal_spi_transmit hal (spiHandle h) d w) = (view w)\<lparr>chip_shift := Some d\<rparr>) \<and>
     (\<forall>w d r. chip_selected (view w) \<longrightarrow>
        fst (hal_spi_transmit_receive hal (spiHandle h) d r w) = chip_reply (view w) \<and>
        view (snd (hal_spi_transmit_receive hal (spiHandle h) d r w)) = (view w)\<lparr>chip_shift := Some d\<rparr>) \<and>
     (\<forall>w n. view (hal_delay_us hal n w) = view w \<and> view (hal_mdelay hal n w) = view w)"

definition drv_idle :: "drv_chip \<Rightarrow> bool" where
  "drv_idle c \<longleftrightarrow> \<not> chip_selected c \<and> chip_shift c = None \<and>
     (\<forall>a. chip_regs c a AND 0x7ff = chip_regs c a) \<and> \<not> bit (chip_regs c 2) 2"

lemma drv_wiredD:
  assumes "drv_wired hal h view"
  shows "view (hal_gpio_write hal (nCSgpioHandle h) (nCSgpioNumber h) False w) = chip_low (view w)"
    "\<not> chip_resets (view w) \<Longrightarrow>
       view (hal_gpio_write hal (nCSgpioHandle h) (nCSgpioNumber h) True w) = chip_high (view w)"
    "view (hal_gpio_write hal (EngpioHandle h) (EngpioNumber h) True w) = view w"
    "chip_selected (view w) \<Longrightarrow>
       view (hal_spi_transmit hal (spiHandle h) d w) = (view w)\<lparr>chip_shift := Some d\<rparr>"
    "chip_selected (view w) \<Longrightarrow>
       fst (hal_spi_transmit_receive hal (spiHandle h) d r w) = chip_reply (view w)"
    "chip_selected (view w) \<Longrightarrow>
       view (snd (hal_spi_transmit_receive hal (spiHandle h) d r w)) = (view w)\<lparr>chip_shift := Some d\<rparr>"
    "view (hal_delay_us hal n w) = view w"
    "view (hal_mdelay hal n w) = view w"
  using assms unfolding drv_wired_def by blast+

subsection \<open>Frames\<close>

definition reg_name :: "nat \<Rightarrow> u16" where
  "reg_name a = push_bit 11 (of_nat a)"

lemma reg_names:
  "DRV8301_RegName_Status_1 = reg_name 0" "DRV8301_RegName_Status_2 = reg_name 1"
  "DRV8301_RegName_Control_1 = reg_name 2" "DRV8301_RegName_Control_2 = reg_name 3"
  by (simp_all add: drv_consts reg_name_def)

lemma mask11: "(x :: u16) AND 0x7ff = take_bit 11 x"
  by (simp add: take_bit_eq_mask mask_eq_decr_exp flip: word_unat_eq_iff)

lemma bus_word_fields:
  assumes "a < 4"
  shows "frame_addr (0x8000 OR (reg_name a OR (x AND 0x7ff))) = a"
    "frame_addr (reg_name a OR (x AND 0x7ff)) = a"
    "\<not> bit (reg_name a OR (x AND 0x7ff)) 15"
    "bit (0x8000 OR (reg_name a OR (x AND 0x7ff))) 15"
    "(reg_name a OR (x AND 0x7ff)) AND 0x7ff = x AND 0x7ff"
    "(0x8000 OR (reg_name a OR (x AND 0x7ff))) AND 0x7800 = reg_name a"
    "bit (reg_name a OR (x AND 0x7ff)) 2 = bit x 2"
proof -
  consider "a = 0" | "a = 1" | "a = 2" | "a = 3" using assms by linarith
  then have r: "reg_name a = 0 \<and> a = 0 \<or> reg_name a = 0x800 \<and> a = 1 \<or>
      reg_name a = 0x1000 \<and> a = 2 \<or> reg_name a = 0x1800 \<and> a = 3"
    by cases (simp_all add: reg_name_def)
  show "frame_addr (0x8000 OR (reg_name a OR (x AND 0x7ff))) = a"
    "frame_addr (reg_name a OR (x AND 0x7ff)) = a"
    using r by (auto simp: frame_addr_def drop_bit_or drop_bit_and)
  show "\<not> bit (reg_name a OR (x AND 0x7ff)) 15" "bit (0x8000 OR (reg_name a OR (x AND 0x7ff))) 15"
    "bit (reg_name a OR (x AND 0x7ff)) 2 = bit x 2"
    using r by (auto simp: bit_simps)
  show "(reg_name a OR (x AND 0x7ff)) AND 0x7ff = x AND 0x7ff"
    "(0x8000 OR (reg_name a OR (x AND 0x7ff))) AND 0x7800 = reg_name a"
    using r by (auto simp: bit.conj_disj_distrib2 and.assoc)
qed


lemma build_read: "DRV8301_buildCtrlWord DRV8301_CtrlMode_Read (reg_name a) 0 = 0x8000 OR (reg_name a OR (0 AND 0x7ff))"
  by (simp add: DRV8301_buildCtrlWord_def drv_consts)

lemma build_write: "DRV8301_buildCtrlWord DRV8301_CtrlMode_Write (reg_name a) d = reg_name a OR (d AND 0x7ff)"
  by (simp add: DRV8301_buildCtrlWord_def drv_consts)

lemma nCS_low:
  assumes "drv_wired hal h view"
  shows "view (DRV8301_nCS hal h False w) = chip_low (view w)"
  by (simp add: DRV8301_nCS_def drv_wiredD [OF assms])

lemma nCS_high:
  assumes "drv_wired hal h view" "\<not> chip_resets (view w)"
  shows "view (DRV8301_nCS hal h True w) = chip_high (view w)"
  using assms(2) by (simp add: DRV8301_nCS_def drv_wiredD [OF assms(1)])

lemma read_spi:
  assumes "drv_wired hal h view" "drv_idle (view w)" "a < 4"
  shows "\<exists>w'. DRV8301_readSpi hal h (reg_name a) w = Some (chip_regs (view w) a, w') \<and>
    drv_idle (view w') \<and> chip_regs (view w') = chip_regs (view w)"
proof -
  note wired = drv_wiredD [OF assms(1)]
  define c where "c = view w"
  have idle: "\<not> chip_selected c" "chip_shift c = None" "chip_regs c a AND 0x7ff = chip_regs c a"
    using assms(2) by (auto simp: drv_idle_def c_def)
  let ?d = "0x8000 OR (reg_name a OR (0 AND 0x7ff))"
  define w1 where "w1 = hal_spi_transmit hal (spiHandle h) ?d (DRV8301_nCS hal h False w)"
  have w1: "view w1 = c\<lparr>chip_selected := True, chip_shift := Some ?d\<rparr>"
    using idle by (simp add: w1_def wired nCS_low [OF assms(1)] chip_low_def c_def)
  have f: "frame_addr ?d = a" "bit ?d 15" "?d AND 0x7800 = reg_name a"
    using bus_word_fields(1,4,6) [OF assms(3), of 0] by simp_all
  define w2 where "w2 = DRV8301_nCS hal h True w1"
  have "\<not> chip_resets (view w1)" unfolding w1 using f by (simp add: chip_resets_def)
  then have w2: "view w2 = c\<lparr>chip_selected := False, chip_shift := None,
      chip_reply := reg_name a OR (chip_regs c a AND 0x7ff)\<rparr>"
    unfolding w2_def nCS_high [OF assms(1) \<open>\<not> chip_resets (view w1)\<close>] w1
    using f by (simp add: chip_high_def Let_def del: or.assoc)
  define w3 where "w3 = DRV8301_nCS hal h False w2"
  have w3: "view w3 = c\<lparr>chip_selected := True, chip_shift := None,
      chip_reply := reg_name a OR (chip_regs c a AND 0x7ff)\<rparr>"
    unfolding w3_def nCS_low [OF assms(1)] w2 by (simp add: chip_low_def)
  define rec where "rec = fst (hal_spi_transmit_receive hal (spiHandle h) 0 0xbeef w3)"
  define w4 where "w4 = snd (hal_spi_transmit_receive hal (spiHandle h) 0 0xbeef w3)"
  have rec: "rec = reg_name a OR (chip_regs c a AND 0x7ff)"
    unfolding rec_def using wired(5) [of w3 0 "0xbeef"] by (simp add: w3)
  have w4: "view w4 = c\<lparr>chip_selected := True, chip_shift := Some 0,
      chip_reply := reg_name a OR (chip_regs c a AND 0x7ff)\<rparr>"
    unfolding w4_def using wired(6) [of w3 0 "0xbeef"] by (simp add: w3)
  define w5 where "w5 = DRV8301_nCS hal h True (hal_delay_us hal 1 w4)"
  have z: "frame_addr 0 = 0" by (simp add: frame_addr_def)
  have nr: "\<not> chip_resets (view (hal_delay_us hal 1 w4))" using z by (simp add: chip_resets_def wired w4)
  have w5: "view w5 = c\<lparr>chip_selected := False, chip_shift := None,
      chip_reply := reg_name a OR (chip_regs c a AND 0x7ff)\<rparr>"
    unfolding w5_def nCS_high [OF assms(1) nr] wired w4 by (simp add: chip_high_def Let_def z)
  have "rec \<noteq> 0xbeef"
  proof
    assume "rec = 0xbeef"
    moreover have "\<not> bit rec 15" unfolding rec by (rule bus_word_fields(3) [OF assms(3)])
    ultimately show False by (simp add: bit_simps)
  qed
  moreover have "rec AND DRV8301_DATA_MASK = chip_regs c a"
    unfolding rec DRV8301_DATA_MASK_def bus_word_fields(5) [OF assms(3)] by (rule idle(3))
  moreover have "hal_spi_transmit_receive hal (spiHandle h) 0 0xbeef w3 = (rec, w4)"
    by (simp add: rec_def w4_def)
  ultimately have "DRV8301_readSpi hal h (reg_name a) w = Some (chip_regs (view w) a, w5)"
    unfolding DRV8301_readSpi_def Let_def build_read w1_def [symmetric] w2_def [symmetric] w3_def [symmetric]
    by (simp add: w5_def c_def)
  moreover have "drv_idle (view w5)" using assms(2) by (simp add: w5 drv_idle_def c_def)
  ultimately show ?thesis using w5 by (auto simp: c_def)
qed

lemma write_spi:
  assumes "drv_wired hal h view" "drv_idle (view w)" "a = 2 \<or> a = 3" "a = 2 \<longrightarrow> \<not> bit d 2"
  shows "drv_idle (view (DRV8301_writeSpi hal h (reg_name a) d w)) \<and>
    chip_regs (view (DRV8301_writeSpi hal h (reg_name a) d w)) = (chip_regs (view w))(a := d AND 0x7ff)"
proof -
  note wired = drv_wiredD [OF assms(1)]
  define c where "c = view w"
  have idle: "\<not> chip_selected c" "chip_shift c = None" using assms(2) by (auto simp: drv_idle_def c_def)
  have a: "a < 4" using assms(3) by auto
  let ?d = "reg_name a OR (d AND 0x7ff)"
  define w1 where "w1 = hal_delay_us hal 1
    (hal_spi_transmit hal (spiHandle h) ?d (DRV8301_nCS hal h False w))"
  have w1: "view w1 = c\<lparr>chip_selected := True, chip_shift := Some ?d\<rparr>"
    using idle by (simp add: w1_def wired nCS_low [OF assms(1)] chip_low_def c_def)
  note f = bus_word_fields(2,3,5,7) [OF a, of d]
  have "\<not> chip_resets (view w1)" unfolding w1 using f assms(4) by (auto simp: chip_resets_def)
  then have "view (DRV8301_nCS hal h True w1) =
      c\<lparr>chip_selected := False, chip_shift := None, chip_regs := (chip_regs c)(a := d AND 0x7ff)\<rparr>"
    unfolding nCS_high [OF assms(1) \<open>\<not> chip_resets (view w1)\<close>] w1
    using f assms(3) by (simp add: chip_high_def Let_def)
  moreover have "DRV8301_writeSpi hal h (reg_name a) d w = DRV8301_nCS hal h True w1"
    unfolding DRV8301_writeSpi_def Let_def build_write w1_def ..
  moreover have "\<not> bit (d AND 0x7ff) 2" if "a = 2" using assms(4) that by (simp add: bit_simps)
  ultimately show ?thesis using assms(2) by (auto simp: drv_idle_def c_def and.assoc)
qed


subsection \<open>Setters\<close>

text \<open>
  \<open>sets_field view f a bits\<close>: called on an idle chip with a value inside \<open>bits\<close>, \<open>f\<close> returns, register
  \<open>a\<close> then has the value in these bits and its old contents in the others, and no other register
  has changed.
\<close>

definition sets_field :: "('w \<Rightarrow> drv_chip) \<Rightarrow> (u16 \<Rightarrow> 'w \<Rightarrow> 'w option) \<Rightarrow> nat \<Rightarrow> u16 \<Rightarrow> bool" where
  "sets_field view f a bits \<longleftrightarrow>
     (\<forall>v w. v AND bits = v \<longrightarrow> drv_idle (view w) \<longrightarrow>
        (\<exists>w'. f v w = Some w' \<and> drv_idle (view w') \<and>
           chip_regs (view w') a AND bits = v \<and>
           chip_regs (view w') a AND NOT bits = chip_regs (view w) a AND NOT bits \<and>
           (\<forall>b. b \<noteq> a \<longrightarrow> chip_regs (view w') b = chip_regs (view w) b)))"

lemma drv_set_spec:
  assumes "drv_wired hal h view" "a = 2 \<or> a = 3" "bits AND 0x7ff = bits" "a = 2 \<longrightarrow> \<not> bit bits 2"
  shows "sets_field view (drv_set hal h (reg_name a) bits) a bits"
  unfolding sets_field_def
proof (intro allI impI)
  fix v w
  assume v: "v AND bits = v" and idle: "drv_idle (view w)"
  have a: "a < 4" using assms(2) by auto
  from read_spi [OF assms(1) idle a] obtain w1 where
    w1: "DRV8301_readSpi hal h (reg_name a) w = Some (chip_regs (view w) a, w1)" "drv_idle (view w1)"
      "chip_regs (view w1) = chip_regs (view w)" by blast
  define d where "d = (chip_regs (view w) a AND NOT bits) OR v"
  have v2: "v = v AND bits" using v by simp
  have "a = 2 \<longrightarrow> \<not> bit d 2"
  proof
    assume "a = 2"
    then have "\<not> bit bits 2" "\<not> bit (chip_regs (view w) a) 2" using assms(4) idle by (auto simp: drv_idle_def)
    then show "\<not> bit d 2" unfolding d_def by (subst v2) (simp add: bit_simps)
  qed
  from write_spi [OF assms(1) w1(2) assms(2) this] have
    w2: "drv_idle (view (DRV8301_writeSpi hal h (reg_name a) d w1))"
      "chip_regs (view (DRV8301_writeSpi hal h (reg_name a) d w1)) = (chip_regs (view w))(a := d AND 0x7ff)"
    by (simp_all add: w1(3))
  have r: "chip_regs (view w) a AND 0x7ff = chip_regs (view w) a" using idle by (simp add: drv_idle_def)
  have bits_v: "v AND 0x7ff = v" by (subst (1 2) v2) (simp add: and.assoc assms(3))
  have "(chip_regs (view w) a AND NOT bits) AND 0x7ff = (chip_regs (view w) a AND 0x7ff) AND NOT bits"
    by (simp only: and.assoc and.commute [of "NOT bits"])
  then have d: "d AND 0x7ff = d" unfolding d_def bit.conj_disj_distrib2 bits_v by (simp only: r)
  have "d AND bits = v" unfolding d_def by (simp add: bit.conj_disj_distrib2 and.assoc v)
  moreover have "d AND NOT bits = chip_regs (view w) a AND NOT bits"
    unfolding d_def by (subst v2) (simp add: bit.conj_disj_distrib2 and.assoc)
  moreover have "drv_set hal h (reg_name a) bits v w = Some (DRV8301_writeSpi hal h (reg_name a) d w1)"
    by (simp add: drv_set_def w1(1) Let_def d_def)
  ultimately show "\<exists>w'. drv_set hal h (reg_name a) bits v w = Some w' \<and> drv_idle (view w') \<and>
      chip_regs (view w') a AND bits = v \<and>
      chip_regs (view w') a AND NOT bits = chip_regs (view w) a AND NOT bits \<and>
      (\<forall>b. b \<noteq> a \<longrightarrow> chip_regs (view w') b = chip_regs (view w) b)"
    using w2 by (simp add: d)
qed

text \<open>A world that is such a chip, for examples.\<close>

definition chip_hal :: "drv_chip hal" where
  "chip_hal = \<lparr>
     hal_gpio_write = (\<lambda>p n l c. if n = 0 then if l then chip_high c else chip_low c else c),
     hal_spi_transmit = (\<lambda>p d c. c\<lparr>chip_shift := Some d\<rparr>),
     hal_spi_transmit_receive = (\<lambda>p d r c. (chip_reply c, c\<lparr>chip_shift := Some d\<rparr>)),
     hal_delay_us = (\<lambda>n c. c), hal_mdelay = (\<lambda>n c. c)\<rparr>"

definition demo_drv :: DRV8301_Obj where
  "demo_drv = \<lparr>spiHandle = 0, EngpioHandle = 0, EngpioNumber = 1, nCSgpioHandle = 0,
     nCSgpioNumber = 0, RxTimeOut = False, enableTimeOut = False\<rparr>"

definition demo_chip :: drv_chip where
  "demo_chip = \<lparr>chip_selected = False, chip_shift = None, chip_reply = 0,
     chip_regs = (\<lambda>a. if a = 2 then 0x0403 else 0)\<rparr>"

lemma demo_wired: "drv_wired chip_hal demo_drv id"
  by (auto simp: drv_wired_def chip_hal_def demo_drv_def)

lemma demo_idle: "drv_idle (id demo_chip)"
  by (auto simp: drv_idle_def demo_chip_def bit_simps)

text \<open>C30: Every setter of the gate driver, on a chip that follows the register protocol of the header,
  returns, puts the new value into its own field and leaves every other bit of the registers as it
  was.\<close>
theorem drv_setters_change_one_field:
  assumes "drv_wired hal h view"
  shows "sets_field view (DRV8301_setOcLevel hal h) 2 DRV8301_CTRL1_OC_ADJ_SET_BITS \<and>
    sets_field view (DRV8301_setOcMode hal h) 2 DRV8301_CTRL1_OC_MODE_BITS \<and>
    sets_field view (DRV8301_setPeakCurrent hal h) 2 DRV8301_CTRL1_GATE_CURRENT_BITS \<and>
    sets_field view (DRV8301_setPwmMode hal h) 2 DRV8301_CTRL1_PWM_MODE_BITS \<and>
    sets_field view (DRV8301_setOcOffTimeMode hal h) 3 DRV8301_CTRL2_OC_TOFF_BITS \<and>
    sets_field view (DRV8301_setOcTwMode hal h) 3 DRV8301_CTRL2_OCTW_SET_BITS \<and>
    sets_field view (DRV8301_setShuntAmpGain hal h) 3 DRV8301_CTRL2_GAIN_BITS \<and>
    sets_field view (DRV8301_setDcCalMode hal h 1) 3 DRV8301_CTRL2_DC_CAL_1_BITS \<and>
    sets_field view (DRV8301_setDcCalMode hal h 2) 3 DRV8301_CTRL2_DC_CAL_2_BITS"
proof -
  have eta: "f = g" if "\<And>v w. f v w = g v w" for f g :: "u16 \<Rightarrow> 'a \<Rightarrow> 'a option"
    using that by blast
  note set = drv_set_spec [OF assms]
  have "DRV8301_setOcLevel hal h = drv_set hal h (reg_name 2) 0x7c0"
    "DRV8301_setOcMode hal h = drv_set hal h (reg_name 2) 0x30"
    "DRV8301_setPeakCurrent hal h = drv_set hal h (reg_name 2) 3"
    "DRV8301_setPwmMode hal h = drv_set hal h (reg_name 2) 8"
    "DRV8301_setOcOffTimeMode hal h = drv_set hal h (reg_name 3) 0x40"
    "DRV8301_setOcTwMode hal h = drv_set hal h (reg_name 3) 3"
    "DRV8301_setShuntAmpGain hal h = drv_set hal h (reg_name 3) 0xc"
    "DRV8301_setDcCalMode hal h 1 = drv_set hal h (reg_name 3) 0x10"
    "DRV8301_setDcCalMode hal h 2 = drv_set hal h (reg_name 3) 0x20"
    by (intro eta; simp add: DRV8301_setOcLevel_def DRV8301_setOcMode_def DRV8301_setPeakCurrent_def
        DRV8301_setPwmMode_def DRV8301_setOcOffTimeMode_def DRV8301_setOcTwMode_def
        DRV8301_setShuntAmpGain_def DRV8301_setDcCalMode_def dc_cal_bits_def reg_name_def drv_consts)+
  then show ?thesis using set [of 2] set [of 3] by (simp add: drv_consts bit_simps)
qed

theorem drv_setters_change_one_field_witness:
  "\<exists>w'. DRV8301_setOcMode chip_hal demo_drv 0x10 demo_chip = Some w' \<and> chip_regs w' 2 AND 0x30 = 0x10 \<and>
     chip_regs w' 2 AND NOT 0x30 = 0x403"
proof -
  have "sets_field id (DRV8301_setOcMode chip_hal demo_drv) 2 DRV8301_CTRL1_OC_MODE_BITS"
    using drv_setters_change_one_field [OF demo_wired] by simp
  then have "0x10 AND DRV8301_CTRL1_OC_MODE_BITS = 0x10 \<Longrightarrow>
      \<exists>w'. DRV8301_setOcMode chip_hal demo_drv 0x10 demo_chip = Some w' \<and>
        chip_regs (id w') 2 AND DRV8301_CTRL1_OC_MODE_BITS = 0x10 \<and>
        chip_regs (id w') 2 AND NOT DRV8301_CTRL1_OC_MODE_BITS =
          chip_regs (id demo_chip) 2 AND NOT DRV8301_CTRL1_OC_MODE_BITS"
    unfolding sets_field_def using demo_idle by blast
  then show ?thesis by (simp add: demo_chip_def drv_consts)
qed

subsection \<open>Setting a motor up\<close>

lemma wait_no_fault_spec:
  assumes "drv_wired hal h view" "drv_idle (view w)" "\<not> bit (chip_regs (view w) 0) 10"
  shows "\<exists>w'. DRV8301_wait_no_fault hal h w = Some w' \<and> drv_idle (view w') \<and>
    chip_regs (view w') = chip_regs (view w)"
proof -
  from read_spi [OF assms(1,2), of 0] obtain w1 where
    "DRV8301_readSpi hal h (reg_name 0) w = Some (chip_regs (view w) 0, w1)" "drv_idle (view w1)"
    "chip_regs (view w1) = chip_regs (view w)" by auto
  moreover have "chip_regs (view w) 0 AND DRV8301_STATUS1_FAULT_BITS = 0"
    using assms(3) by (simp add: drv_consts and_exp_eq_0_iff_not_bit [of _ 10, simplified])
  ultimately show ?thesis
    by (intro exI [of _ w1]) (simp add: DRV8301_wait_no_fault.simps [of hal h w] reg_names)
qed

lemma enable_spec:
  assumes "drv_wired hal h view" "drv_idle (view w)" "\<not> bit (chip_regs (view w) 0) 10"
  shows "\<exists>w'. DRV8301_enable hal h w = Some w' \<and> drv_idle (view w') \<and>
    chip_regs (view w') = chip_regs (view w)"
proof -
  note wired = drv_wiredD [OF assms(1)]
  let ?w = "hal_mdelay hal 10 (hal_gpio_write hal (EngpioHandle h) (EngpioNumber h) True w)"
  have "view ?w = view w" by (simp add: wired)
  with wait_no_fault_spec [OF assms(1), of ?w] assms(2,3) obtain w' where
    "DRV8301_wait_no_fault hal h ?w = Some w'" "drv_idle (view w')" "chip_regs (view w') = chip_regs (view w)"
    by auto
  then show ?thesis by (simp add: DRV8301_enable_def wired)
qed

lemma setup_spec:
  assumes "drv_wired hal h view" "drv_idle (view w)"
  shows "\<exists>w'. DRV8301_setupSpi hal h v w =
      Some (v\<lparr>SndCmd := False, RcvCmd := False, Stat_Reg_1 := stat1_of (chip_regs (view w) 0),
        Stat_Reg_2 := stat2_of (chip_regs (view w) 1), Ctrl_Reg_1 := ctrl1_of (chip_regs (view w) 2),
        Ctrl_Reg_2 := ctrl2_of (chip_regs (view w) 3)\<rparr>, w') \<and>
    drv_idle (view w') \<and> chip_regs (view w') = chip_regs (view w)"
proof -
  define w0 where "w0 = hal_mdelay hal 1 w"
  have w0: "view w0 = view w" by (simp add: w0_def drv_wiredD [OF assms(1)])
  note read = read_spi [OF assms(1)]
  have 0: "drv_idle (view w0)" using assms(2) by (simp add: w0)
  from read [OF 0, of 0] obtain w1 where 1: "DRV8301_readSpi hal h (reg_name 0) w0 = Some (chip_regs (view w) 0, w1)"
    "drv_idle (view w1)" "chip_regs (view w1) = chip_regs (view w)" by (auto simp: w0)
  from read [OF 1(2), of 1] obtain w2 where 2: "DRV8301_readSpi hal h (reg_name 1) w1 = Some (chip_regs (view w) 1, w2)"
    "drv_idle (view w2)" "chip_regs (view w2) = chip_regs (view w)" by (auto simp: 1)
  from read [OF 2(2), of 2] obtain w3 where 3: "DRV8301_readSpi hal h (reg_name 2) w2 = Some (chip_regs (view w) 2, w3)"
    "drv_idle (view w3)" "chip_regs (view w3) = chip_regs (view w)" by (auto simp: 2)
  from read [OF 3(2), of 3] obtain w4 where 4: "DRV8301_readSpi hal h (reg_name 3) w3 = Some (chip_regs (view w) 3, w4)"
    "drv_idle (view w4)" "chip_regs (view w4) = chip_regs (view w)" by (auto simp: 3)
  show ?thesis
    using 4 by (simp add: DRV8301_setupSpi_def Let_def reg_names w0_def [symmetric] 1(1) 2(1) 3(1) del: One_nat_def)
qed

lemma read_data_spec:
  assumes "drv_wired hal h view" "drv_idle (view w)" "RcvCmd v"
  shows "\<exists>v' w'. DRV8301_readData hal h v w = Some (v', w') \<and>
    Stat_Reg_1 v' = stat1_of (chip_regs (view w) 0) \<and> Stat_Reg_2 v' = stat2_of (chip_regs (view w) 1) \<and>
    Ctrl_Reg_1 v' = ctrl1_of (chip_regs (view w) 2) \<and> Ctrl_Reg_2 v' = ctrl2_of (chip_regs (view w) 3) \<and>
    SndCmd v' = SndCmd v \<and> \<not> RcvCmd v' \<and> drv_idle (view w') \<and> chip_regs (view w') = chip_regs (view w)"
proof -
  note read = read_spi [OF assms(1)]
  from read [OF assms(2), of 0] obtain w1 where 1: "DRV8301_readSpi hal h (reg_name 0) w = Some (chip_regs (view w) 0, w1)"
    "drv_idle (view w1)" "chip_regs (view w1) = chip_regs (view w)" by auto
  from read [OF 1(2), of 1] obtain w2 where 2: "DRV8301_readSpi hal h (reg_name 1) w1 = Some (chip_regs (view w) 1, w2)"
    "drv_idle (view w2)" "chip_regs (view w2) = chip_regs (view w)" by (auto simp: 1)
  from read [OF 2(2), of 2] obtain w3 where 3: "DRV8301_readSpi hal h (reg_name 2) w2 = Some (chip_regs (view w) 2, w3)"
    "drv_idle (view w3)" "chip_regs (view w3) = chip_regs (view w)" by (auto simp: 2)
  from read [OF 3(2), of 3] obtain w4 where 4: "DRV8301_readSpi hal h (reg_name 3) w3 = Some (chip_regs (view w) 3, w4)"
    "drv_idle (view w4)" "chip_regs (view w4) = chip_regs (view w)" by (auto simp: 3)
  show ?thesis
    using 4 assms(3) by (simp add: DRV8301_readData_def Let_def reg_names 1(1) 2(1) 3(1) del: One_nat_def)
qed

text \<open>What \<open>DRV8301_writeData\<close> puts on the bus for a local copy of the settings.\<close>

definition ctrl1_word :: "DRV_SPI_8301_CTRL1_t \<Rightarrow> u16" where
  "ctrl1_word c = DRV8301_CURRENT c OR DRV8301_RESET c OR PWM_MODE c OR OC_MODE c OR OC_ADJ_SET c"

definition ctrl2_word :: "DRV_SPI_8301_CTRL2_t \<Rightarrow> u16" where
  "ctrl2_word c = OCTW_SET c OR GAIN c OR DC_CAL_CH1p2 c OR OC_TOFF c"

lemma write_data_spec:
  assumes "drv_wired hal h view" "drv_idle (view w)" "SndCmd v" "\<not> bit (ctrl1_word (Ctrl_Reg_1 v)) 2"
  shows "\<exists>w'. DRV8301_writeData hal h v w = (v\<lparr>SndCmd := False\<rparr>, w') \<and> drv_idle (view w') \<and>
    chip_regs (view w') = (chip_regs (view w))
      (2 := ctrl1_word (Ctrl_Reg_1 v) AND 0x7ff, 3 := ctrl2_word (Ctrl_Reg_2 v) AND 0x7ff)"
proof -
  let ?w1 = "DRV8301_writeSpi hal h (reg_name 2) (ctrl1_word (Ctrl_Reg_1 v)) w"
  have 1: "drv_idle (view ?w1)" "chip_regs (view ?w1) = (chip_regs (view w))(2 := ctrl1_word (Ctrl_Reg_1 v) AND 0x7ff)"
    using write_spi [OF assms(1,2), of 2] assms(4) by simp_all
  have 2: "drv_idle (view (DRV8301_writeSpi hal h (reg_name 3) (ctrl2_word (Ctrl_Reg_2 v)) ?w1))"
    "chip_regs (view (DRV8301_writeSpi hal h (reg_name 3) (ctrl2_word (Ctrl_Reg_2 v)) ?w1)) = (chip_regs (view w))
      (2 := ctrl1_word (Ctrl_Reg_1 v) AND 0x7ff, 3 := ctrl2_word (Ctrl_Reg_2 v) AND 0x7ff)"
    using write_spi [OF assms(1) 1(1), of 3] 1(2) by simp_all
  moreover have "DRV8301_writeData hal h v w = (v\<lparr>SndCmd := False\<rparr>,
      DRV8301_writeSpi hal h (reg_name 3) (ctrl2_word (Ctrl_Reg_2 v)) ?w1)"
    using assms(3) by (simp add: DRV8301_writeData_def Let_def reg_names ctrl1_word_def ctrl2_word_def or.assoc)
  ultimately show ?thesis by blast
qed


lemma ctrl1_of_word:
  assumes "DRV8301_CURRENT c AND 3 = DRV8301_CURRENT c" "DRV8301_RESET c AND 4 = DRV8301_RESET c"
    "PWM_MODE c AND 8 = PWM_MODE c" "OC_MODE c AND 0x30 = OC_MODE c" "OC_ADJ_SET c AND 0x7c0 = OC_ADJ_SET c"
  shows "ctrl1_of (ctrl1_word c AND 0x7ff) = c"
proof -
  have m: "x AND m AND m' = x AND (m AND m')" for x m m' :: u16 by (simp add: and.assoc)
  have f: "DRV8301_CURRENT c AND k = DRV8301_CURRENT c AND (3 AND k)" "DRV8301_RESET c AND k = DRV8301_RESET c AND (4 AND k)"
    "PWM_MODE c AND k = PWM_MODE c AND (8 AND k)" "OC_MODE c AND k = OC_MODE c AND (0x30 AND k)"
    "OC_ADJ_SET c AND k = OC_ADJ_SET c AND (0x7c0 AND k)" for k
    using assms by (metis and.assoc)+
  have w: "ctrl1_word c AND 0x7ff AND k = (DRV8301_CURRENT c AND (3 AND k)) OR (DRV8301_RESET c AND (4 AND k)) OR
      (PWM_MODE c AND (8 AND k)) OR (OC_MODE c AND (0x30 AND k)) OR (OC_ADJ_SET c AND (0x7c0 AND k))"
    if "0x7ff AND k = k" for k
    unfolding and.assoc that ctrl1_word_def bit.conj_disj_distrib2 f [of k] by (simp only: or.assoc)
  have "(ctrl1_word c AND 0x7ff) AND 3 = DRV8301_CURRENT c" "(ctrl1_word c AND 0x7ff) AND 4 = DRV8301_RESET c"
    "(ctrl1_word c AND 0x7ff) AND 8 = PWM_MODE c" "(ctrl1_word c AND 0x7ff) AND 0x30 = OC_MODE c"
    "(ctrl1_word c AND 0x7ff) AND 0x7c0 = OC_ADJ_SET c"
    using w [of 3] w [of 4] w [of 8] w [of "0x30"] w [of "0x7c0"] assms by (simp_all add: and.assoc)
  then show ?thesis by (simp add: ctrl1_of_def drv_consts)
qed

lemma ctrl2_of_word:
  assumes "OCTW_SET c AND 3 = OCTW_SET c" "GAIN c AND 0xc = GAIN c"
    "DC_CAL_CH1p2 c AND 0x30 = DC_CAL_CH1p2 c" "OC_TOFF c AND 0x40 = OC_TOFF c"
  shows "ctrl2_of (ctrl2_word c AND 0x7ff) = c"
proof -
  have f: "OCTW_SET c AND k = OCTW_SET c AND (3 AND k)" "GAIN c AND k = GAIN c AND (0xc AND k)"
    "DC_CAL_CH1p2 c AND k = DC_CAL_CH1p2 c AND (0x30 AND k)" "OC_TOFF c AND k = OC_TOFF c AND (0x40 AND k)" for k
    using assms by (metis and.assoc)+
  have w: "ctrl2_word c AND 0x7ff AND k = (OCTW_SET c AND (3 AND k)) OR (GAIN c AND (0xc AND k)) OR
      (DC_CAL_CH1p2 c AND (0x30 AND k)) OR (OC_TOFF c AND (0x40 AND k))"
    if "0x7ff AND k = k" for k
    unfolding and.assoc that ctrl2_word_def bit.conj_disj_distrib2 f [of k] by (simp only: or.assoc)
  have "(ctrl2_word c AND 0x7ff) AND 3 = OCTW_SET c" "(ctrl2_word c AND 0x7ff) AND 0xc = GAIN c"
    "(ctrl2_word c AND 0x7ff) AND 0x30 = DC_CAL_CH1p2 c" "(ctrl2_word c AND 0x7ff) AND 0x40 = OC_TOFF c"
    using w [of 3] w [of "0xc"] w [of "0x30"] w [of "0x40"] assms by (simp_all add: and.assoc)
  then show ?thesis by (simp add: ctrl2_of_def drv_consts)
qed



subsection \<open>Where the code departs from its header\<close>

text \<open>
  \<open>DRV8301_FAULT_TYPE_MASK\<close> contains the fault bit itself, so the fault type is never
  \<open>DRV8301_FaultType_NoFault\<close> once the fault bit is set: the second status register, which alone tells an
  over-voltage of the gate supply, is not read, and the result is the whole first register.
\<close>

lemma drv_fault_type_unclassified:
  assumes "drv_wired hal h view" "drv_idle (view w)" "bit (chip_regs (view w) 0) 10"
  shows "\<exists>w'. DRV8301_getFaultType hal h w = Some (chip_regs (view w) 0, w')"
proof -
  from read_spi [OF assms(1,2), of 0] obtain w1 where
    1: "DRV8301_readSpi hal h (reg_name 0) w = Some (chip_regs (view w) 0, w1)" by auto
  have m: "chip_regs (view w) 0 AND 0x7ff = chip_regs (view w) 0" using assms(2) by (simp add: drv_idle_def)
  have f: "chip_regs (view w) 0 AND 0x400 \<noteq> 0"
    using assms(3) and_exp_eq_0_iff_not_bit [of "chip_regs (view w) 0" 10] by simp
  then have "chip_regs (view w) 0 \<noteq> 0" by auto
  then show ?thesis
    using f by (simp add: DRV8301_getFaultType_def reg_names 1 drv_consts m)
qed

text \<open>The getters clear the bits they are to return, and return the others.\<close>

lemma drv_getters_clear_field:
  assumes "drv_wired hal h view" "drv_idle (view w)"
  shows "\<exists>w'. DRV8301_getOcMode hal h w = Some (chip_regs (view w) 2 AND NOT DRV8301_CTRL1_OC_MODE_BITS, w')"
proof -
  from read_spi [OF assms, of 2] obtain w1 where
    "DRV8301_readSpi hal h (reg_name 2) w = Some (chip_regs (view w) 2, w1)" by auto
  then show ?thesis by (simp add: DRV8301_getOcMode_def drv_get_def reg_names)
qed

end
