(* ===== verification/Kformat.thy ===== *)
theory Kformat imports Prelude
begin

text \<open>
  Formatted output, \<open>rt_vsnprintf\<close> of \<open>src/kservice.c\<close>, in the board's configuration:
  \<open>RT_PRINTF_PRECISION\<close> is defined, \<open>RT_PRINTF_LONGLONG\<close> and \<open>RT_PRINTF_SPECIAL\<close> are not, and \<open>long\<close> has 32 bits.

  A format or a string argument is the list of its characters before the terminating zero, and lies
  outside the output buffer. Memory is a function on addresses, and the output position is an
  address: characters at or behind \<open>end\<close> (\<open>lim\<close> below) are counted and not stored. Signed overflow wraps around.
  Taking an argument of another type than was passed, or one too many, has no result (\<open>None\<close>).
\<close>

unbundle bit_operations_syntax

type_synonym cstring = "u8 list"
type_synonym outbuf = "u32 \<times> (u32 \<Rightarrow> u8)"

datatype vararg = VInt u32 | VStr "cstring option"

definition ch :: "char \<Rightarrow> u8" where "ch c = of_char c"

definition ZEROPAD :: u8 where "ZEROPAD = push_bit 0 1"
definition SIGN :: u8 where "SIGN = push_bit 1 1"
definition PLUS :: u8 where "PLUS = push_bit 2 1"
definition SPACE :: u8 where "SPACE = push_bit 3 1"
definition LEFT :: u8 where "LEFT = push_bit 4 1"
definition SPECIAL :: u8 where "SPECIAL = push_bit 5 1"
definition LARGE :: u8 where "LARGE = push_bit 6 1"

definition has_flag :: "u8 \<Rightarrow> u8 \<Rightarrow> bool" where
  "has_flag type f \<longleftrightarrow> type AND f \<noteq> 0"

subsection \<open>Facts about signed words\<close>

lemma sint_dec:
  fixes a b :: u32
  assumes "sint a < sint b"
  shows "sint (b - 1) = sint b - 1"
proof -
  have "- (2 ^ 31) \<le> sint a" "sint b < 2 ^ 31"
    using sint_ge [of a] sint_lt [of b] by simp_all
  then have "signed_take_bit 31 (sint b - 1) = sint b - 1"
    using assms by (intro signed_take_bit_int_eq_self) simp_all
  then show ?thesis by (simp add: sint_word_ariths)
qed

subsection \<open>Writing characters\<close>

definition emit :: "u32 \<Rightarrow> u8 \<Rightarrow> outbuf \<Rightarrow> outbuf" where
  "emit lim c o' = (case o' of (str, m) \<Rightarrow> (str + 1, if str < lim then m(str := c) else m))"

text \<open>The loops \<open>while (low < sz--)\<close> and \<open>while (--w > 0)\<close> around one character: what the counter holds afterwards,
  and the output.\<close>

function put_while :: "u32 \<Rightarrow> u8 \<Rightarrow> u32 \<Rightarrow> u32 \<Rightarrow> outbuf \<Rightarrow> u32 \<times> outbuf" where
  "put_while lim c low sz ob =
     (if sint low < sint sz then put_while lim c low (sz - 1) (emit lim c ob) else (sz - 1, ob))"
  by pat_completeness auto
termination
  by (relation "measure (\<lambda>(_, _, low, sz, _). nat (sint sz - sint low))") (auto simp: sint_dec)

function put_predec :: "u32 \<Rightarrow> u8 \<Rightarrow> u32 \<Rightarrow> outbuf \<Rightarrow> u32 \<times> outbuf" where
  "put_predec lim c w ob =
     (let w = w - 1 in if 0 < sint w then put_predec lim c w (emit lim c ob) else (w, ob))"
  by pat_completeness auto
termination
proof (relation "measure (\<lambda>(_, _, w, _). unat w)")
  fix lim w x :: u32 and c :: u8 and ob :: outbuf
  assume "x = w - 1" "0 < sint x"
  then have "w \<noteq> 0" by auto
  then have "unat x < unat w" using \<open>x = w - 1\<close> by (metis unat_gt_0 unat_minus_one diff_less zero_less_one)
  then show "((lim, c, x, emit lim c ob), (lim, c, w, ob)) \<in> measure (\<lambda>(_, _, w, _). unat w)"
    by simp
qed simp

declare put_while.simps [simp del] put_predec.simps [simp del]

subsection \<open>Numbers\<close>

definition divide_base :: "u32 \<Rightarrow> u32 \<Rightarrow> u32 \<times> u32" where
  "divide_base n base =
     (if base = 10 then (n mod 10, n div 10) else (n mod 16, n div 16))"

definition small_digits :: cstring where
  "small_digits = map ch ''0123456789abcdef''"

definition large_digits :: cstring where
  "large_digits = map ch ''0123456789ABCDEF''"

lemma divide_less: "n \<noteq> 0 \<Longrightarrow> unat (snd (divide_base n base)) < unat n"
  by (simp add: divide_base_def unat_div unat_eq_0 flip: unat_gt_0)

text \<open>\<open>tmp\<close>, the digits from the least significant on.\<close>

function number_digits :: "cstring \<Rightarrow> u32 \<Rightarrow> u32 \<Rightarrow> cstring" where
  "number_digits digits base num =
     (if num = 0 then []
      else case divide_base num base of (res, num) \<Rightarrow> digits ! unat res # number_digits digits base num)"
  by pat_completeness auto
termination
  using divide_less
  by (relation "measure (\<lambda>(_, _, num). unat num)") (auto, metis snd_conv)

declare number_digits.simps [simp del]

definition print_number ::
    "u32 \<Rightarrow> u32 \<Rightarrow> u32 \<Rightarrow> u32 \<Rightarrow> u32 \<Rightarrow> u8 \<Rightarrow> outbuf \<Rightarrow> outbuf" where
  "print_number lim num base s precision type ob =
     (let precision_bak = precision;
          digits = (if has_flag type LARGE then large_digits else small_digits);
          type = (if has_flag type LEFT then type AND NOT ZEROPAD else type);
          c = (if has_flag type ZEROPAD then ch CHR ''0'' else ch CHR '' '');
          (sign, num) =
            (if has_flag type SIGN then
               if sint num < 0 then (Some (ch CHR ''-''), - num)
               else if has_flag type PLUS then (Some (ch CHR ''+''), num)
               else if has_flag type SPACE then (Some (ch CHR '' ''), num)
               else (None, num)
             else (None, num));
          tmp = (if num = 0 then [ch CHR ''0''] else number_digits digits base num);
          i = of_nat (length tmp);
          precision = (if sint precision < sint i then i else precision);
          sz = s - precision;
          (sz, ob) =
            (if has_flag type (ZEROPAD OR LEFT) then (sz, ob)
             else put_while lim (ch CHR '' '') 0
                    (if sign \<noteq> None \<and> 0 < sint sz then sz - 1 else sz) ob);
          (sz, ob) =
            (case sign of None \<Rightarrow> (sz, ob) | Some sg \<Rightarrow> (sz - 1, emit lim sg ob));
          (sz, ob) = (if has_flag type LEFT then (sz, ob) else put_while lim c 0 sz ob);
          (precision, ob) = put_while lim (ch CHR ''0'') i precision ob;
          ob = (if precision_bak = 0 then ob else fold (emit lim) (rev tmp) ob);
          (sz, ob) = put_while lim (ch CHR '' '') 0 sz ob
      in ob)"

subsection \<open>Parsing the format\<close>

definition ISDIGIT :: "u8 \<Rightarrow> bool" where
  "ISDIGIT c \<longleftrightarrow> ucast c - 48 < (10 :: u32)"

fun skip_atoi :: "u32 \<Rightarrow> cstring \<Rightarrow> u32 \<times> cstring" where
  "skip_atoi i (c # s) =
     (if ISDIGIT c then skip_atoi (i * 10 + ucast c - 48) s else (i, c # s))"
| "skip_atoi i [] = (i, [])"

fun get_flags :: "u8 \<Rightarrow> cstring \<Rightarrow> u8 \<times> cstring" where
  "get_flags flags (c # fmt) =
     (if c = ch CHR ''-'' then get_flags (flags OR LEFT) fmt
      else if c = ch CHR ''+'' then get_flags (flags OR PLUS) fmt
      else if c = ch CHR '' '' then get_flags (flags OR SPACE) fmt
      else if c = ch CHR ''#'' then get_flags (flags OR SPECIAL) fmt
      else if c = ch CHR ''0'' then get_flags (flags OR ZEROPAD) fmt
      else (flags, c # fmt))"
| "get_flags flags [] = (flags, [])"

fun va_arg_int :: "vararg list \<Rightarrow> (u32 \<times> vararg list) option" where
  "va_arg_int (VInt v # args) = Some (v, args)"
| "va_arg_int _ = None"

fun va_arg_str :: "vararg list \<Rightarrow> (cstring option \<times> vararg list) option" where
  "va_arg_str (VStr s # args) = Some (s, args)"
| "va_arg_str _ = None"

definition get_width ::
    "u8 \<Rightarrow> cstring \<Rightarrow> vararg list \<Rightarrow> (u32 \<times> u8 \<times> cstring \<times> vararg list) option" where
  "get_width flags fmt args =
     (case fmt of
        [] \<Rightarrow> Some (-1, flags, fmt, args)
      | c # fmt' \<Rightarrow>
          if ISDIGIT c then
            let (w, fmt) = skip_atoi 0 fmt in Some (w, flags, fmt, args)
          else if c = ch CHR ''*'' then do {
            (w, args) \<leftarrow> va_arg_int args;
            Some (if sint w < 0 then (- w, flags OR LEFT, fmt', args) else (w, flags, fmt', args))
          }
          else Some (-1, flags, fmt, args))"

definition get_precision ::
    "cstring \<Rightarrow> vararg list \<Rightarrow> (u32 \<times> cstring \<times> vararg list) option" where
  "get_precision fmt args =
     (case fmt of
        [] \<Rightarrow> Some (-1, fmt, args)
      | c # fmt' \<Rightarrow>
          if c = ch CHR ''.'' then do {
            (p, fmt, args) \<leftarrow>
              (case fmt' of
                 [] \<Rightarrow> Some (-1, fmt', args)
               | d # fmt'' \<Rightarrow>
                   if ISDIGIT d then let (p, fmt) = skip_atoi 0 fmt' in Some (p, fmt, args)
                   else if d = ch CHR ''*'' then do {
                     (p, args) \<leftarrow> va_arg_int args;
                     Some (p, fmt'', args)
                   }
                   else Some (-1, fmt', args));
            Some (if sint p < 0 then 0 else p, fmt, args)
          }
          else Some (-1, fmt, args))"

definition get_qualifier :: "cstring \<Rightarrow> u8 \<times> cstring" where
  "get_qualifier fmt =
     (case fmt of
        [] \<Rightarrow> (0, fmt)
      | c # fmt' \<Rightarrow> if c = ch CHR ''h'' \<or> c = ch CHR ''l'' then (c, fmt') else (0, fmt))"

subsection \<open>One conversion\<close>

definition convert_char ::
    "u32 \<Rightarrow> u8 \<Rightarrow> u32 \<Rightarrow> vararg list \<Rightarrow> outbuf \<Rightarrow> (vararg list \<times> outbuf) option" where
  "convert_char lim flags field_width args ob = do {
     let (field_width, ob) =
       (if has_flag flags LEFT then (field_width, ob)
        else put_predec lim (ch CHR '' '') field_width ob);
     (c, args) \<leftarrow> va_arg_int args;
     let ob = emit lim (ucast c) ob;
     let (field_width, ob) = put_predec lim (ch CHR '' '') field_width ob;
     Some (args, ob)
   }"

text \<open>The loop that measures a string stops at \<open>field_width\<close> characters.\<close>

definition string_len :: "u32 \<Rightarrow> cstring \<Rightarrow> nat" where
  "string_len field_width s =
     (if sint field_width < 0 then length s else min (unat field_width) (length s))"

definition convert_string ::
    "u32 \<Rightarrow> u8 \<Rightarrow> u32 \<Rightarrow> u32 \<Rightarrow> vararg list \<Rightarrow> outbuf \<Rightarrow> (vararg list \<times> outbuf) option" where
  "convert_string lim flags field_width precision args ob = do {
     (s, args) \<leftarrow> va_arg_str args;
     let s = (case s of None \<Rightarrow> map ch ''(NULL)'' | Some s \<Rightarrow> s);
     let len = of_nat (string_len field_width s);
     let len = (if 0 < sint precision \<and> sint precision < sint len then precision else len);
     let (field_width, ob) =
       (if has_flag flags LEFT then (field_width, ob)
        else put_while lim (ch CHR '' '') len field_width ob);
     let ob = fold (emit lim) (take (unat len) s) ob;
     let (field_width, ob) = put_while lim (ch CHR '' '') len field_width ob;
     Some (args, ob)
   }"

definition get_number :: "u8 \<Rightarrow> u8 \<Rightarrow> u32 \<Rightarrow> u32" where
  "get_number flags qualifier arg =
     (if qualifier = ch CHR ''h'' then
        if has_flag flags SIGN then scast (ucast arg :: u16) else ucast (ucast arg :: u16)
      else arg)"

definition convert_number ::
    "u32 \<Rightarrow> u8 \<Rightarrow> u32 \<Rightarrow> u32 \<Rightarrow> u8 \<Rightarrow> u32 \<Rightarrow> vararg list \<Rightarrow> outbuf \<Rightarrow> (vararg list \<times> outbuf) option" where
  "convert_number lim flags field_width precision qualifier base args ob = do {
     (arg, args) \<leftarrow> va_arg_int args;
     Some (args, print_number lim (get_number flags qualifier arg) base field_width precision flags ob)
   }"

definition convert ::
    "u32 \<Rightarrow> u8 \<Rightarrow> u8 \<Rightarrow> u32 \<Rightarrow> u32 \<Rightarrow> u8 \<Rightarrow> vararg list \<Rightarrow> outbuf \<Rightarrow> (vararg list \<times> outbuf) option" where
  "convert lim c flags field_width precision qualifier args ob =
     (if c = ch CHR ''c'' then convert_char lim flags field_width args ob
      else if c = ch CHR ''s'' then convert_string lim flags field_width precision args ob
      else if c = ch CHR ''p'' then do {
        let (field_width, flags) =
          (if field_width = -1 then (8, flags OR ZEROPAD) else (field_width, flags));
        (arg, args) \<leftarrow> va_arg_int args;
        Some (args, print_number lim arg 16 field_width precision flags ob)
      }
      else if c = ch CHR ''%'' then Some (args, emit lim (ch CHR ''%'') ob)
      else if c = ch CHR ''o'' then convert_number lim flags field_width precision qualifier 8 args ob
      else if c = ch CHR ''X'' then
        convert_number lim (flags OR LARGE) field_width precision qualifier 16 args ob
      else if c = ch CHR ''x'' then convert_number lim flags field_width precision qualifier 16 args ob
      else if c = ch CHR ''d'' \<or> c = ch CHR ''i'' then
        convert_number lim (flags OR SIGN) field_width precision qualifier 10 args ob
      else if c = ch CHR ''u'' then convert_number lim flags field_width precision qualifier 10 args ob
      else Some (args, emit lim c (emit lim (ch CHR ''%'') ob)))"

subsection \<open>The format\<close>

lemma skip_atoi_length: "length (snd (skip_atoi i s)) \<le> length s"
  by (induction i s rule: skip_atoi.induct) (auto simp: le_SucI)

lemma get_flags_length: "length (snd (get_flags flags fmt)) \<le> length fmt"
  by (induction flags fmt rule: get_flags.induct) (auto simp: le_SucI)

lemma get_width_length:
  "get_width flags fmt args = Some (w, flags', fmt', args') \<Longrightarrow> length fmt' \<le> length fmt"
  using skip_atoi_length [of 0 fmt]
  by (auto simp: get_width_def Option.bind_eq_Some_conv split: list.splits if_splits prod.splits)

lemma get_precision_length:
  "get_precision fmt args = Some (p, fmt', args') \<Longrightarrow> length fmt' \<le> length fmt"
  using skip_atoi_length [of 0 "tl fmt"]
  by (auto simp: get_precision_def Option.bind_eq_Some_conv split: list.splits if_splits prod.splits)

lemma get_qualifier_length: "length (snd (get_qualifier fmt)) \<le> length fmt"
  by (auto simp: get_qualifier_def split: list.splits)

definition parse_spec ::
    "cstring \<Rightarrow> vararg list \<Rightarrow> (u8 \<times> u32 \<times> u32 \<times> u8 \<times> cstring \<times> vararg list) option" where
  "parse_spec fmt args = do {
     let (flags, fmt) = get_flags 0 fmt;
     (field_width, flags, fmt, args) \<leftarrow> get_width flags fmt args;
     (precision, fmt, args) \<leftarrow> get_precision fmt args;
     let (qualifier, fmt) = get_qualifier fmt;
     Some (flags, field_width, precision, qualifier, fmt, args)
   }"

lemma parse_spec_length:
  assumes "parse_spec fmt args = Some (flags, w, p, q, fmt', args')"
  shows "length fmt' \<le> length fmt"
proof -
  obtain f0 fmt0 where 0: "get_flags 0 fmt = (f0, fmt0)" by fastforce
  with assms obtain w1 f1 fmt1 args1 where 1: "get_width f0 fmt0 args = Some (w1, f1, fmt1, args1)"
    by (auto simp: parse_spec_def Option.bind_eq_Some_conv)
  with 0 assms obtain p2 fmt2 args2 where 2: "get_precision fmt1 args1 = Some (p2, fmt2, args2)"
    by (auto simp: parse_spec_def Option.bind_eq_Some_conv)
  with 0 1 assms have "fmt' = snd (get_qualifier fmt2)"
    by (auto simp: parse_spec_def split: prod.splits)
  then show ?thesis
    using get_flags_length [of 0 fmt] get_width_length [OF 1] get_precision_length [OF 2]
      get_qualifier_length [of fmt2] 0 by simp
qed

function format_loop :: "u32 \<Rightarrow> cstring \<Rightarrow> vararg list \<Rightarrow> outbuf \<Rightarrow> outbuf option" where
  "format_loop lim fmt args ob =
     (case fmt of
        [] \<Rightarrow> Some ob
      | c # fmt \<Rightarrow>
          if c \<noteq> ch CHR ''%'' then format_loop lim fmt args (emit lim c ob)
          else case parse_spec fmt args of
            None \<Rightarrow> None
          | Some (flags, field_width, precision, qualifier, fmt, args) \<Rightarrow>
              (case fmt of
                 [] \<Rightarrow> Some (emit lim (ch CHR ''%'') ob)
               | c # fmt \<Rightarrow>
                   (case convert lim c flags field_width precision qualifier args ob of
                      None \<Rightarrow> None
                    | Some (args, ob) \<Rightarrow> format_loop lim fmt args ob)))"
  by pat_completeness auto
termination
  by (relation "measure (\<lambda>(_, fmt, _, _). length fmt)") (auto dest: parse_spec_length)

declare format_loop.simps [simp del]

definition rt_vsnprintf ::
    "u32 \<Rightarrow> u32 \<Rightarrow> cstring \<Rightarrow> vararg list \<Rightarrow> (u32 \<Rightarrow> u8) \<Rightarrow> (u32 \<times> (u32 \<Rightarrow> u8)) option" where
  "rt_vsnprintf buf sz fmt args m =
     (let lim = buf + sz;
          (lim, sz) = (if lim < buf then (0xffffffff, 0xffffffff - buf) else (lim, sz))
      in do {
        (str, m) \<leftarrow> format_loop lim fmt args (buf, m);
        Some (str - buf,
          if 0 < sz then if str < lim then m(str := 0) else m(lim - 1 := 0) else m)
      })"

definition rt_snprintf where
  "rt_snprintf buf sz fmt args m = rt_vsnprintf buf sz fmt args m"

definition rt_vsprintf where
  "rt_vsprintf buf fmt args m = rt_vsnprintf buf (- 1) fmt args m"

definition rt_sprintf where
  "rt_sprintf buf fmt args m = rt_vsprintf buf fmt args m"

end
