(* ===== verification/KformatProps.thy ===== *)
theory KformatProps imports Kformat
begin

text \<open>
  What formatted output promises: the text depends on the format and the arguments alone, the buffer
  receives as much of it as fits and a terminating zero, nothing else is written, and the
  length of the whole text is returned.
\<close>

subsection \<open>Every part of the formatter only appends characters\<close>

definition puts :: "u32 \<Rightarrow> cstring \<Rightarrow> outbuf \<Rightarrow> outbuf" where
  "puts lim cs ob = fold (emit lim) cs ob"

lemma puts_Nil [simp]: "puts lim [] ob = ob"
  and puts_puts [simp]: "puts lim ys (puts lim xs ob) = puts lim (xs @ ys) ob"
  and fold_puts: "fold (emit lim) cs ob = puts lim cs ob"
  and emit_puts: "emit lim c ob = puts lim [c] ob"
  by (simp_all add: puts_def)

definition pad_count :: "u32 \<Rightarrow> u32 \<Rightarrow> nat" where
  "pad_count low sz = nat (sint sz - sint low)"

lemma put_while_puts:
  "put_while lim c low sz ob =
     (sz - of_nat (pad_count low sz) - 1, puts lim (replicate (pad_count low sz) c) ob)"
proof (induction lim c low sz ob rule: put_while.induct)
  case (1 lim c low sz ob)
  show ?case
  proof (cases "sint low < sint sz")
    case True
    then have "pad_count low sz = Suc (pad_count low (sz - 1))"
      by (simp add: pad_count_def sint_dec Suc_nat_eq_nat_zadd1)
    then show ?thesis
      using True 1 [OF True] by (simp add: put_while.simps [of lim c low sz ob] emit_puts)
  next
    case False
    then show ?thesis by (simp add: put_while.simps [of lim c low sz ob] pad_count_def)
  qed
qed

lemma put_predec_puts: "\<exists>n w'. \<forall>lim ob. put_predec lim c w ob = (w', puts lim (replicate n c) ob)"
proof (induction "unat w" arbitrary: w rule: less_induct)
  case less
  show ?case
  proof (cases "0 < sint (w - 1)")
    case True
    then have "w \<noteq> 0" by auto
    then have "unat (w - 1) < unat w" by (simp add: unat_minus_one unat_gt_0)
    from less [OF this] obtain n w' where
      "\<And>lim ob. put_predec lim c (w - 1) ob = (w', puts lim (replicate n c) ob)" by blast
    then have "\<And>lim ob. put_predec lim c w ob = (w', puts lim (replicate (Suc n) c) ob)"
      using True by (subst put_predec.simps) (simp add: Let_def emit_puts)
    then show ?thesis by blast
  next
    case False
    then have "\<And>lim ob. put_predec lim c w ob = (w - 1, puts lim (replicate 0 c) ob)"
      by (subst put_predec.simps) (simp add: Let_def)
    then show ?thesis by blast
  qed
qed

lemma print_number_puts: "\<exists>out. \<forall>lim ob. print_number lim num base s p type ob = puts lim out ob"
proof -
  define ty where "ty = (if has_flag type LEFT then type AND NOT ZEROPAD else type)"
  obtain sg n where sg: "(if has_flag ty SIGN then
      if sint num < 0 then (Some (ch CHR ''-''), - num)
      else if has_flag ty PLUS then (Some (ch CHR ''+''), num)
      else if has_flag ty SPACE then (Some (ch CHR '' ''), num) else (None, num)
      else (None, num)) = (sg, n)" by fastforce
  note eq = print_number_def Let_def ty_def [symmetric] sg put_while_puts fold_puts emit_puts prod.case
  show ?thesis
  proof (cases sg)
    case None
    then show ?thesis
      unfolding eq
      by (cases "has_flag ty (ZEROPAD OR LEFT)"; cases "has_flag ty LEFT"; cases "p = 0")
        (simp_all only: if_True if_False prod.case option.case puts_puts simp_thms, blast+)
  next
    case (Some a)
    then show ?thesis
      unfolding eq
      by (cases "has_flag ty (ZEROPAD OR LEFT)"; cases "has_flag ty LEFT"; cases "p = 0")
        (simp_all only: if_True if_False prod.case option.case puts_puts simp_thms, blast+)
  qed
qed


definition appends :: "(u32 \<Rightarrow> outbuf \<Rightarrow> ('a \<times> outbuf) option) \<Rightarrow> bool" where
  "appends f \<longleftrightarrow> (\<forall>lim ob. f lim ob = None) \<or> (\<exists>r out. \<forall>lim ob. f lim ob = Some (r, puts lim out ob))"

lemma appends_None: "(\<And>lim ob. f lim ob = None) \<Longrightarrow> appends f"
  and appends_Some: "(\<And>lim ob. f lim ob = Some (r, puts lim out ob)) \<Longrightarrow> appends f"
  by (auto simp: appends_def)

lemma appends_if: "(b \<Longrightarrow> appends f) \<Longrightarrow> (\<not> b \<Longrightarrow> appends g) \<Longrightarrow> appends (\<lambda>lim ob. if b then f lim ob else g lim ob)"
  by (cases b) simp_all

lemma convert_char_appends: "appends (\<lambda>lim. convert_char lim flags w args)"
proof (cases "va_arg_int args")
  case None
  then show ?thesis by (intro appends_None) (simp add: convert_char_def split: prod.split)
next
  case (Some a)
  obtain c args' where a: "va_arg_int args = Some (c, args')" using Some by (cases a) auto
  obtain n1 w1 where 1: "\<And>lim ob. put_predec lim (ch CHR '' '') w ob = (w1, puts lim (replicate n1 (ch CHR '' '')) ob)"
    using put_predec_puts by blast
  define w2 where "w2 = (if has_flag flags LEFT then w else w1)"
  obtain n2 w3 where 2: "\<And>lim ob. put_predec lim (ch CHR '' '') w2 ob = (w3, puts lim (replicate n2 (ch CHR '' '')) ob)"
    using put_predec_puts by blast
  have "convert_char lim flags w args ob = Some (args',
      puts lim ((if has_flag flags LEFT then [] else replicate n1 (ch CHR '' '')) @ [ucast c] @
        replicate n2 (ch CHR '' '')) ob)" for lim ob
  proof (cases "has_flag flags LEFT")
    case True
    then have "put_predec lim (ch CHR '' '') w ob = (w3, puts lim (replicate n2 (ch CHR '' '')) ob)" for lim ob
      using 2 by (simp add: w2_def)
    then show ?thesis using True by (simp add: convert_char_def a emit_puts Let_def)
  next
    case False
    then have "put_predec lim (ch CHR '' '') w1 ob = (w3, puts lim (replicate n2 (ch CHR '' '')) ob)" for lim ob
      using 2 by (simp add: w2_def)
    then show ?thesis using False by (simp add: convert_char_def a 1 emit_puts Let_def)
  qed
  then show ?thesis by (rule appends_Some)
qed

lemma convert_string_appends: "appends (\<lambda>lim. convert_string lim flags w p args)"
proof (cases "va_arg_str args")
  case None
  then show ?thesis by (intro appends_None) (simp add: convert_string_def)
next
  case (Some a)
  obtain q args' where a: "va_arg_str args = Some (q, args')" using Some by (cases a) auto
  define t where "t = (case q of None \<Rightarrow> map ch ''(NULL)'' | Some t \<Rightarrow> t)"
  define len :: u32 where "len = of_nat (string_len w t)"
  define len' where "len' = (if 0 < sint p \<and> sint p < sint len then p else len)"
  define w1 where "w1 = (if has_flag flags LEFT then w else w - of_nat (pad_count len' w) - 1)"
  have "convert_string lim flags w p args ob = Some (args',
      puts lim ((if has_flag flags LEFT then [] else replicate (pad_count len' w) (ch CHR '' '')) @
        take (unat len') t @ replicate (pad_count len' w1) (ch CHR '' '')) ob)" for lim ob
    unfolding convert_string_def a Let_def Option.bind.bind_lunit prod.case t_def [symmetric]
      len_def [symmetric] len'_def [symmetric] put_while_puts fold_puts
    by (cases "has_flag flags LEFT") (simp_all add: w1_def)
  then show ?thesis by (rule appends_Some)
qed

lemma number_appends:
  "appends (\<lambda>lim ob. do {
     (arg, args) \<leftarrow> va_arg_int args;
     Some (args, print_number lim (g arg) base w p flags ob) })"
proof (cases "va_arg_int args")
  case None
  then show ?thesis by (intro appends_None) simp
next
  case (Some a)
  obtain v args' where a: "va_arg_int args = Some (v, args')" using Some by (cases a) auto
  obtain out where "\<And>lim ob. print_number lim (g v) base w p flags ob = puts lim out ob"
    using print_number_puts by blast
  then show ?thesis by (intro appends_Some [of _ args' out]) (simp add: a)
qed

lemma convert_appends: "appends (\<lambda>lim. convert lim c flags w p q args)"
proof -
  have number: "appends (\<lambda>lim. convert_number lim fl w p q base args)" for fl base
    unfolding convert_number_def by (rule number_appends)
  have pointer: "appends (\<lambda>lim ob. do {
      let (w, fl) = (if w = -1 then (8, flags OR ZEROPAD) else (w, flags));
      (arg, args) \<leftarrow> va_arg_int args;
      Some (args, print_number lim arg 16 w p fl ob) })"
    using number_appends [of args "\<lambda>x. x" 16] by (cases "w = -1") simp_all
  have plain: "appends (\<lambda>lim ob. Some (args, emit lim x ob))"
    "appends (\<lambda>lim ob. Some (args, emit lim y (emit lim x ob)))" for x y
    by (rule appends_Some, simp add: emit_puts)+
  show ?thesis
    unfolding convert_def
    by (intro appends_if convert_char_appends convert_string_appends number pointer plain)
qed

lemma after_puts:
  assumes "(\<forall>lim ob. g lim ob = None) \<or> (\<exists>out. \<forall>lim ob. g lim ob = Some (puts lim out ob))"
    and "\<And>lim ob. f lim ob = g lim (puts lim xs ob)"
  shows "(\<forall>lim ob. f lim ob = None) \<or> (\<exists>out. \<forall>lim ob. f lim ob = Some (puts lim out ob))"
  using assms(1)
proof (elim disjE exE)
  assume "\<forall>lim ob. g lim ob = None"
  then have "\<forall>lim ob. f lim ob = None" unfolding assms(2) by blast
  then show ?thesis by blast
next
  fix out assume "\<forall>lim ob. g lim ob = Some (puts lim out ob)"
  then have "\<forall>lim ob. f lim ob = Some (puts lim (xs @ out) ob)"
    unfolding assms(2) puts_puts [symmetric] by blast
  then show ?thesis by blast
qed

lemma format_loop_appends:
  "(\<forall>lim ob. format_loop lim fmt args ob = None) \<or>
   (\<exists>out. \<forall>lim ob. format_loop lim fmt args ob = Some (puts lim out ob))"
proof (induction "length fmt" arbitrary: fmt args rule: less_induct)
  case less
  show ?case
  proof (cases fmt)
    case Nil
    then have "format_loop lim fmt args ob = Some (puts lim [] ob)" for lim ob
      by (simp add: format_loop.simps [of lim "[]"])
    then show ?thesis by blast
  next
    case (Cons c rest)
    show ?thesis
    proof (cases "c = ch CHR ''%''")
      case False
      then have step: "format_loop lim fmt args ob = format_loop lim rest args (puts lim [c] ob)" for lim ob
        using Cons by (simp add: format_loop.simps [of lim "c # rest"] emit_puts)
      have "length rest < length fmt" using Cons by simp
      from less [OF this, of args] show ?thesis by (rule after_puts) (rule step)
    next
      case True
      note first = True
      show ?thesis
      proof (cases "parse_spec rest args")
        case None
        then have "format_loop lim fmt args ob = None" for lim ob
          using Cons first by (simp add: format_loop.simps [of lim "ch CHR ''%'' # rest"])
        then show ?thesis by blast
      next
        case (Some a)
        then obtain fl w p q fmt2 args2 where spec: "parse_spec rest args = Some (fl, w, p, q, fmt2, args2)"
          by (cases a) auto
        show ?thesis
        proof (cases fmt2)
          case Nil
          then have "format_loop lim fmt args ob = Some (puts lim [ch CHR ''%''] ob)" for lim ob
            using Cons first spec by (simp add: format_loop.simps [of lim "ch CHR ''%'' # rest"] emit_puts)
          then show ?thesis by blast
        next
          case (Cons d fmt3)
          have step: "format_loop lim fmt args ob = (case convert lim d fl w p q args2 ob of
              None \<Rightarrow> None | Some (args, ob) \<Rightarrow> format_loop lim fmt3 args ob)" for lim ob
            using \<open>fmt = c # rest\<close> first spec Cons by (simp add: format_loop.simps [of lim "ch CHR ''%'' # rest"])
          have "length fmt3 < length fmt"
            using parse_spec_length [OF spec] \<open>fmt = c # rest\<close> Cons by simp
          note IH = less [OF this]
          show ?thesis
            using convert_appends [of d fl w p q args2] unfolding appends_def
          proof (elim disjE exE)
            assume "\<forall>lim ob. convert lim d fl w p q args2 ob = None"
            then show ?thesis unfolding step by simp
          next
            fix r out assume conv: "\<forall>lim ob. convert lim d fl w p q args2 ob = Some (r, puts lim out ob)"
            have "format_loop lim fmt args ob = format_loop lim fmt3 r (puts lim out ob)" for lim ob
              unfolding step conv [rule_format] by simp
            with IH [of r] show ?thesis by (rule after_puts)
          qed
        qed
      qed
    qed
  qed
qed


subsection \<open>What the buffer holds\<close>

lemma puts_buffer:
  assumes "unat a0 + length cs < 2 ^ 32"
  shows "puts lim cs (a0, m) = (a0 + of_nat (length cs),
    \<lambda>a. if unat (a - a0) < length cs \<and> a < lim then cs ! unat (a - a0) else m a)"
  using assms
proof (induction cs arbitrary: a0 m)
  case Nil
  then show ?case by simp
next
  case (Cons c cs)
  have a1: "unat (a0 + 1) = unat a0 + 1"
    using Cons.prems by (simp add: unat_word_ariths)
  have IH: "puts lim cs (a0 + 1, m') = (a0 + 1 + of_nat (length cs),
      \<lambda>a. if unat (a - (a0 + 1)) < length cs \<and> a < lim then cs ! unat (a - (a0 + 1)) else m' a)" for m'
    using Cons.IH [of "a0 + 1" m'] Cons.prems by (simp add: a1)
  have pos: "unat (a - (a0 + 1)) = (if a = a0 then 2 ^ 32 - 1 else unat (a - a0) - 1)" for a
  proof (cases "a = a0")
    case True
    have "a0 - (a0 + 1) = (- 1 :: u32)" by simp
    then show ?thesis using True by (simp only: if_True simp_thms) (simp add: unsigned_minus_1_eq_mask mask_eq_exp_minus_1)
  next
    case False
    then have "a - a0 \<noteq> 0" by simp
    then have "unat (a - a0 - 1) = unat (a - a0) - 1" by (rule unat_minus_one)
    then show ?thesis using False by (simp add: diff_diff_eq)
  qed
  have zero: "unat (a - a0) = 0 \<longleftrightarrow> a = a0" for a by (simp add: unat_eq_0)
  have "length cs < 2 ^ 32 - 1" using Cons.prems by simp
  then have mem: "(if unat (a - (a0 + 1)) < length cs \<and> a < lim then cs ! unat (a - (a0 + 1))
      else (if a0 < lim then m(a0 := c) else m) a) =
    (if unat (a - a0) < length (c # cs) \<and> a < lim then (c # cs) ! unat (a - a0) else m a)" for a
    using zero [of a] unfolding pos by (cases "unat (a - a0)") auto
  have "puts lim (c # cs) (a0, m) = puts lim cs (a0 + 1, if a0 < lim then m(a0 := c) else m)"
    by (simp add: puts_def emit_def)
  then show ?case unfolding IH mem by (simp add: add.assoc)
qed

text \<open>The bytes behind \<open>buf\<close> the code may use: up to the top of memory less one byte.\<close>

definition buf_room :: "u32 \<Rightarrow> u32 \<Rightarrow> nat" where
  "buf_room buf sz = (if unat buf + unat sz < 2 ^ 32 then unat sz else 2 ^ 32 - 1 - unat buf)"

definition buf_filled :: "u32 \<Rightarrow> nat \<Rightarrow> cstring \<Rightarrow> (u32 \<Rightarrow> u8) \<Rightarrow> u32 \<Rightarrow> u8" where
  "buf_filled buf room out m a =
     (let k = unat (a - buf); n = min (length out) (room - 1)
      in if room = 0 then m a else if k < n then out ! k else if k = n then 0 else m a)"

lemma unat_offset:
  fixes a b :: u32
  shows "unat b + unat (a - b) < 2 ^ 32 \<Longrightarrow> unat a = unat b + unat (a - b)"
proof -
  assume "unat b + unat (a - b) < 2 ^ 32"
  then have "unat (b + (a - b)) = unat b + unat (a - b)" by (simp only: unat_word_ariths) simp
  then show ?thesis by simp
qed

lemma vsnprintf_spec:
  assumes loop: "\<And>lim ob. format_loop lim fmt args ob = Some (puts lim out ob)"
    and fits: "unat buf + length out < 2 ^ 32"
  shows "rt_vsnprintf buf sz fmt args m =
    Some (of_nat (length out), buf_filled buf (buf_room buf sz) out m)"
proof -
  define lim where "lim = (if buf + sz < buf then 0xffffffff else buf + sz)"
  define sz' where "sz' = (if buf + sz < buf then 0xffffffff - buf else sz)"
  have room: "unat lim = unat buf + buf_room buf sz \<and> unat sz' = buf_room buf sz"
  proof (cases "unat buf + unat sz < 2 ^ 32")
    case True
    then have "unat (buf + sz) = unat buf + unat sz" by (simp add: unat_word_ariths)
    then show ?thesis using True by (simp add: lim_def sz'_def buf_room_def word_less_nat_alt)
  next
    case False
    have b: "unat buf < 2 ^ 32" "unat sz < 2 ^ 32" using unsigned_less [of buf] unsigned_less [of sz] by simp_all
    have "unat (buf + sz) = (unat buf + unat sz - 2 ^ 32) mod 2 ^ 32"
      using False by (simp add: unat_word_ariths le_mod_geq [of "2 ^ 32", simplified])
    then have "unat (buf + sz) = unat buf + unat sz - 2 ^ 32"
      using b by (subst (asm) mod_less) simp_all
    then have "buf + sz < buf" using b False by (simp add: word_less_nat_alt)
    moreover have "unat (0xffffffff - buf) = 2 ^ 32 - 1 - unat buf"
      using b by (subst unat_sub) (simp_all add: word_le_nat_alt)
    ultimately show ?thesis using b False by (simp add: lim_def sz'_def buf_room_def)
  qed
  define str where "str = buf + of_nat (length out)"
  define M where "M = (\<lambda>a. if unat (a - buf) < length out \<and> a < lim then out ! unat (a - buf) else m a)"
  have lo: "length out < 2 ^ 32" using fits by simp
  have str: "str - buf = of_nat (length out)" "unat str = unat buf + length out"
    using fits by (simp_all add: str_def unat_word_ariths unat_of_nat)
  have run: "format_loop lim fmt args (buf, m) = Some (str, M)"
    unfolding loop puts_buffer [OF fits] str_def M_def ..
  have "(if 0 < sz' then if str < lim then M(str := 0) else M(lim - 1 := 0) else M) a =
      buf_filled buf (buf_room buf sz) out m a" for a
  proof -
    define k where "k = unat (a - buf)"
    define r where "r = buf_room buf sz"
    have at: "a = buf + of_nat n \<longleftrightarrow> k = n" if "n < 2 ^ 32" for n
    proof -
      have "a = buf + of_nat n \<longleftrightarrow> a - buf = of_nat n" by (metis add_diff_cancel_left' diff_add_cancel add.commute)
      moreover have "unat (of_nat n :: u32) = n" using that by (simp add: unat_of_nat)
      ultimately show ?thesis by (simp add: word_unat_eq_iff k_def)
    qed
    have r: "unat lim = unat buf + r" "unat sz' = r" using room by (simp_all add: r_def)
    have lt: "a < lim \<longleftrightarrow> k < r" if "unat buf + k < 2 ^ 32"
      using unat_offset [of buf a] that r by (simp add: word_less_nat_alt k_def)
    have last: "lim - 1 = buf + of_nat (r - 1)" if "0 < r"
    proof -
      have "lim = of_nat (unat lim)" by simp
      also have "\<dots> = buf + of_nat r" unfolding r(1) by simp
      finally show ?thesis using that by (simp add: of_nat_diff)
    qed
    have "unat sz' < 2 ^ 32" using unsigned_less [of sz'] by simp
    then have r32: "r < 2 ^ 32" using r(2) by simp
    have pos: "0 < sz' \<longleftrightarrow> 0 < r" using r(2) by (simp add: word_less_nat_alt)
    have sl: "str < lim \<longleftrightarrow> length out < r" using r(1) str(2) by (simp add: word_less_nat_alt)
    have M: "M a = (if k < length out \<and> k < r then out ! k else m a)"
      using lt fits by (auto simp: M_def k_def)
    have r1: "r - 1 < 2 ^ 32" using r32 by simp
    have ends: "a = str \<longleftrightarrow> k = length out" "0 < r \<Longrightarrow> a = lim - 1 \<longleftrightarrow> k = r - 1"
      unfolding str_def by (rule at [OF lo]) (simp only: last at [OF r1])
    consider "r = 0" | "0 < r" "length out < r" | "0 < r" "r \<le> length out" by linarith
    then show ?thesis
    proof cases
      case 1
      then show ?thesis using pos M by (simp add: buf_filled_def r_def [symmetric])
    next
      case 2
      then show ?thesis
        using pos sl M ends(1) by (auto simp: buf_filled_def Let_def r_def [symmetric] k_def [symmetric] min_def)
    next
      case 3
      then show ?thesis
        using pos sl M ends(2) by (auto simp: buf_filled_def Let_def r_def [symmetric] k_def [symmetric] min_def)
    qed
  qed
  then have mem: "(if 0 < sz' then if str < lim then M(str := 0) else M(lim - 1 := 0) else M) =
      buf_filled buf (buf_room buf sz) out m" by (rule ext)
  have pair: "(if buf + sz < buf then (0xffffffff, 0xffffffff - buf) else (buf + sz, sz)) = (lim, sz')"
    by (simp add: lim_def sz'_def)
  show ?thesis
    unfolding rt_vsnprintf_def Let_def pair prod.case run Option.bind.bind_lunit mem str(1) ..
qed


subsection \<open>Numbers\<close>

text \<open>The text of a number, without machine integers: sign, padding, leading zeros, digits.\<close>

fun digits_in :: "nat \<Rightarrow> nat \<Rightarrow> nat list" where
  "digits_in b n = (if n < b \<or> b < 2 then [n] else digits_in b (n div b) @ [n mod b])"

declare digits_in.simps [simp del]

definition number_text :: "nat \<Rightarrow> u8 \<Rightarrow> int \<Rightarrow> int \<Rightarrow> int \<Rightarrow> cstring" where
  "number_text b type width prec v =
     (let sg = (if has_flag type SIGN then
                  if v < 0 then [ch CHR ''-''] else if has_flag type PLUS then [ch CHR ''+'']
                  else if has_flag type SPACE then [ch CHR '' ''] else []
                else []);
          digits = (if has_flag type LARGE then large_digits else small_digits);
          ds = map ((!) digits) (digits_in b (nat \<bar>v\<bar>));
          body = replicate (nat prec - length ds) (ch CHR ''0'') @ ds;
          pad = nat (width - int (length sg + length body))
      in if has_flag type LEFT then sg @ body @ replicate pad (ch CHR '' '')
         else if has_flag type ZEROPAD then sg @ replicate pad (ch CHR ''0'') @ body
         else replicate pad (ch CHR '' '') @ sg @ body)"

lemma digits_in_length: "2 \<le> b \<Longrightarrow> n < 2 ^ k \<Longrightarrow> 0 < k \<Longrightarrow> length (digits_in b n) \<le> k"
proof (induction k arbitrary: n)
  case 0
  then show ?case by simp
next
  case (Suc k)
  show ?case
  proof (cases "n < b \<or> k = 0")
    case True
    then show ?thesis using Suc.prems by (auto simp: digits_in.simps [of b n])
  next
    case False
    have "n div b \<le> n div 2" using Suc.prems(1) by (intro div_le_mono2) auto
    then have "n div b < 2 ^ k" using Suc.prems(2) by simp
    then show ?thesis using Suc.IH [of "n div b"] Suc.prems False by (simp add: digits_in.simps [of b n])
  qed
qed

lemma digits_in_nonempty: "digits_in b n \<noteq> []"
  by (simp add: digits_in.simps [of b n])

lemma number_digits_rev:
  assumes "base = 10 \<or> base = 16" "num \<noteq> 0"
  shows "rev (number_digits digits base num) = map ((!) digits) (digits_in (unat base) (unat num))"
  using assms(2)
proof (induction "unat num" arbitrary: num rule: less_induct)
  case less
  define b where "b = unat base"
  have b: "2 \<le> b" using assms(1) by (auto simp: b_def)
  have d: "unat (fst (divide_base num base)) = unat num mod b" "unat (snd (divide_base num base)) = unat num div b"
    using assms(1) by (auto simp: divide_base_def b_def unat_div unat_mod)
  have step: "rev (number_digits digits base num) =
      rev (number_digits digits base (snd (divide_base num base))) @ [digits ! (unat num mod b)]"
    using less(2) d(1) by (cases "divide_base num base") (simp add: number_digits.simps [of digits base num])
  show ?case
  proof (cases "unat num < b")
    case True
    then have "snd (divide_base num base) = 0" using d(2) by (simp add: unat_eq_0 [symmetric])
    then show ?thesis
      using True step by (simp add: number_digits.simps [of digits base 0] digits_in.simps [of b] flip: b_def)
  next
    case False
    then have "unat (snd (divide_base num base)) \<noteq> 0" using d(2) b by (simp add: div_eq_0_iff)
    then have "snd (divide_base num base) \<noteq> 0" by auto
    from less(1) [OF divide_less [OF less(2)] this] show ?thesis
      using False b step d(2) by (simp add: digits_in.simps [of b "unat num"] flip: b_def)
  qed
qed

lemma sint_sub:
  fixes a b :: u32
  assumes "- (2 ^ 31) \<le> sint a - sint b" "sint a - sint b < 2 ^ 31"
  shows "sint (a - b) = sint a - sint b"
  using assms by (simp add: sint_word_ariths signed_take_bit_int_eq_self)

lemma sint_of_nat_small: "n < 2 ^ 31 \<Longrightarrow> sint (of_nat n :: u32) = int n"
  by (simp add: signed_of_nat signed_take_bit_int_eq_self)


lemma pad_after:
  assumes "- (2 ^ 31) < sint sz"
  shows "sint (sz - of_nat (pad_count 0 sz) - 1) = (if 0 \<le> sint sz then - 1 else sint sz - 1)"
proof (cases "0 \<le> sint sz")
  case True
  have "nat (sint sz) < 2 ^ 31" using sint_lt [of sz] True by simp
  then have "sint (of_nat (pad_count 0 sz) :: u32) = sint sz"
    using True by (simp add: pad_count_def sint_of_nat_small)
  then have "of_nat (pad_count 0 sz) = sz" by (rule signed_word_eqI)
  then show ?thesis using True by simp
next
  case False
  then have "pad_count 0 sz = 0" by (simp add: pad_count_def)
  moreover have "sint (sz - 1) = sint sz - 1" using assms False by (subst sint_sub) simp_all
  ultimately show ?thesis using False by simp
qed

lemma sint_dec1: "- (2 ^ 31) < sint (sz :: u32) \<Longrightarrow> sint (sz - 1) = sint sz - 1"
  using sint_lt [of sz] by (subst sint_sub) simp_all

lemma pad_none: "sint sz \<le> 0 \<Longrightarrow> pad_count 0 sz = 0"
  by (simp add: pad_count_def)

text \<open>The three alignments, as the code arrives at them: \<open>sz\<close> is the room the sign and the digits leave.\<close>

lemma print_number_layout:
  assumes ty_def: "ty = (if has_flag type LEFT then type AND NOT ZEROPAD else type)"
    and digits_def: "digits = (if has_flag type LARGE then large_digits else small_digits)"
    and sg: "(if has_flag ty SIGN then
      if sint num < 0 then (Some (ch CHR ''-''), - num)
      else if has_flag ty PLUS then (Some (ch CHR ''+''), num)
      else if has_flag ty SPACE then (Some (ch CHR '' ''), num) else (None, num)
      else (None, num)) = (sg, n)"
    and tmp: "tmp = (if n = 0 then [ch CHR ''0''] else number_digits digits base n)"
    and prec: "prec = (if sint p < sint (of_nat (length tmp) :: u32) then of_nat (length tmp) else p)"
    and sz: "sz = s - prec" "- (2 ^ 30) \<le> sint sz" "sint sz \<le> 2 ^ 30"
    and p: "p \<noteq> 0"
  shows "print_number lim num base s p type ob = puts lim
    (let pad = nat (sint sz - (if sg = None then 0 else 1)); sgn = (case sg of None \<Rightarrow> [] | Some c \<Rightarrow> [c]);
         body = replicate (pad_count (of_nat (length tmp)) prec) (ch CHR ''0'') @ rev tmp
     in if has_flag ty LEFT then sgn @ body @ replicate pad (ch CHR '' '')
        else if has_flag ty ZEROPAD then sgn @ replicate pad (ch CHR ''0'') @ body
        else replicate pad (ch CHR '' '') @ sgn @ body) ob"
proof -
  have flags: "has_flag ty (ZEROPAD OR LEFT) \<longleftrightarrow> has_flag ty ZEROPAD \<or> has_flag ty LEFT"
    by (simp add: has_flag_def bit.conj_disj_distrib or_eq_0_iff)
  note eq = print_number_def Let_def ty_def [symmetric] digits_def [symmetric] sg prod.case tmp [symmetric]
    prec [symmetric] sz(1) [symmetric] put_while_puts fold_puts emit_puts
  have bound: "- (2 ^ 31) < sint sz" using sz(2) by simp
  have dec: "sint (sz - 1) = sint sz - 1" by (rule sint_dec1 [OF bound])
  have bound1: "- (2 ^ 31) < sint (sz - 1)" using sz(2) dec by simp
  define pads where "pads = replicate (pad_count (of_nat (length tmp)) prec) (ch CHR ''0'')"
  have none: "pad_count 0 (x - of_nat (pad_count 0 x) - 1) = 0" if "- (2 ^ 31) < sint x" for x
    using pad_after [OF that] by (intro pad_none) (simp split: if_splits)
  consider "has_flag ty LEFT" | "\<not> has_flag ty LEFT" "has_flag ty ZEROPAD"
    | "\<not> has_flag ty LEFT" "\<not> has_flag ty ZEROPAD" by blast
  then show ?thesis
  proof cases
    case 1
    then show ?thesis unfolding eq
      by (cases sg) (simp_all add: flags p pad_count_def dec)
  next
    case 2
    then show ?thesis unfolding eq
      using none [OF bound] none [OF bound1]
      by (cases sg) (simp_all add: flags p pad_count_def dec)
  next
    case 3
    define x where "x = (if sg \<noteq> None \<and> 0 < sint sz then sz - 1 else sz)"
    define y where "y = x - of_nat (pad_count 0 x) - 1"
    have x: "sint x = (if sg \<noteq> None \<and> 0 < sint sz then sint sz - 1 else sint sz)" by (simp add: x_def dec)
    have y: "sint y < 0" "- (2 ^ 30) - 1 \<le> sint y"
      using pad_after [of x] x sz(2) by (auto simp: y_def split: if_splits)
    have px: "pad_count 0 x = nat (sint sz - (if sg = None then 0 else 1))"
      using x by (auto simp: pad_count_def)
    have dec_y: "sint (y - 1) = sint y - 1" "sint (y - 1 - 1) = sint y - 2"
      using y sint_dec1 [of y] sint_dec1 [of "y - 1"] by simp_all
    have counts: "pad_count 0 y = 0" "pad_count 0 (y - 1) = 0" "pad_count 0 (y - of_nat 0 - 1) = 0"
      "pad_count 0 (y - 1 - of_nat 0 - 1) = 0"
      using y(1) dec_y by (auto intro: pad_none)
    show ?thesis
    proof (cases sg)
      case None
      show ?thesis unfolding eq x_def [symmetric]
        by (simp only: 3 flags p None if_False if_True simp_thms prod.case option.case y_def [symmetric]
            counts puts_puts replicate.simps append_Nil append_Nil2 append_assoc fold_puts refl)
          (simp add: px None)
    next
      case (Some a)
      show ?thesis unfolding eq x_def [symmetric]
        by (simp only: 3 flags p Some if_False if_True simp_thms prod.case option.case y_def [symmetric]
            counts puts_puts replicate.simps append_Nil append_Nil2 append_assoc fold_puts refl)
          (simp add: px Some)
    qed
  qed
qed


lemma flag_kept:
  assumes "f AND ZEROPAD = 0"
  shows "has_flag (type AND NOT ZEROPAD) f = has_flag type f"
proof -
  have "f AND NOT ZEROPAD = f"
    using assms by (metis bit.conj_disj_distrib bit.conj_one_right bit.disj_cancel_right or.right_neutral or.commute)
  then show ?thesis by (simp add: has_flag_def and.assoc and.commute [of "NOT ZEROPAD"])
qed

text \<open>C26: \<open>print_number\<close> prints a number as the reference \<open>number_text\<close> does over unbounded integers: sign,
  width, precision and alignment, decimal or hexadecimal, the least 32-bit number included. (Precision 0
  and octal are the two cases where the code departs from it.)\<close>
theorem print_number_text:
  assumes base: "base = 10 \<or> base = 16" and width: "- (2 ^ 29) \<le> sint s" "sint s \<le> 2 ^ 29"
    and p: "- 1 \<le> sint p" "sint p \<le> 2 ^ 29" "p \<noteq> 0"
  shows "print_number lim num base s p type ob = puts lim
    (number_text (unat base) type (sint s) (sint p)
      (if has_flag type SIGN then sint num else uint num)) ob"
proof -
  define ty where "ty = (if has_flag type LEFT then type AND NOT ZEROPAD else type)"
  define digits where "digits = (if has_flag type LARGE then large_digits else small_digits)"
  obtain sg n where sg: "(if has_flag ty SIGN then
      if sint num < 0 then (Some (ch CHR ''-''), - num)
      else if has_flag ty PLUS then (Some (ch CHR ''+''), num)
      else if has_flag ty SPACE then (Some (ch CHR '' ''), num) else (None, num)
      else (None, num)) = (sg, n)" by fastforce
  define tmp where "tmp = (if n = 0 then [ch CHR ''0''] else number_digits digits base n)"
  have flags: "has_flag ty SIGN = has_flag type SIGN" "has_flag ty PLUS = has_flag type PLUS"
    "has_flag ty SPACE = has_flag type SPACE" "has_flag ty LEFT = has_flag type LEFT"
  proof -
    have "SIGN AND ZEROPAD = 0" "PLUS AND ZEROPAD = 0" "SPACE AND ZEROPAD = 0" "LEFT AND ZEROPAD = 0"
      by (simp_all add: ZEROPAD_def SIGN_def PLUS_def SPACE_def LEFT_def)
    then show "has_flag ty SIGN = has_flag type SIGN" "has_flag ty PLUS = has_flag type PLUS"
      "has_flag ty SPACE = has_flag type SPACE" "has_flag ty LEFT = has_flag type LEFT"
      by (simp_all add: ty_def flag_kept)
  qed
  define v where "v = (if has_flag type SIGN then sint num else uint num)"
  have n: "unat n = nat \<bar>v\<bar>"
  proof (cases "has_flag type SIGN \<and> sint num < 0")
    case True
    then have nn: "n = - num" using sg flags by simp
    have "- num = word_of_int (- sint num)" by (simp add: wi_hom_neg [symmetric])
    then have "uint (- num) = take_bit 32 (- sint num)" by (simp only: uint_word_of_int_eq) simp
    also have "\<dots> = - sint num" using True sint_ge [of num] by (intro take_bit_int_eq_self) simp_all
    finally have "nat (uint (- num)) = nat (- sint num)" by simp
    then show ?thesis using True nn by (simp add: v_def)
  next
    case False
    then have nn: "n = num" using sg flags by (auto split: if_splits)
    have "uint num = v"
    proof (cases "has_flag type SIGN")
      case True
      then have "uint num = take_bit 32 (sint num)" by (subst uint_sint) simp
      also have "\<dots> = sint num"
        using False True sint_lt [of num] by (intro take_bit_int_eq_self) simp_all
      finally show ?thesis using True by (simp add: v_def)
    qed (simp add: v_def)
    then have "nat (uint num) = nat v" "0 \<le> v" by auto
    then show ?thesis using nn by simp
  qed
  have tmp_text: "rev tmp = map ((!) digits) (digits_in (unat base) (unat n))"
  proof (cases "n = 0")
    case True
    have "digits ! 0 = ch CHR ''0''" by (simp add: digits_def small_digits_def large_digits_def)
    moreover have "0 < unat base" using base by auto
    ultimately show ?thesis using True by (simp add: tmp_def digits_in.simps [of "unat base" 0])
  next
    case False
    then show ?thesis by (simp add: tmp_def number_digits_rev [OF base])
  qed
  have "unat n < 2 ^ 32" using unsigned_less [of n] by simp
  then have "length (rev tmp) \<le> 32"
    unfolding tmp_text length_map using base by (intro digits_in_length) auto
  then have len: "length tmp \<le> 32" by simp
  have i: "sint (of_nat (length tmp) :: u32) = int (length tmp)" using len by (simp add: sint_of_nat_small)
  define prec where "prec = (if sint p < sint (of_nat (length tmp) :: u32) then of_nat (length tmp) else p)"
  have prec: "sint prec = max (sint p) (int (length tmp))" by (simp add: prec_def i)
  have sz: "sint (s - prec) = sint s - sint prec"
    using width p(2) len prec by (intro sint_sub) auto
  have bounds: "- (2 ^ 30) \<le> sint (s - prec)" "sint (s - prec) \<le> 2 ^ 30"
    unfolding sz prec using width p len by auto
  define body where "body = replicate (nat (sint p) - length (rev tmp)) (ch CHR ''0'') @ rev tmp"
  have zeros: "replicate (pad_count (of_nat (length tmp)) prec) (ch CHR ''0'') @ rev tmp = body"
    by (simp add: body_def pad_count_def i prec nat_diff_distrib' max_def)
  have body_length: "int (length body) = sint prec" using p(1) by (simp add: body_def prec max_def)
  define sgn where "sgn = (case sg of None \<Rightarrow> [] | Some c \<Rightarrow> [c])"
  have sgn: "sgn = (if has_flag type SIGN then if v < 0 then [ch CHR ''-'']
      else if has_flag type PLUS then [ch CHR ''+''] else if has_flag type SPACE then [ch CHR '' ''] else []
      else [])"
    using sg flags by (auto simp: sgn_def v_def split: if_splits)
  have pad: "nat (sint (s - prec) - (if sg = None then 0 else 1)) = nat (sint s - int (length sgn + length body))"
    by (simp add: sz body_length sgn_def algebra_simps split: option.split)
  have zeropad: "\<not> has_flag type LEFT \<Longrightarrow> has_flag ty ZEROPAD = has_flag type ZEROPAD" by (simp add: ty_def)
  have "number_text (unat base) type (sint s) (sint p) v =
      (let pad = nat (sint s - int (length sgn + length body))
       in if has_flag type LEFT then sgn @ body @ replicate pad (ch CHR '' '')
          else if has_flag type ZEROPAD then sgn @ replicate pad (ch CHR ''0'') @ body
          else replicate pad (ch CHR '' '') @ sgn @ body)"
    unfolding number_text_def Let_def sgn body_def tmp_text n digits_def ..
  then show ?thesis
    unfolding print_number_layout [OF ty_def digits_def sg tmp_def prec_def refl bounds p(3)]
      Let_def zeros pad sgn_def [symmetric] flags(4) v_def [symmetric] using zeropad by simp
qed

theorem print_number_text_witness:
  "\<forall>lim ob. print_number lim (- 42) 10 6 (- 1) (SIGN OR ZEROPAD) ob = puts lim (map ch ''-00042'') ob"
proof (intro allI)
  fix lim ob
  have "print_number lim (- 42) 10 6 (- 1) (SIGN OR ZEROPAD) ob = puts lim
      (number_text (unat (10 :: u32)) (SIGN OR ZEROPAD) (sint (6 :: u32)) (sint (- 1 :: u32))
        (if has_flag (SIGN OR ZEROPAD) SIGN then sint (- 42 :: u32) else uint (- 42 :: u32))) ob"
    by (rule print_number_text) simp_all
  moreover have "number_text (unat (10 :: u32)) (SIGN OR ZEROPAD) (sint (6 :: u32)) (sint (- 1 :: u32))
        (if has_flag (SIGN OR ZEROPAD) SIGN then sint (- 42 :: u32) else uint (- 42 :: u32)) = map ch ''-00042''"
    by code_simp
  ultimately show "print_number lim (- 42) 10 6 (- 1) (SIGN OR ZEROPAD) ob = puts lim (map ch ''-00042'') ob"
    by (simp only:)
qed

subsection \<open>The buffer\<close>

text \<open>C25: For every format and every list of arguments, \<open>rt_vsnprintf\<close> either has arguments that do not match, or
  there is one text that every call prints, whatever the buffer: the call returns the length of the
  text, and unless the text would run over the top of the address space the buffer receives as
  much of it as fits and a terminating zero, and no other byte changes.\<close>
theorem vsnprintf_truncates:
  "(\<forall>buf sz m. rt_vsnprintf buf sz fmt args m = None) \<or>
   (\<exists>out. \<forall>buf sz m. \<exists>m'. rt_vsnprintf buf sz fmt args m = Some (of_nat (length out), m') \<and>
      (2 ^ 32 \<le> unat buf + length out \<or> m' = buf_filled buf (buf_room buf sz) out m))"
  using format_loop_appends [of fmt args]
proof (elim disjE exE)
  assume none: "\<forall>lim ob. format_loop lim fmt args ob = None"
  have "rt_vsnprintf buf sz fmt args m = None" for buf sz m
    unfolding rt_vsnprintf_def Let_def none [rule_format] by (simp split: prod.split)
  then show ?thesis by blast
next
  fix out assume loop: "\<forall>lim ob. format_loop lim fmt args ob = Some (puts lim out ob)"
  have str: "fst (puts lim cs (a, m)) = a + of_nat (length cs)" for lim cs a m
    by (induction cs arbitrary: a m) (simp_all add: puts_def emit_def)
  have "\<exists>m'. rt_vsnprintf buf sz fmt args m = Some (of_nat (length out), m') \<and>
      (2 ^ 32 \<le> unat buf + length out \<or> m' = buf_filled buf (buf_room buf sz) out m)" for buf sz m
  proof (cases "unat buf + length out < 2 ^ 32")
    case True
    from vsnprintf_spec [OF loop [rule_format] this] show ?thesis by blast
  next
    case False
    moreover have "\<exists>m'. rt_vsnprintf buf sz fmt args m = Some (of_nat (length out), m')"
    proof -
      obtain lim sz' where "(if buf + sz < buf then (0xffffffff, 0xffffffff - buf) else (buf + sz, sz)) = (lim, sz')"
        by fastforce
      moreover obtain M where "puts lim out (buf, m) = (buf + of_nat (length out), M)"
        using str [of lim out buf m] by (cases "puts lim out (buf, m)") simp
      ultimately show ?thesis
        unfolding rt_vsnprintf_def Let_def by (simp add: loop [rule_format])
    qed
    ultimately show ?thesis by auto
  qed
  then show ?thesis by blast
qed

lemma vsnprintf_example:
  "map_option (\<lambda>(n, m). (n, map m [0x100, 0x101, 0x102, 0x103, 0x104]))
     (rt_vsnprintf 0x100 4 (map ch ''n=%03d'') [VInt 7] (\<lambda>_. 0xee)) =
   Some (5, map ch ''n=0'' @ [0, 0xee])"
  by code_simp

end
